(* ===== verification/Duda_Prelude.thy ===== *)
theory Duda_Prelude
  imports Main "HOL-Library.Word"
begin

text \<open>
  Shared vocabulary of the development: the outcome of a C routine that may hit undefined
  behaviour or terminate the process, reads of C memory, the string routines of the C library
  that the sources call, the representation of Monkey's intrusive lists, and the generic lemmas
  on lists the components use.
\<close>

section \<open>Outcomes\<close>

text \<open>
  A routine either returns or stops with a fault. \<open>NullDeref\<close>, \<open>OutOfBounds\<close>, \<open>Uninit\<close> and
  \<open>DeadContext\<close> are undefined behaviour of the C program (a null pointer is dereferenced, memory
  outside an object is read or written, an uninitialised variable is used, a freed or finished
  stack is resumed); \<open>Exited\<close> and \<open>Aborted\<close> are calls of \<open>exit\<close> and of \<open>abort\<close> or a failed
  \<open>assert\<close>.
\<close>

datatype fault = NullDeref | OutOfBounds | Uninit | DeadContext | Exited | Aborted

type_synonym 'a run = "fault + 'a"

definition run_bind :: "'a run \<Rightarrow> ('a \<Rightarrow> 'b run) \<Rightarrow> 'b run" where
  "run_bind m f = (case m of Inl e \<Rightarrow> Inl e | Inr x \<Rightarrow> f x)"

named_theorems run_simps \<open>evaluation of outcomes\<close>

lemma run_bind_Inl [simp, run_simps]: "run_bind (Inl e) f = Inl e"
  by (simp add: run_bind_def)

lemma run_bind_Inr [simp, run_simps]: "run_bind (Inr x) f = f x"
  by (simp add: run_bind_def)

lemma run_bind_eq_Inr: "run_bind m f = Inr y \<longleftrightarrow> (\<exists>x. m = Inr x \<and> f x = Inr y)"
  by (cases m) auto

lemma run_bind_eq_Inl: "run_bind m f = Inl e \<longleftrightarrow> m = Inl e \<or> (\<exists>x. m = Inr x \<and> f x = Inl e)"
  by (cases m) auto

section \<open>C memory and strings\<close>

text \<open>
  A pointer into readable memory is the list of the bytes from the pointed-to one to the end of
  the object; reading past it is \<open>OutOfBounds\<close>.
\<close>

abbreviation NUL :: char where
  "NUL \<equiv> CHR 0x00"

definition rd :: "'a list \<Rightarrow> nat \<Rightarrow> 'a run" where
  "rd buf i = (if i < length buf then Inr (buf ! i) else Inl OutOfBounds)"

lemma rd_ok [simp, run_simps]: "i < length buf \<Longrightarrow> rd buf i = Inr (buf ! i)"
  by (simp add: rd_def)

lemma rd_bad: "length buf \<le> i \<Longrightarrow> rd buf i = Inl OutOfBounds"
  by (simp add: rd_def)

definition wr :: "'a list \<Rightarrow> nat \<Rightarrow> 'a \<Rightarrow> 'a list run" where
  "wr buf i x = (if i < length buf then Inr (buf[i := x]) else Inl OutOfBounds)"

lemma wr_ok [simp, run_simps]: "i < length buf \<Longrightarrow> wr buf i x = Inr (buf[i := x])"
  by (simp add: wr_def)

text \<open>A C string is its characters followed by the terminating zero byte.\<close>

definition cstr :: "string \<Rightarrow> string" where
  "cstr s = s @ [NUL]"

text \<open>\<open>strncmp(a, b, n) == 0\<close>, reading byte by byte as the C library does.\<close>

fun strncmp_eq :: "string \<Rightarrow> string \<Rightarrow> nat \<Rightarrow> bool run" where
  "strncmp_eq a b 0 = Inr True"
| "strncmp_eq (x # a) (y # b) (Suc n) =
     (if x \<noteq> y then Inr False else if x = NUL then Inr True else strncmp_eq a b n)"
| "strncmp_eq _ _ (Suc n) = Inl OutOfBounds"

definition no_nul :: "string \<Rightarrow> bool" where
  "no_nul s \<longleftrightarrow> NUL \<notin> set s"

lemma no_nul_simps [simp]:
  "no_nul []" "no_nul (c # s) \<longleftrightarrow> c \<noteq> NUL \<and> no_nul s"
  by (auto simp: no_nul_def)

text \<open>
  Comparing \<open>length p\<close> bytes with a string \<open>p\<close> tests whether the other buffer starts with \<open>p\<close>,
  whatever follows \<open>p\<close> in memory, when that buffer has that many bytes.
\<close>

lemma strncmp_eq_prefix:
  "no_nul p \<Longrightarrow> length p \<le> length a \<Longrightarrow>
     strncmp_eq a (p @ r) (length p) = Inr (take (length p) a = p)"
proof (induction p arbitrary: a)
  case Nil
  then show ?case by simp
next
  case (Cons c p)
  then obtain x a' where "a = x # a'" by (cases a) auto
  with Cons show ?case by auto
qed

lemma strncmp_eq_prefix_right:
  "no_nul p \<Longrightarrow> length p \<le> length a \<Longrightarrow>
     strncmp_eq (p @ r) a (length p) = Inr (take (length p) a = p)"
proof (induction p arbitrary: a)
  case Nil
  then show ?case by simp
next
  case (Cons c p)
  then obtain x a' where "a = x # a'" by (cases a) auto
  with Cons show ?case by auto
qed

text \<open>The comparison stops at the first difference, so a shorter buffer that differs is safe.\<close>

lemma strncmp_eq_differ:
  "i < length a \<Longrightarrow> i < length b \<Longrightarrow> i < n \<Longrightarrow> take i a = take i b \<Longrightarrow> NUL \<notin> set (take i a) \<Longrightarrow>
     a ! i \<noteq> b ! i \<Longrightarrow> strncmp_eq a b n = Inr False"
proof (induction i arbitrary: a b n)
  case 0
  then obtain x a' y b' m where "a = x # a'" "b = y # b'" "n = Suc m"
    by (cases a; cases b; cases n) auto
  with 0 show ?case by simp
next
  case (Suc i)
  then obtain x a' y b' m where "a = x # a'" "b = y # b'" "n = Suc m"
    by (cases a; cases b; cases n) auto
  with Suc show ?case by auto
qed

text \<open>The conversions \<open>%s\<close> and \<open>%i\<close> of \<open>printf\<close>, and what \<open>snprintf\<close> stores.\<close>

definition strlen :: "string \<Rightarrow> nat" where
  "strlen s = length (takeWhile (\<lambda>c. c \<noteq> NUL) s)"

abbreviation cstr_text :: "string \<Rightarrow> string" where
  "cstr_text s \<equiv> takeWhile (\<lambda>c. c \<noteq> NUL) s"

lemma cstr_text_cstr: "no_nul s \<Longrightarrow> cstr_text (s @ NUL # r) = s"
  by (induction s) auto

lemma strlen_cstr [simp]: "no_nul s \<Longrightarrow> strlen (s @ NUL # r) = length s"
  by (simp add: strlen_def cstr_text_cstr)

fun dec_nat :: "nat \<Rightarrow> string" where
  "dec_nat n = (if n < 10 then [char_of (48 + n)] else dec_nat (n div 10) @ [char_of (48 + n mod 10)])"

declare dec_nat.simps [simp del]

definition dec_int :: "int \<Rightarrow> string" where
  "dec_int i = (if i < 0 then CHR ''-'' # dec_nat (nat (- i)) else dec_nat (nat i))"

definition snprintf :: "nat \<Rightarrow> string \<Rightarrow> string" where
  "snprintf sz t = (if sz = 0 then [] else cstr (take (sz - 1) t))"

lemma dec_nat_length: "n < 10 ^ Suc k \<Longrightarrow> length (dec_nat n) \<le> Suc k"
proof (induction k arbitrary: n)
  case 0
  then show ?case by (subst dec_nat.simps) simp
next
  case (Suc k)
  then have "n div 10 < 10 ^ Suc k" by (simp add: less_mult_imp_div_less)
  from Suc.IH [OF this] show ?case by (subst dec_nat.simps) simp
qed

section \<open>Pointers with a length\<close>

text \<open>
  Monkey's \<open>mk_ptr_t\<close>: a pointer (\<open>None\<close> is \<open>NULL\<close>) and a length. The memory behind the pointer
  may be longer than the length.
\<close>

record mk_ptr =
  ptr_data :: "string option"
  ptr_len :: nat

definition ptr_text :: "mk_ptr \<Rightarrow> string" where
  "ptr_text p = (case ptr_data p of None \<Rightarrow> [] | Some b \<Rightarrow> take (ptr_len p) b)"

section \<open>Monkey's linked lists\<close>

text \<open>
  A \<open>struct mk_list\<close> is represented by the HOL list of its nodes in the order
  \<open>mk_list_foreach\<close> visits them. Where \<open>mk_list_add\<close> puts a new node is decided by Monkey, which
  is not part of this repository, so the routine is an argument of the definitions that call it.
  What the sources rely on is that it appends.
\<close>

type_synonym 'a mk_list_adder = "'a \<Rightarrow> 'a list \<Rightarrow> 'a list"

definition mk_list_appends :: "'a mk_list_adder \<Rightarrow> bool" where
  "mk_list_appends add \<longleftrightarrow> (\<forall>x xs. add x xs = xs @ [x])"

lemma mk_list_appendsD: "mk_list_appends add \<Longrightarrow> add x xs = xs @ [x]"
  by (simp add: mk_list_appends_def)

lemma mk_list_appends_snoc [simp]: "mk_list_appends (\<lambda>x xs. xs @ [x])"
  by (simp add: mk_list_appends_def)

section \<open>Splitting a text at a separator\<close>

text \<open>The segments of a text between the occurrences of a separator, empty ones included.\<close>

fun split_at :: "'a \<Rightarrow> 'a list \<Rightarrow> 'a list list" where
  "split_at c [] = [[]]"
| "split_at c (x # xs) =
     (if x = c then [] # split_at c xs
      else (case split_at c xs of [] \<Rightarrow> [[x]] | s # ss \<Rightarrow> (x # s) # ss))"

lemma split_at_not_Nil [simp]: "split_at c xs \<noteq> []"
  by (cases xs) (auto split: list.splits)

lemma split_at_none: "c \<notin> set s \<Longrightarrow> split_at c s = [s]"
  by (induction s) auto

lemma split_at_append_sep: "c \<notin> set s \<Longrightarrow> split_at c (s @ c # t) = s # split_at c t"
  by (induction s) auto

lemma split_at_no_sep: "s \<in> set (split_at c xs) \<Longrightarrow> c \<notin> set s"
proof (induction xs arbitrary: s)
  case Nil
  then show ?case by simp
next
  case (Cons x xs)
  then show ?case by (cases "split_at c xs") (auto split: if_splits)
qed

abbreviation nonempty :: "'a list list \<Rightarrow> 'a list list" where
  "nonempty \<equiv> filter (\<lambda>s. s \<noteq> [])"

section \<open>Lists\<close>

lemma take_Suc_nth: "n < length xs \<Longrightarrow> take (Suc n) xs = take n xs @ [xs ! n]"
  by (rule take_Suc_conv_app_nth)

lemma drop_nth_Suc: "n < length xs \<Longrightarrow> drop n xs = xs ! n # drop (Suc n) xs"
  by (simp add: Cons_nth_drop_Suc)

text \<open>The sub-text of \<open>xs\<close> from position \<open>i\<close> of length \<open>n\<close>.\<close>

abbreviation slice :: "nat \<Rightarrow> nat \<Rightarrow> 'a list \<Rightarrow> 'a list" where
  "slice i n xs \<equiv> take n (drop i xs)"

end
