(* ===== verification/Duda_Utils.thy ===== *)
theory Duda_Utils
  imports Duda_Prelude
begin

text \<open>
  \<open>lib/duda_utils.c\<close>: \<open>duda_utils_strtol\<close>, the bounded string to \<open>long\<close> conversion behind
  numeric route parameters. The accumulator is the 64-bit \<open>unsigned long\<close> of the source, and the
  result is its value read as a signed \<open>long\<close>.
\<close>

section \<open>The conversion\<close>

definition isdigit :: "char \<Rightarrow> bool" where
  "isdigit c \<longleftrightarrow> 48 \<le> (of_char c :: nat) \<and> (of_char c :: nat) \<le> 57"

definition digit :: "char \<Rightarrow> nat" where
  "digit c = of_char c - 48"

text \<open>
  The \<open>for\<close> loop: \<open>s\<close> is the offset of the pointer \<open>s\<close> from \<open>nptr\<close>, \<open>c\<close> the character read
  last. The loop reads the character after the last one it converts.
\<close>

function strtol_loop ::
    "string \<Rightarrow> int \<Rightarrow> 64 word \<Rightarrow> nat \<Rightarrow> nat \<Rightarrow> char \<Rightarrow> 64 word \<Rightarrow> int \<Rightarrow> (64 word \<times> int) run" where
  "strtol_loop nptr len cutoff cutlim s c acc any =
     (if int s \<le> len then
        if \<not> isdigit c then Inr (acc, -1)
        else if digit c \<ge> 10 then Inr (acc, -1)
        else
          (let (acc', any') =
             (if any < 0 \<or> acc > cutoff \<or> acc = cutoff \<and> digit c > cutlim then (acc, -1)
              else (acc * 10 + of_nat (digit c), 1))
           in run_bind (rd nptr s)
                (\<lambda>c'. strtol_loop nptr len cutoff cutlim (Suc s) c' acc' any'))
      else Inr (acc, any))"
  by pat_completeness auto
termination
  by (relation "measure (\<lambda>(nptr, len, cutoff, cutlim, s, c, acc, any). nat (len + 1 - int s))") auto

declare strtol_loop.simps [simp del]

definition LONG_MAX :: "64 word" where
  "LONG_MAX = 0x7FFFFFFFFFFFFFFF"

definition LONG_MIN :: "64 word" where
  "LONG_MIN = 0x8000000000000000"

text \<open>The result is the return value and the number stored through \<open>result\<close>.\<close>

definition duda_utils_strtol :: "string \<Rightarrow> int \<Rightarrow> (int \<times> int) run" where
  "duda_utils_strtol nptr len =
     run_bind (rd nptr 0) (\<lambda>c0.
     run_bind
       (if c0 = CHR ''-'' then run_bind (rd nptr 1) (\<lambda>c. Inr (True, 2, c))
        else if c0 = CHR ''+'' then run_bind (rd nptr 1) (\<lambda>c. Inr (False, 2, c))
        else Inr (False, 1, c0)) (\<lambda>(neg, s, c).
     let cutoff = (if neg then - LONG_MIN else LONG_MAX);
         cutlim = unat (cutoff mod 10)
     in run_bind (strtol_loop nptr len (cutoff div 10) cutlim s c 0 0) (\<lambda>(acc, any).
          if any < 0 then Inr (-1, 0)
          else Inr (0, sint (if neg then - acc else acc)))))"

section \<open>What it computes\<close>

text \<open>The number a list of decimal digits denotes, continued from \<open>a\<close>.\<close>

definition dec_from :: "nat \<Rightarrow> string \<Rightarrow> nat" where
  "dec_from a ds = foldl (\<lambda>a c. 10 * a + digit c) a ds"

lemma dec_from_simps [simp]:
  "dec_from a [] = a"
  "dec_from a (c # ds) = dec_from (10 * a + digit c) ds"
  by (simp_all add: dec_from_def)

lemma dec_from_ge: "a \<le> dec_from a ds"
proof (induction ds arbitrary: a)
  case Nil
  then show ?case by simp
next
  case (Cons c ds)
  have "a \<le> 10 * a + digit c" by simp
  also have "\<dots> \<le> dec_from (10 * a + digit c) ds" by (rule Cons.IH)
  finally show ?case by simp
qed

lemma digit_less: "isdigit c \<Longrightarrow> digit c < 10"
  unfolding isdigit_def digit_def by linarith

text \<open>An optional sign, decimal digits, and a value that a \<open>long\<close> can hold.\<close>

definition strtol_sign :: "string \<Rightarrow> bool \<times> string" where
  "strtol_sign t =
     (case t of [] \<Rightarrow> (False, [])
      | c # ds \<Rightarrow> if c = CHR ''-'' then (True, ds) else if c = CHR ''+'' then (False, ds) else (False, t))"

definition strtol_spec :: "string \<Rightarrow> int option" where
  "strtol_spec t =
     (let (neg, ds) = strtol_sign t;
          v = (if neg then - int (dec_from 0 ds) else int (dec_from 0 ds))
      in if list_all isdigit ds \<and> - (2 ^ 63) \<le> v \<and> v < 2 ^ 63 then Some v else None)"


text \<open>One round of the loop on a text \<open>pre @ c # cs\<close> whose first \<open>length pre\<close> characters are done.\<close>

lemma strtol_loop_step:
  assumes "cs \<noteq> []" and "length pre < n"
  shows "strtol_loop (pre @ c # cs) (int n) cutoff cutlim (Suc (length pre)) c acc any =
     (if \<not> isdigit c then Inr (acc, -1)
      else if any < 0 \<or> acc > cutoff \<or> acc = cutoff \<and> digit c > cutlim
      then strtol_loop (pre @ c # cs) (int n) cutoff cutlim (Suc (Suc (length pre))) (hd cs) acc (-1)
      else strtol_loop (pre @ c # cs) (int n) cutoff cutlim (Suc (Suc (length pre))) (hd cs)
             (acc * 10 + of_nat (digit c)) 1)"
proof -
  have rd: "rd (pre @ c # cs) (Suc (length pre)) = Inr (hd cs)"
    using assms by (cases cs) (simp_all add: rd_def nth_append)
  show ?thesis
  proof (cases "isdigit c")
    case True
    from digit_less [OF this] have "\<not> 10 \<le> digit c" by simp
    with True show ?thesis
      using assms by (subst strtol_loop.simps) (simp add: rd del: rd_ok)
  next
    case False
    then show ?thesis using assms by (subst strtol_loop.simps) simp
  qed
qed

lemma strtol_loop_done:
  "n \<le> length pre \<Longrightarrow> strtol_loop nptr (int n) cutoff cutlim (Suc (length pre)) c acc any = Inr (acc, any)"
  by (subst strtol_loop.simps) simp

text \<open>
  The overflow test of one round: the next value passes the limit exactly when the accumulator
  passes the cutoff, or equals it and the digit passes the last digit.
\<close>

lemma cutoff_test:
  assumes "cutlim < 10" and "d < 10"
  shows "acc > cutoff \<or> acc = cutoff \<and> d > cutlim \<longleftrightarrow>
           10 * unat cutoff + cutlim < 10 * unat (acc :: 64 word) + d"
  using assms by (auto simp: word_less_nat_alt unat_eq_nat_uint [symmetric] word_unat_eq_iff)

lemma unat_acc_step:
  assumes "10 * unat (acc :: 64 word) + d < 2 ^ 64"
  shows "unat (acc * 10 + of_nat d) = 10 * unat acc + d"
proof -
  have "unat (acc * 10 + of_nat d) = (10 * unat acc + d) mod 2 ^ 64"
    by (simp add: unat_word_ariths unat_of_nat mod_simps mult.commute)
  with assms show ?thesis by simp
qed

lemma strtol_loop_good:
  assumes "list_all isdigit ds" and "0 \<le> any" and "rest \<noteq> []" and "cutlim < 10"
    and "10 * unat cutoff + cutlim < 2 ^ 64"
    and "dec_from (unat acc) ds \<le> 10 * unat cutoff + cutlim" and "n = length pre + length ds"
  shows "strtol_loop (pre @ ds @ rest) (int n) cutoff cutlim (Suc (length pre)) (hd (ds @ rest)) acc any =
         Inr (of_nat (dec_from (unat acc) ds), if ds = [] then any else 1)"
  using assms(1,2,6,7)
proof (induction ds arbitrary: pre acc any)
  case Nil
  then show ?case by (simp add: strtol_loop_done)
next
  case (Cons c ds)
  have le: "10 * unat acc + digit c \<le> 10 * unat cutoff + cutlim"
    using Cons.prems(3) dec_from_ge [of "10 * unat acc + digit c" ds] by simp
  have step: "unat (acc * 10 + of_nat (digit c)) = 10 * unat acc + digit c"
    using le assms(5) by (intro unat_acc_step) linarith
  have notbig: "\<not> (acc > cutoff \<or> acc = cutoff \<and> digit c > cutlim)"
    using le cutoff_test [OF assms(4) digit_less, of c cutoff acc] Cons.prems(1) by auto
  have IH: "strtol_loop ((pre @ [c]) @ ds @ rest) (int n) cutoff cutlim
      (Suc (length (pre @ [c]))) (hd (ds @ rest)) (acc * 10 + of_nat (digit c)) 1 =
      Inr (of_nat (dec_from (unat (acc * 10 + of_nat (digit c))) ds), if ds = [] then 1 else 1)"
    using Cons.prems step by (intro Cons.IH) auto
  then show ?case
    using Cons.prems notbig assms(3) step
    by (auto simp: strtol_loop_step simp del: of_nat_add of_nat_Suc)
qed

lemma strtol_loop_bad:
  assumes "\<not> (list_all isdigit ds \<and> 0 \<le> any \<and> dec_from (unat acc) ds \<le> 10 * unat cutoff + cutlim)"
    and "0 \<le> any \<Longrightarrow> unat acc \<le> 10 * unat cutoff + cutlim"
    and "rest \<noteq> []" and "cutlim < 10" and "10 * unat cutoff + cutlim < 2 ^ 64"
    and "n = length pre + length ds"
  shows "\<exists>acc' any'. any' < 0 \<and>
     strtol_loop (pre @ ds @ rest) (int n) cutoff cutlim (Suc (length pre)) (hd (ds @ rest)) acc any =
       Inr (acc', any')"
  using assms(1,2,6)
proof (induction ds arbitrary: pre acc any)
  case Nil
  then show ?case by (auto simp: strtol_loop_done)
next
  case (Cons c ds)
  have "length pre < n" "ds @ rest \<noteq> []" using Cons.prems(3) assms(3) by auto
  note step = strtol_loop_step [OF this(2,1)]
  show ?case
  proof (cases "isdigit c")
    case False
    then show ?thesis using assms(3) by (auto simp: step)
  next
    case dig: True
    let ?big = "any < 0 \<or> acc > cutoff \<or> acc = cutoff \<and> digit c > cutlim"
    show ?thesis
    proof (cases ?big)
      case True
      have "\<exists>acc' any'. any' < 0 \<and>
          strtol_loop ((pre @ [c]) @ ds @ rest) (int n) cutoff cutlim
            (Suc (length (pre @ [c]))) (hd (ds @ rest)) acc (-1) = Inr (acc', any')"
        by (rule Cons.IH) (use Cons.prems in auto)
      with True dig assms(3) show ?thesis by (auto simp: step)
    next
      case False
      have le: "10 * unat acc + digit c \<le> 10 * unat cutoff + cutlim"
        using False cutoff_test [OF assms(4) digit_less [OF dig], of cutoff acc] by auto
      have nxt: "unat (acc * 10 + of_nat (digit c)) = 10 * unat acc + digit c"
        using le assms(5) by (intro unat_acc_step) linarith
      have "\<exists>acc' any'. any' < 0 \<and>
          strtol_loop ((pre @ [c]) @ ds @ rest) (int n) cutoff cutlim
            (Suc (length (pre @ [c]))) (hd (ds @ rest)) (acc * 10 + of_nat (digit c)) 1 = Inr (acc', any')"
        by (rule Cons.IH) (use Cons.prems False dig nxt le in auto)
      with False dig assms(3) show ?thesis by (auto simp: step)
    qed
  qed
qed

text \<open>The limit the loop enforces, and the meaning of the final conversion to \<open>long\<close>.\<close>

lemma strtol_loop_from_start:
  fixes neg :: bool
  defines "lim \<equiv> (if neg then - LONG_MIN else LONG_MAX)"
  assumes "rest \<noteq> []" and "n = length pre + length ds"
  shows "run_bind (strtol_loop (pre @ ds @ rest) (int n) (lim div 10) (unat (lim mod 10))
            (Suc (length pre)) (hd (ds @ rest)) 0 0)
          (\<lambda>(acc, any). if any < 0 then Inr (-1, 0) else Inr (0, sint (if neg then - acc else acc))) =
         Inr (let v = (if neg then - int (dec_from 0 ds) else int (dec_from 0 ds))
              in if list_all isdigit ds \<and> - (2 ^ 63) \<le> v \<and> v < 2 ^ 63 then (0, v) else (-1, 0))"
proof -
  let ?N = "dec_from 0 ds"
  have ulim: "unat lim = (if neg then 2 ^ 63 else 2 ^ 63 - 1)"
    by (simp add: lim_def LONG_MIN_def LONG_MAX_def)
  have lim: "10 * unat (lim div 10) + unat (lim mod 10) = unat lim"
    by (simp add: unat_div unat_mod)
  have small: "unat (lim mod 10) < 10" "10 * unat (lim div 10) + unat (lim mod 10) < 2 ^ 64"
    using unsigned_less [of lim] by (simp_all add: lim) (simp add: unat_mod)
  show ?thesis
  proof (cases "list_all isdigit ds \<and> ?N \<le> unat lim")
    case True
    then have loop: "strtol_loop (pre @ ds @ rest) (int n) (lim div 10) (unat (lim mod 10))
        (Suc (length pre)) (hd (ds @ rest)) 0 0 = Inr (of_nat ?N, if ds = [] then 0 else 1)"
      using strtol_loop_good [of ds 0 rest "unat (lim mod 10)" "lim div 10" 0 n pre] assms small lim
      by simp
    have "sint (if neg then - (of_nat ?N :: 64 word) else of_nat ?N) = (if neg then - int ?N else int ?N)"
    proof (cases neg)
      case True
      with \<open>list_all isdigit ds \<and> ?N \<le> unat lim\<close> ulim have "?N \<le> 2 ^ 63" by simp
      then have "sint (of_int (- int ?N) :: 64 word) = - int ?N"
        by (subst signed_of_int) (simp add: signed_take_bit_int_eq_self)
      with True show ?thesis by simp
    next
      case False
      with \<open>list_all isdigit ds \<and> ?N \<le> unat lim\<close> ulim have "?N < 2 ^ 63" by simp
      then have "sint (of_int (int ?N) :: 64 word) = int ?N"
        by (subst signed_of_int) (simp add: signed_take_bit_int_eq_self)
      with False show ?thesis by simp
    qed
    with True ulim loop show ?thesis by (auto simp: Let_def split: if_splits)
  next
    case False
    then obtain acc' any' where "any' < 0" "strtol_loop (pre @ ds @ rest) (int n) (lim div 10)
        (unat (lim mod 10)) (Suc (length pre)) (hd (ds @ rest)) 0 0 = Inr (acc', any')"
      using strtol_loop_bad [of ds 0 0 "lim div 10" "unat (lim mod 10)" rest n pre] assms small lim
      by auto
    with False ulim show ?thesis by (auto simp: Let_def split: if_splits)
  qed
qed

lemma strtol_run_spec:
  assumes "t \<noteq> []" and "rest \<noteq> []"
  shows "duda_utils_strtol (t @ rest) (int (length t)) =
           Inr (case strtol_spec t of Some v \<Rightarrow> (0, v) | None \<Rightarrow> (-1, 0))"
proof -
  let ?fin = "\<lambda>neg (acc, any). if any < 0 then Inr (-1, 0) else Inr (0, sint (if neg then - acc else acc))"
  let ?lim = "\<lambda>neg. if neg then - LONG_MIN else LONG_MAX"
  from assms obtain c cs where t: "t = c # cs" by (cases t) auto
  obtain neg pre ds where sign: "strtol_sign t = (neg, ds)" "t = pre @ ds"
    and start: "duda_utils_strtol (t @ rest) (int (length t)) =
      run_bind (strtol_loop (pre @ ds @ rest) (int (length t)) (?lim neg div 10) (unat (?lim neg mod 10))
        (Suc (length pre)) (hd (ds @ rest)) 0 0) (?fin neg)"
  proof (cases "c = CHR ''-'' \<or> c = CHR ''+''")
    case True
    have "rd (t @ rest) 1 = Inr (hd (cs @ rest))"
      using assms t by (cases cs; cases rest) (auto simp: rd_def)
    with True t that [of True cs "[c]"] that [of False cs "[c]"] show ?thesis
      by (auto simp: duda_utils_strtol_def strtol_sign_def numeral_2_eq_2 Let_def)
  next
    case False
    with t that [of False t "[]"] show ?thesis
      by (auto simp: duda_utils_strtol_def strtol_sign_def)
  qed
  have len: "length t = length pre + length ds" using sign(2) by simp
  note start
  also note strtol_loop_from_start [OF assms(2) len, of neg]
  finally show ?thesis
    by (simp add: strtol_spec_def sign(1) Let_def)
qed



end
