(* ===== verification/Duda_Gc.thy ===== *)
theory Duda_Gc
  imports Duda_Prelude "HOL-Library.Multiset"
begin

text \<open>
  \<open>lib/objects/duda_gc.c\<close>: the per-request registry of memory blocks that are freed when the
  request ends. A pointer is a number, \<open>0\<close> is \<open>NULL\<close>. The allocator belongs to Monkey: what
  \<open>mem_realloc\<close> returns, the contents of the grown part included, is an argument.
\<close>

section \<open>State\<close>

record duda_gc_entry =
  gc_status :: int
  gc_p :: nat

record duda_gc_map =
  gc_used :: int
  gc_size :: int
  gc_cells :: "duda_gc_entry list option"

definition DUDA_GC_ENTRIES :: int where
  "DUDA_GC_ENTRIES = 64"

definition DUDA_GC_CHUNK :: int where
  "DUDA_GC_CHUNK = 16"

text \<open>\<open>sizeof(struct duda_gc_entry)\<close> on a 64-bit target: an \<open>int\<close>, padding and a pointer.\<close>

definition sizeof_gc_entry :: int where
  "sizeof_gc_entry = 16"

text \<open>
  \<open>mem_realloc(p, bytes)\<close>: \<open>None\<close> when no memory is left, otherwise the entries that fit in the
  new block.
\<close>

type_synonym gc_realloc = "duda_gc_entry list \<Rightarrow> int \<Rightarrow> duda_gc_entry list option"

section \<open>Operations\<close>

text \<open>\<open>ok\<close> says whether \<open>mem_alloc_z\<close> returns memory, which is then zeroed.\<close>

definition duda_gc_init :: "bool \<Rightarrow> int \<times> duda_gc_map" where
  "duda_gc_init ok =
     (let gc = \<lparr>gc_used = 0, gc_size = DUDA_GC_ENTRIES,
        gc_cells = (if ok then Some (replicate (nat DUDA_GC_ENTRIES) \<lparr>gc_status = 0, gc_p = 0\<rparr>)
                    else None)\<rparr>
      in (if ok then 0 else -1, gc))"

text \<open>The loop that looks for a free cell from index \<open>i\<close> on: its index, or \<open>None\<close>.\<close>

function gc_free_cell :: "duda_gc_entry list \<Rightarrow> int \<Rightarrow> nat \<Rightarrow> nat option run" where
  "gc_free_cell cells n i =
     (if int i < n then
        run_bind (rd cells i) (\<lambda>e. if gc_status e = 0 then Inr (Some i) else gc_free_cell cells n (Suc i))
      else Inr None)"
  by pat_completeness auto
termination
  by (relation "measure (\<lambda>(cells, n, i). nat (n - int i))") auto

declare gc_free_cell.simps [simp del]

definition duda_gc_add :: "gc_realloc \<Rightarrow> duda_gc_map \<Rightarrow> nat \<Rightarrow> (int \<times> duda_gc_map) run" where
  "duda_gc_add realloc gc p =
     (case gc_cells gc of None \<Rightarrow> Inl NullDeref | Some cells \<Rightarrow>
        (let grown =
           (if gc_used gc \<ge> gc_size gc then
              (let new_size = gc_size gc * DUDA_GC_ENTRIES + sizeof_gc_entry * DUDA_GC_CHUNK
               in map_option (\<lambda>tmp. gc\<lparr>gc_cells := Some tmp, gc_size := gc_size gc + DUDA_GC_CHUNK\<rparr>)
                    (realloc cells new_size))
            else Some gc)
         in case grown of None \<Rightarrow> Inr (-1, gc) | Some gc1 \<Rightarrow>
           (let cells1 = the (gc_cells gc1)
            in run_bind (gc_free_cell cells1 (gc_size gc1) 0) (\<lambda>found.
                 case found of None \<Rightarrow> Inr (-1, gc1)
                 | Some i \<Rightarrow> Inr (0, gc1\<lparr>gc_cells := Some (cells1[i := \<lparr>gc_status = 1, gc_p = p\<rparr>]),
                                          gc_used := gc_used gc1 + 1\<rparr>)))))"

text \<open>\<open>p\<close> is what \<open>mem_alloc\<close> returned; the result of the registration is not looked at.\<close>

definition duda_gc_alloc :: "gc_realloc \<Rightarrow> duda_gc_map \<Rightarrow> nat \<Rightarrow> (nat \<times> duda_gc_map) run" where
  "duda_gc_alloc realloc gc p =
     (if p = 0 then Inr (0, gc)
      else run_bind (duda_gc_add realloc gc p) (\<lambda>(_, gc'). Inr (p, gc')))"

text \<open>
  The release loop from index \<open>i\<close> on; its result is the counter \<open>used\<close>, the cells and the
  pointers passed to \<open>mem_free\<close>, in order.
\<close>

function gc_free_loop ::
    "int \<Rightarrow> nat \<Rightarrow> int \<Rightarrow> duda_gc_entry list \<Rightarrow> nat list \<Rightarrow> (int \<times> duda_gc_entry list \<times> nat list) run" where
  "gc_free_loop n i used cells freed =
     (if int i < n \<and> used > 0 then
        run_bind (rd cells i) (\<lambda>e.
          if gc_status e = 1
          then gc_free_loop n (Suc i) (used - 1) (cells[i := \<lparr>gc_status = 0, gc_p = 0\<rparr>]) (freed @ [gc_p e])
          else gc_free_loop n (Suc i) used cells freed)
      else Inr (used, cells, freed))"
  by pat_completeness auto
termination
  by (relation "measure (\<lambda>(n, i, used, cells, freed). nat (n - int i))") auto

declare gc_free_loop.simps [simp del]

text \<open>The number of released blocks (the return value), the new state and the freed pointers.\<close>

definition duda_gc_free_content :: "duda_gc_map \<Rightarrow> (int \<times> duda_gc_map \<times> nat list) run" where
  "duda_gc_free_content gc =
     (case gc_cells gc of
        None \<Rightarrow> if gc_size gc > 0 \<and> gc_used gc > 0 then Inl NullDeref else Inr (0, gc, [])
      | Some cells \<Rightarrow>
          run_bind (gc_free_loop (gc_size gc) 0 (gc_used gc) cells []) (\<lambda>(used, cells', freed).
            Inr (int (length freed), gc\<lparr>gc_used := used, gc_cells := Some cells'\<rparr>, freed)))"

text \<open>\<open>duda_gc_free\<close> releases the array itself: the pointer dangles, so no cell is readable.\<close>

definition duda_gc_free :: "duda_gc_map \<Rightarrow> int \<times> duda_gc_map" where
  "duda_gc_free gc = (0, gc\<lparr>gc_cells := map_option (\<lambda>_. []) (gc_cells gc)\<rparr>)"

section \<open>Invariant\<close>

text \<open>
  The registered cells among the first \<open>size\<close> ones; every one of those is free or used, and
  \<open>used\<close> counts the used ones.
\<close>

definition gc_live_of :: "duda_gc_entry list \<Rightarrow> nat multiset" where
  "gc_live_of cells = mset (map gc_p (filter (\<lambda>e. gc_status e = 1) cells))"

definition gc_live :: "duda_gc_map \<Rightarrow> nat multiset" where
  "gc_live gc = (case gc_cells gc of None \<Rightarrow> {#} | Some cells \<Rightarrow> gc_live_of (take (nat (gc_size gc)) cells))"

definition gc_wf :: "duda_gc_map \<Rightarrow> bool" where
  "gc_wf gc \<longleftrightarrow>
     (case gc_cells gc of None \<Rightarrow> False
      | Some cells \<Rightarrow>
          0 \<le> gc_size gc \<and> nat (gc_size gc) \<le> length cells \<and>
          int (length cells) \<le> 4 * gc_size gc + 16 \<and>
          list_all (\<lambda>e. gc_status e = 0 \<or> gc_status e = 1) (take (nat (gc_size gc)) cells) \<and>
          list_all (\<lambda>e. gc_status e = 0) (drop (nat (gc_size gc)) cells) \<and>
          gc_used gc = int (size (gc_live_of (take (nat (gc_size gc)) cells))))"

text \<open>What the registry needs of \<open>mem_realloc\<close>: it keeps the old cells, and the new ones are zero.\<close>

definition realloc_keeps :: "gc_realloc \<Rightarrow> bool" where
  "realloc_keeps r \<longleftrightarrow>
     (\<forall>cells bytes tmp. r cells bytes = Some tmp \<longrightarrow>
        length tmp = nat (bytes div sizeof_gc_entry) \<and>
        take (min (length cells) (length tmp)) tmp = take (length tmp) cells)"

definition realloc_zeroes :: "gc_realloc \<Rightarrow> bool" where
  "realloc_zeroes r \<longleftrightarrow>
     (\<forall>cells bytes tmp. r cells bytes = Some tmp \<longrightarrow>
        list_all (\<lambda>e. gc_status e = 0) (drop (length cells) tmp))"

section \<open>Searching and releasing\<close>

lemma gc_free_cell_step:
  "n \<le> length cells \<Longrightarrow> gc_free_cell cells (int n) i =
     (if i < n then if gc_status (cells ! i) = 0 then Inr (Some i) else gc_free_cell cells (int n) (Suc i)
      else Inr None)"
  by (subst gc_free_cell.simps) simp

lemma gc_free_cell_sound:
  assumes "n \<le> length cells"
  shows "(gc_free_cell cells (int n) i = Inr None \<and> (\<forall>j. i \<le> j \<and> j < n \<longrightarrow> gc_status (cells ! j) \<noteq> 0)) \<or>
    (\<exists>j. gc_free_cell cells (int n) i = Inr (Some j) \<and> i \<le> j \<and> j < n \<and> gc_status (cells ! j) = 0)"
proof (induction "n - i" arbitrary: i)
  case 0
  then show ?case using assms by (auto simp: gc_free_cell_step)
next
  case (Suc k)
  then have "i < n" "k = n - Suc i" by auto
  show ?case
  proof (cases "gc_status (cells ! i) = 0")
    case True
    then show ?thesis using \<open>i < n\<close> assms by (auto simp: gc_free_cell_step)
  next
    case False
    have eq: "gc_free_cell cells (int n) i = gc_free_cell cells (int n) (Suc i)"
      using \<open>i < n\<close> False assms by (simp add: gc_free_cell_step)
    have "\<forall>j. Suc i \<le> j \<and> j < n \<longrightarrow> gc_status (cells ! j) \<noteq> 0 \<Longrightarrow>
        \<forall>j. i \<le> j \<and> j < n \<longrightarrow> gc_status (cells ! j) \<noteq> 0"
      using False by (metis Suc_leI le_neq_implies_less)
    with Suc(1) [OF \<open>k = n - Suc i\<close>] show ?thesis
      unfolding eq by (metis Suc_leD)
  qed
qed

lemma gc_live_of_simps [simp]:
  "gc_live_of [] = {#}"
  "gc_live_of (xs @ ys) = gc_live_of xs + gc_live_of ys"
  "gc_live_of (e # xs) = (if gc_status e = 1 then add_mset (gc_p e) (gc_live_of xs) else gc_live_of xs)"
  by (simp_all add: gc_live_of_def)

lemma gc_live_of_free: "list_all (\<lambda>e. gc_status e = 0) cells \<Longrightarrow> gc_live_of cells = {#}"
  by (induction cells) auto

lemma gc_live_of_update:
  assumes "i < length cells" and "gc_status (cells ! i) = 0" and "gc_status e = 1"
  shows "gc_live_of (cells[i := e]) = add_mset (gc_p e) (gc_live_of cells)"
  using assms
proof (induction cells arbitrary: i)
  case (Cons c cells)
  then show ?case by (cases i) auto
qed simp

text \<open>What the release loop leaves of a cell.\<close>

definition gc_clear :: "duda_gc_entry \<Rightarrow> duda_gc_entry" where
  "gc_clear e = (if gc_status e = 1 then \<lparr>gc_status = 0, gc_p = 0\<rparr> else e)"

lemma gc_free_loop_ok:
  assumes "used = int (size (gc_live_of mid))" and "int (length pre + length mid) \<le> n"
  shows "gc_free_loop n (length pre) used (pre @ mid @ post) freed =
    Inr (0, pre @ map gc_clear mid @ post, freed @ map gc_p (filter (\<lambda>e. gc_status e = 1) mid))"
  using assms
proof (induction mid arbitrary: pre used freed)
  case Nil
  then show ?case by (subst gc_free_loop.simps) simp
next
  case (Cons e mid)
  show ?case
  proof (cases "gc_status e = 1")
    case True
    have "gc_free_loop n (length pre) used (pre @ (e # mid) @ post) freed =
      gc_free_loop n (length (pre @ [gc_clear e])) (used - 1)
        ((pre @ [gc_clear e]) @ mid @ post) (freed @ [gc_p e])"
      using True Cons.prems by (subst gc_free_loop.simps) (simp add: rd_ok gc_clear_def list_update_append)
    with Cons.IH [of "used - 1" "pre @ [gc_clear e]"] Cons.prems True show ?thesis by simp
  next
    case unused: False
    show ?thesis
    proof (cases "used > 0")
      case True
      then have "gc_free_loop n (length pre) used (pre @ (e # mid) @ post) freed =
        gc_free_loop n (length (pre @ [e])) used ((pre @ [e]) @ mid @ post) freed"
        using unused Cons.prems(2) by (subst gc_free_loop.simps) (simp add: rd_ok)
      with Cons.IH [of used "pre @ [e]"] Cons.prems unused show ?thesis by (simp add: gc_clear_def)
    next
      case False
      with Cons.prems have none: "filter (\<lambda>e. gc_status e = 1) (e # mid) = []"
        by (auto simp: gc_live_of_def filter_empty_conv split: if_splits)
      then have "map gc_clear (e # mid) = e # mid"
        by (intro map_idI) (auto simp: gc_clear_def filter_empty_conv split: if_splits)
      with False Cons.prems none show ?thesis by (subst gc_free_loop.simps) simp
    qed
  qed
qed

section \<open>Every operation keeps the invariant\<close>

lemma gc_wf_cells:
  assumes "gc_wf gc"
  obtains cells n where "gc_cells gc = Some cells" and "gc_size gc = int n" and "n \<le> length cells"
    and "length cells \<le> 4 * n + 16"
    and "list_all (\<lambda>e. gc_status e = 0 \<or> gc_status e = 1) (take n cells)"
    and "list_all (\<lambda>e. gc_status e = 0) (drop n cells)"
    and "gc_used gc = int (size (gc_live_of (take n cells)))"
    and "gc_live gc = gc_live_of (take n cells)"
proof -
  from assms obtain cells where c: "gc_cells gc = Some cells" by (auto simp: gc_wf_def split: option.splits)
  from assms c have "0 \<le> gc_size gc" by (simp add: gc_wf_def)
  then obtain n where "gc_size gc = int n" using nonneg_int_cases by blast
  with c assms show thesis by (intro that [of cells n]) (auto simp: gc_wf_def gc_live_def)
qed

lemma gc_live_of_all_used:
  "list_all (\<lambda>e. gc_status e \<noteq> 0) xs \<Longrightarrow> list_all (\<lambda>e. gc_status e = 0 \<or> gc_status e = 1) xs \<Longrightarrow>
   size (gc_live_of xs) = length xs"
  by (induction xs) auto

lemma gc_live_of_le: "size (gc_live_of xs) \<le> length xs"
  by (induction xs) auto

text \<open>Registering in a map that has a free cell.\<close>

lemma gc_register:
  assumes n: "n \<le> length cells" "length cells \<le> 4 * n + 16"
    and cells: "list_all (\<lambda>e. gc_status e = 0 \<or> gc_status e = 1) (take n cells)"
      "list_all (\<lambda>e. gc_status e = 0) (drop n cells)"
    and used: "size (gc_live_of (take n cells)) < n"
  shows "\<exists>i. gc_free_cell cells (int n) 0 = Inr (Some i) \<and>
    gc_wf \<lparr>gc_used = int (size (gc_live_of (take n cells))) + 1, gc_size = int n,
           gc_cells = Some (cells[i := \<lparr>gc_status = 1, gc_p = p\<rparr>])\<rparr> \<and>
    gc_live_of (take n (cells[i := \<lparr>gc_status = 1, gc_p = p\<rparr>])) = add_mset p (gc_live_of (take n cells))"
proof -
  have "\<not> (\<forall>j. 0 \<le> j \<and> j < n \<longrightarrow> gc_status (cells ! j) \<noteq> 0)"
    using gc_live_of_all_used [of "take n cells"] cells(1) used n(1) by (auto simp: list_all_length)
  with gc_free_cell_sound [OF n(1), of 0] obtain i
    where i: "gc_free_cell cells (int n) 0 = Inr (Some i)" "i < n" "gc_status (cells ! i) = 0" by auto
  let ?e = "\<lparr>gc_status = 1, gc_p = p\<rparr>"
  have live: "gc_live_of (take n (cells[i := ?e])) = add_mset p (gc_live_of (take n cells))"
    using gc_live_of_update [of i "take n cells" ?e] i n by (simp add: take_update_swap)
  have "list_all (\<lambda>e. gc_status e = 0 \<or> gc_status e = 1) ((take n cells)[i := ?e])"
    using cells(1) i(2) n(1) by (auto simp: list_all_length nth_list_update)
  with live i n cells(2) show ?thesis
    by (intro exI [of _ i]) (simp add: gc_wf_def take_update_swap drop_update_cancel)
qed

lemma duda_gc_add_room:
  assumes "gc_wf gc" and "gc_used gc < gc_size gc"
  shows "\<exists>gc'. duda_gc_add r gc p = Inr (0, gc') \<and> gc_wf gc' \<and> gc_live gc' = add_mset p (gc_live gc) \<and>
    gc_size gc' = gc_size gc \<and> gc_used gc' = gc_used gc + 1"
proof -
  from assms(1) obtain cells n where gc: "gc_cells gc = Some cells" "gc_size gc = int n" "n \<le> length cells"
    "length cells \<le> 4 * n + 16" "list_all (\<lambda>e. gc_status e = 0 \<or> gc_status e = 1) (take n cells)"
    "list_all (\<lambda>e. gc_status e = 0) (drop n cells)" "gc_used gc = int (size (gc_live_of (take n cells)))"
    "gc_live gc = gc_live_of (take n cells)" by (rule gc_wf_cells)
  from gc_register [OF gc(3-6), of p] assms(2) gc(2,7) obtain i
    where "gc_free_cell cells (int n) 0 = Inr (Some i)"
      "gc_wf (gc\<lparr>gc_cells := Some (cells[i := \<lparr>gc_status = 1, gc_p = p\<rparr>]), gc_used := gc_used gc + 1\<rparr>)"
      "gc_live_of (take n (cells[i := \<lparr>gc_status = 1, gc_p = p\<rparr>])) = add_mset p (gc_live_of (take n cells))"
    by (cases gc) auto
  with gc assms(2) show ?thesis by (auto simp: duda_gc_add_def gc_live_def)
qed

lemma duda_gc_add_grow:
  assumes "gc_wf gc" and "gc_used gc \<ge> gc_size gc" and r: "realloc_keeps r" "realloc_zeroes r"
  shows "\<exists>ret gc'. duda_gc_add r gc p = Inr (ret, gc') \<and> gc_wf gc' \<and>
    (ret = 0 \<and> gc_live gc' = add_mset p (gc_live gc) \<or> ret = -1 \<and> gc' = gc)"
proof -
  from assms(1) obtain cells n where gc: "gc_cells gc = Some cells" "gc_size gc = int n" "n \<le> length cells"
    "length cells \<le> 4 * n + 16" "list_all (\<lambda>e. gc_status e = 0 \<or> gc_status e = 1) (take n cells)"
    "list_all (\<lambda>e. gc_status e = 0) (drop n cells)" "gc_used gc = int (size (gc_live_of (take n cells)))"
    "gc_live gc = gc_live_of (take n cells)" by (rule gc_wf_cells)
  show ?thesis
  proof (cases "r cells (int n * 64 + 256)")
    case None
    then show ?thesis using assms(1,2) gc
      by (simp add: duda_gc_add_def DUDA_GC_ENTRIES_def DUDA_GC_CHUNK_def sizeof_gc_entry_def)
  next
    case (Some tmp)
    from r(1) Some have "length tmp = nat ((int n * 64 + 256) div 16)"
      and kept: "take (min (length cells) (length tmp)) tmp = take (length tmp) cells"
      unfolding realloc_keeps_def sizeof_gc_entry_def by blast+
    then have len: "length tmp = 4 * n + 16" by auto
    with kept gc(4) have old: "take (length cells) tmp = cells" by simp
    from old have tmp: "tmp = cells @ drop (length cells) tmp" by (metis append_take_drop_id)
    have zero: "list_all (\<lambda>e. gc_status e = 0) (drop (length cells) tmp)"
      using r(2) Some by (auto simp: realloc_zeroes_def)
    have dropn: "list_all (\<lambda>e. gc_status e = 0) (drop n tmp)"
      using gc(3,6) zero by (subst tmp) simp
    have taken: "take (n + 16) tmp = take n cells @ take 16 (drop n tmp)"
    proof -
      have "take n tmp = take n cells" using gc(3) by (subst tmp) simp
      then show ?thesis by (simp add: take_add)
    qed
    have free16: "list_all (\<lambda>e. gc_status e = 0) (take 16 (drop n tmp))"
      using dropn by (auto simp: list_all_iff dest: in_set_takeD)
    have live: "gc_live_of (take (n + 16) tmp) = gc_live_of (take n cells)"
      by (simp add: taken gc_live_of_free [OF free16])
    have "size (gc_live_of (take n cells)) \<le> n" using gc_live_of_le [of "take n cells"] by simp
    then have room: "size (gc_live_of (take (n + 16) tmp)) < n + 16" by (simp add: live)
    have w: "list_all (\<lambda>e. gc_status e = 0 \<or> gc_status e = 1) (take (n + 16) tmp)"
      using gc(5) free16 by (auto simp: taken list_all_iff)
    have z: "list_all (\<lambda>e. gc_status e = 0) (drop (n + 16) tmp)"
    proof -
      have "drop (n + 16) tmp = drop 16 (drop n tmp)" by (simp add: add.commute)
      with dropn show ?thesis by (auto simp: list_all_iff simp del: drop_drop dest: in_set_dropD)
    qed
    have "n + 16 \<le> length tmp" "length tmp \<le> 4 * (n + 16) + 16" using len by simp_all
    from gc_register [OF this w z room, of p] obtain i where i: "gc_free_cell tmp (int (n + 16)) 0 = Inr (Some i)"
      "gc_wf \<lparr>gc_used = int (size (gc_live_of (take n cells))) + 1, gc_size = int (n + 16),
           gc_cells = Some (tmp[i := \<lparr>gc_status = 1, gc_p = p\<rparr>])\<rparr>"
      "gc_live_of (take (n + 16) (tmp[i := \<lparr>gc_status = 1, gc_p = p\<rparr>])) = add_mset p (gc_live_of (take n cells))"
      unfolding live by blast
    have "nat (int n + 16) = n + 16" by simp
    with i gc Some assms(2) show ?thesis
      by (cases gc) (simp add: duda_gc_add_def DUDA_GC_ENTRIES_def DUDA_GC_CHUNK_def sizeof_gc_entry_def gc_live_def)
  qed
qed

lemma duda_gc_free_content_ok:
  assumes "gc_wf gc"
  shows "\<exists>gc' fs. duda_gc_free_content gc = Inr (gc_used gc, gc', fs) \<and> mset fs = gc_live gc \<and>
    gc_used gc' = 0 \<and> gc_wf gc' \<and> gc_live gc' = {#}"
proof -
  from assms obtain cells n where gc: "gc_cells gc = Some cells" "gc_size gc = int n" "n \<le> length cells"
    "length cells \<le> 4 * n + 16" "list_all (\<lambda>e. gc_status e = 0 \<or> gc_status e = 1) (take n cells)"
    "list_all (\<lambda>e. gc_status e = 0) (drop n cells)" "gc_used gc = int (size (gc_live_of (take n cells)))"
    "gc_live gc = gc_live_of (take n cells)" by (rule gc_wf_cells)
  have "gc_free_loop (int n) 0 (gc_used gc) cells [] =
    Inr (0, map gc_clear (take n cells) @ drop n cells, map gc_p (filter (\<lambda>e. gc_status e = 1) (take n cells)))"
    using gc_free_loop_ok [OF gc(7), of "[]" "int n" "drop n cells" "[]"] gc(3) by (simp add: min_absorb2)
  moreover have clear: "list_all (\<lambda>e. gc_status e = 0) (map gc_clear (take n cells))"
    using gc(5) by (auto simp: list_all_iff gc_clear_def)
  moreover have "size (gc_live_of (take n cells)) = length (filter (\<lambda>e. gc_status e = 1) (take n cells))"
    by (simp add: gc_live_of_def del: mset_filter flip: size_mset)
  ultimately show ?thesis
    using gc by (simp add: duda_gc_free_content_def gc_live_def gc_wf_def gc_live_of_free)
      (auto simp: gc_live_of_def list_all_iff)
qed

section \<open>Properties\<close>

text \<open>The registrations of one request, in order; the result is the list of return values.\<close>

primrec gc_add_all :: "gc_realloc \<Rightarrow> duda_gc_map \<Rightarrow> nat list \<Rightarrow> (int list \<times> duda_gc_map) run" where
  "gc_add_all r gc [] = Inr ([], gc)"
| "gc_add_all r gc (p # ps) =
     run_bind (duda_gc_add r gc p) (\<lambda>(ret, gc'). run_bind (gc_add_all r gc' ps) (\<lambda>(rets, gc''). Inr (ret # rets, gc'')))"

lemma gc_wf_init: "gc_wf (snd (duda_gc_init True))" "gc_live (snd (duda_gc_init True)) = {#}"
  "gc_used (snd (duda_gc_init True)) = 0" "gc_size (snd (duda_gc_init True)) = 64"
  by (simp_all add: duda_gc_init_def gc_wf_def gc_live_def gc_live_of_def DUDA_GC_ENTRIES_def list_all_iff)

lemma gc_add_all_room:
  assumes "gc_wf gc" and "gc_used gc + int (length ps) \<le> gc_size gc"
  shows "\<exists>gc'. gc_add_all r gc ps = Inr (replicate (length ps) 0, gc') \<and> gc_wf gc' \<and>
    gc_live gc' = gc_live gc + mset ps \<and> gc_used gc' = gc_used gc + int (length ps)"
  using assms
proof (induction ps arbitrary: gc)
  case (Cons p ps)
  from duda_gc_add_room [OF Cons.prems(1), of r p] Cons.prems(2) obtain gc1 where
    1: "duda_gc_add r gc p = Inr (0, gc1)" "gc_wf gc1" "gc_live gc1 = add_mset p (gc_live gc)"
      "gc_size gc1 = gc_size gc" "gc_used gc1 = gc_used gc + 1" by auto
  from Cons.IH [OF 1(2)] Cons.prems(2) 1 show ?case by auto
qed simp

text \<open>
  C30. A request that registers at most 64 blocks (the initial size of the map): every registration
  succeeds, whatever the allocator would do, and releasing the content frees every registered
  block exactly as often as it was registered, frees nothing else, returns their number and leaves
  the map empty and well-formed.
\<close>

theorem duda_gc_frees_registered:
  assumes "length ps \<le> 64"
  shows "\<exists>gc gc' fs. gc_add_all r (snd (duda_gc_init True)) ps = Inr (replicate (length ps) 0, gc) \<and>
    duda_gc_free_content gc = Inr (int (length ps), gc', fs) \<and> mset fs = mset ps \<and>
    gc_wf gc' \<and> gc_used gc' = 0 \<and> gc_live gc' = {#}"
proof -
  from gc_add_all_room [of "snd (duda_gc_init True)" ps r] assms gc_wf_init obtain gc where
    gc: "gc_add_all r (snd (duda_gc_init True)) ps = Inr (replicate (length ps) 0, gc)" "gc_wf gc"
      "gc_live gc = mset ps" "gc_used gc = int (length ps)" by auto
  with duda_gc_free_content_ok [OF gc(2)] show ?thesis by auto
qed

theorem duda_gc_frees_registered_witness:
  "\<exists>gc gc' fs. gc_add_all (\<lambda>_ _. None) (snd (duda_gc_init True)) [7, 9, 7] = Inr ([0, 0, 0], gc) \<and>
    duda_gc_free_content gc = Inr (3, gc', fs) \<and> mset fs = {#7, 9, 7#} \<and>
    gc_wf gc' \<and> gc_used gc' = 0 \<and> gc_live gc' = {#}"
  using duda_gc_frees_registered [of "[7, 9, 7]" "\<lambda>_ _. None"] by (simp add: numeral_3_eq_3 del: gc_add_all.simps)

text \<open>A run that fills the map with one pointer, to reach the growth step.\<close>

lemma gc_free_cell_first:
  "list_all (\<lambda>e. gc_status e \<noteq> 0) pre \<Longrightarrow> gc_status e = 0 \<Longrightarrow> int (length (pre0 @ pre)) < n \<Longrightarrow>
   gc_free_cell (pre0 @ pre @ e # post) n (length pre0) = Inr (Some (length (pre0 @ pre)))"
proof (induction pre arbitrary: pre0)
  case Nil
  then show ?case by (subst gc_free_cell.simps) (simp add: rd_ok)
next
  case (Cons c pre)
  have "gc_free_cell (pre0 @ (c # pre) @ e # post) n (length pre0) =
      gc_free_cell ((pre0 @ [c]) @ pre @ e # post) n (length (pre0 @ [c]))"
    using Cons.prems by (subst gc_free_cell.simps) (simp add: rd_ok)
  with Cons.IH [of "pre0 @ [c]"] Cons.prems show ?case by simp
qed

definition gc_filled :: "nat \<Rightarrow> nat \<Rightarrow> duda_gc_map" where
  "gc_filled p k = \<lparr>gc_used = int k, gc_size = 64,
     gc_cells = Some (replicate k \<lparr>gc_status = 1, gc_p = p\<rparr> @ replicate (64 - k) \<lparr>gc_status = 0, gc_p = 0\<rparr>)\<rparr>"

lemma gc_add_filled: "k < 64 \<Longrightarrow> duda_gc_add r (gc_filled p k) p = Inr (0, gc_filled p (Suc k))"
proof -
  assume k: "k < 64"
  let ?u = "\<lparr>gc_status = 1, gc_p = p\<rparr>" and ?z = "\<lparr>gc_status = 0, gc_p = 0\<rparr>"
  have 64: "64 - k = Suc (63 - k)" using k by simp
  have "gc_free_cell (replicate k ?u @ ?z # replicate (63 - k) ?z) 64 0 = Inr (Some k)"
    using gc_free_cell_first [of "replicate k ?u" ?z "[]" 64 "replicate (63 - k) ?z"] k by (simp add: list_all_iff)
  then show ?thesis
    using k by (simp add: duda_gc_add_def gc_filled_def 64 list_update_append
        replicate_app_Cons_same)
qed

lemma gc_add_all_filled:
  "k + m \<le> 64 \<Longrightarrow> gc_add_all r (gc_filled p k) (replicate m p @ ps) =
   run_bind (gc_add_all r (gc_filled p (k + m)) ps) (\<lambda>(rets, gc). Inr (replicate m 0 @ rets, gc))"
proof (induction m arbitrary: k)
  case (Suc m)
  then show ?case by (cases "gc_add_all r (gc_filled p (Suc (k + m))) ps") (auto simp: gc_add_filled)
next
  case 0
  then show ?case by (cases "gc_add_all r (gc_filled p k) ps") auto
qed

lemma realloc_keeps_take:
  assumes "\<And>m. m \<le> length (g m)"
  shows "realloc_keeps (\<lambda>cells bytes. Some (take (nat (bytes div sizeof_gc_entry)) (cells @ g (nat (bytes div sizeof_gc_entry)))))"
proof -
  have "length (take m (cells @ g m)) = m \<and>
      take (min (length cells) m) (take m (cells @ g m)) = take m cells" for m and cells :: "duda_gc_entry list"
    using assms [of m] by (cases "length cells \<le> m") simp_all
  then show ?thesis unfolding realloc_keeps_def by (metis option.inject)
qed

text \<open>
  Growing does not clear the new cells. With a reallocation that keeps the old contents, as
  \<open>realloc\<close> does, but leaves a stale \<open>status\<close> of 1 in the first new cell, the 65th registration
  succeeds in the cell after it, and releasing the content frees the stale pointer of that cell,
  which nobody registered, and never the 65th block.
\<close>

theorem duda_gc_grown_cells_not_cleared:
  "\<exists>r gc gc' fs. realloc_keeps r \<and>
    gc_add_all r (snd (duda_gc_init True)) (replicate 64 5 @ [7]) = Inr (replicate 65 0, gc) \<and>
    duda_gc_free_content gc = Inr (65, gc', fs) \<and> 9 \<in> set fs \<and> 7 \<notin> set fs"
proof -
  let ?s = "\<lparr>gc_status = 1, gc_p = 9\<rparr>" and ?z = "\<lparr>gc_status = 0, gc_p = 0\<rparr>"
    and ?u = "\<lparr>gc_status = 1, gc_p = 5\<rparr>" and ?e = "\<lparr>gc_status = 1, gc_p = 7\<rparr>"
  let ?r = "\<lambda>cells bytes. Some (take (nat (bytes div sizeof_gc_entry))
    (cells @ ?s # replicate (nat (bytes div sizeof_gc_entry)) ?z))"
  define us where "us = replicate 64 ?u"
  define zs where "zs = replicate 206 ?z"
  let ?gc = "\<lparr>gc_used = 65, gc_size = 80, gc_cells = Some (us @ ?s # ?e # zs)\<rparr>"
  have us: "length us = 64" "list_all (\<lambda>e. gc_status e \<noteq> 0) us" "filter (\<lambda>e. gc_status e = 1) us = us"
    "set us = {?u}" by (simp_all add: us_def list_all_iff)
  have keeps: "realloc_keeps ?r" by (rule realloc_keeps_take) simp
  have init: "snd (duda_gc_init True) = gc_filled 5 0"
    by (simp add: duda_gc_init_def gc_filled_def DUDA_GC_ENTRIES_def)
  have found: "gc_free_cell (us @ ?s # ?z # zs) 80 0 = Inr (Some 65)"
    using gc_free_cell_first [of "us @ [?s]" ?z "[]" 80 zs] us by simp
  have "replicate 272 ?z = (?z # zs) @ replicate 65 ?z"
    unfolding zs_def replicate_Suc [symmetric] replicate_add [symmetric] by simp
  then have "take 272 (us @ ?s # replicate 272 ?z) = us @ ?s # ?z # zs" using us by (simp add: zs_def)
  with found have "duda_gc_add ?r (gc_filled 5 64) 7 = Inr (0, ?gc)"
    using us by (simp add: duda_gc_add_def gc_filled_def DUDA_GC_ENTRIES_def DUDA_GC_CHUNK_def sizeof_gc_entry_def
        list_update_append Let_def flip: us_def)
  then have add: "gc_add_all ?r (snd (duda_gc_init True)) (replicate 64 5 @ [7]) = Inr (replicate 64 0 @ [0], ?gc)"
    using gc_add_all_filled [of 0 64 ?r 5 "[7]"] by (simp add: init)
  have "gc_free_loop 80 0 65 (us @ ?s # ?e # zs) [] =
     Inr (0, map gc_clear (us @ [?s]) @ ?e # zs, map gc_p (us @ [?s]))"
    using gc_free_loop_ok [of 65 "us @ [?s]" "[]" 80 "?e # zs" "[]"] us
    by (simp add: gc_live_of_def del: mset_filter)
  then have "duda_gc_free_content ?gc = Inr (65, ?gc\<lparr>gc_used := 0, gc_cells := Some (map gc_clear (us @ [?s]) @ ?e # zs)\<rparr>, map gc_p (us @ [?s]))"
    using us by (simp add: duda_gc_free_content_def)
  moreover have "9 \<in> set (map gc_p (us @ [?s]))" "7 \<notin> set (map gc_p (us @ [?s]))" using us by auto
  moreover have "replicate 65 0 = replicate 64 0 @ [0::int]" using replicate_add [of 64 1 "0::int"] by simp
  ultimately show ?thesis
    using keeps add by (intro exI [of _ ?r] exI [of _ ?gc] exI conjI) (assumption | simp)+
qed

end
