(* ===== verification/Duda_Router.thy ===== *)
theory Duda_Router
  imports Duda_Prelude
begin

text \<open>
  \<open>lib/objects/duda_router.c\<close>: the rules a service registers with \<open>map()\<close>, the split of an
  incoming URI into fields and the lookup of the rule a request belongs to. Strings are C memory:
  \<open>pattern\<close> and \<open>name\<close> members carry their terminating zero, a URI is a pointer into the request
  buffer and a length. Lengths are below \<open>2 ^ 31\<close>, so the \<open>int\<close> arithmetic on them is exact.
\<close>

section \<open>Types\<close>

definition DUDA_ROUTER_STATIC :: int where "DUDA_ROUTER_STATIC = 0"
definition DUDA_ROUTER_DYNAMIC :: int where "DUDA_ROUTER_DYNAMIC = 1"
definition DUDA_ROUTER_FKEY :: int where "DUDA_ROUTER_FKEY = 0"
definition DUDA_ROUTER_FVAR :: int where "DUDA_ROUTER_FVAR = 1"
definition DUDA_ROUTER_NOTFOUND :: int where "DUDA_ROUTER_NOTFOUND = -1"
definition DUDA_ROUTER_MATCH :: int where "DUDA_ROUTER_MATCH = 0"
definition DUDA_ROUTER_REDIRECT :: int where "DUDA_ROUTER_REDIRECT = 1"
definition DUDA_ROUTER_URI_MAX :: int where "DUDA_ROUTER_URI_MAX = 32"

lemmas router_consts =
  DUDA_ROUTER_STATIC_def DUDA_ROUTER_DYNAMIC_def DUDA_ROUTER_FKEY_def DUDA_ROUTER_FVAR_def
  DUDA_ROUTER_NOTFOUND_def DUDA_ROUTER_MATCH_def DUDA_ROUTER_REDIRECT_def DUDA_ROUTER_URI_MAX_def

record duda_router_field =
  rf_type :: int
  rf_name :: string
  rf_name_len :: int

text \<open>A callback is named by a number, \<open>None\<close> is the null function pointer.\<close>

record duda_router_path =
  rp_type :: int
  rp_pattern :: string
  rp_pattern_len :: int
  rp_redirect :: bool
  rp_fields :: "duda_router_field list"
  rp_callback_name :: string
  rp_callback :: "nat option"

record duda_router_uri_field =
  uf_name :: string
  uf_name_len :: int

record duda_router_uri =
  ru_len :: int
  ru_fields :: "duda_router_uri_field list"

text \<open>The members of the request context the router uses.\<close>

record router_request =
  rq_host :: mk_ptr
  rq_port :: int
  rq_uri :: mk_ptr
  rq_router_uri :: duda_router_uri

section \<open>What Monkey provides\<close>

text \<open>
  The string routines of Monkey that the router calls. \<open>copy_substr\<close> and \<open>dup\<close> return \<open>None\<close>
  when there is no memory.
\<close>

record mk_string_api =
  mk_string_char_search :: "string \<Rightarrow> char \<Rightarrow> int \<Rightarrow> int"
  mk_string_copy_substr :: "string \<Rightarrow> int \<Rightarrow> int \<Rightarrow> string option"
  mk_string_dup :: "string \<Rightarrow> string option"

record mk_string_line =
  sl_val :: "string option"
  sl_len :: int

text \<open>
  Their documented behaviour, with memory available: the index of the first occurrence within the
  given length or -1, the copy of the bytes from one position up to another, and the copy of a
  C string.
\<close>

definition mk_string_ok :: "mk_string_api \<Rightarrow> bool" where
  "mk_string_ok api \<longleftrightarrow>
     (\<forall>t r c. mk_string_char_search api (t @ r) c (int (length t)) =
        (if c \<in> set t then int (length (takeWhile (\<lambda>x. x \<noteq> c) t)) else -1)) \<and>
     (\<forall>p t r. mk_string_copy_substr api (p @ t @ r) (int (length p)) (int (length p + length t)) = Some (cstr t)) \<and>
     (\<forall>t r. no_nul t \<longrightarrow> mk_string_dup api (t @ NUL # r) = Some (cstr t))"

section \<open>Registering rules\<close>

text \<open>
  \<open>router_new_path\<close> links the new node before its caller sets the type and the fields. The node
  is one object, so the definition takes them as arguments and links the finished node.
\<close>

definition router_new_path ::
    "mk_string_api \<Rightarrow> duda_router_path mk_list_adder \<Rightarrow> string \<Rightarrow> nat option \<Rightarrow> string \<Rightarrow>
     int \<Rightarrow> duda_router_field list \<Rightarrow> duda_router_path list \<Rightarrow> duda_router_path list run" where
  "router_new_path api add pattern callback callback_name ty flds router_list =
     (case mk_string_dup api pattern of None \<Rightarrow> Inl NullDeref | Some pat \<Rightarrow>
        (if strlen pattern = 0 then Inl OutOfBounds
         else run_bind (rd pat (strlen pattern - 1)) (\<lambda>c.
           Inr (add \<lparr>rp_type = ty, rp_pattern = pat, rp_pattern_len = int (strlen pattern),
                     rp_redirect = (c = CHR ''/''), rp_fields = flds,
                     rp_callback_name = callback_name, rp_callback = callback\<rparr> router_list))))"

definition router_add_static ::
    "mk_string_api \<Rightarrow> duda_router_path mk_list_adder \<Rightarrow> string \<Rightarrow> nat option \<Rightarrow> duda_router_path list \<Rightarrow>
     (int \<times> duda_router_path list) run" where
  "router_add_static api add pattern callback router_list =
     run_bind (router_new_path api add pattern callback '''' DUDA_ROUTER_STATIC [] router_list) (\<lambda>l. Inr (0, l))"

text \<open>The test \<open>i == end\<close> after \<open>end += i\<close> is written on the value before the addition.\<close>

function router_split_loop ::
    "mk_string_api \<Rightarrow> mk_string_line mk_list_adder \<Rightarrow> string \<Rightarrow> nat \<Rightarrow> nat \<Rightarrow> mk_string_line list \<Rightarrow>
     mk_string_line list" where
  "router_split_loop api add pattern len i lst =
     (if i < len then
        (let e = mk_string_char_search api (drop i pattern) (CHR ''/'') (int (len - i)) in
         if e \<ge> 0 \<and> e + int i < int len then
           (if e = 0 then router_split_loop api add pattern len (i + 1) lst
            else router_split_loop api add pattern len (nat e + i + 1)
              (add \<lparr>sl_val = mk_string_copy_substr api pattern (int i) (e + int i), sl_len = e\<rparr> lst))
         else router_split_loop api add pattern len (len + 1)
              (add \<lparr>sl_val = mk_string_copy_substr api pattern (int i) (int len), sl_len = int len - int i\<rparr> lst))
      else lst)"
  by pat_completeness auto
termination
  by (relation "measure (\<lambda>(api, add, pattern, len, i, lst). len + 1 - i)") auto

declare router_split_loop.simps [simp del]

definition router_split_pattern ::
    "mk_string_api \<Rightarrow> mk_string_line mk_list_adder \<Rightarrow> string \<Rightarrow> mk_string_line list" where
  "router_split_pattern api add pattern = router_split_loop api add pattern (strlen pattern) 0 []"

text \<open>The fields of a dynamic rule, from the split pattern.\<close>

primrec router_make_fields ::
    "mk_string_api \<Rightarrow> duda_router_field mk_list_adder \<Rightarrow> mk_string_line list \<Rightarrow> duda_router_field list \<Rightarrow>
     duda_router_field list run" where
  "router_make_fields api add [] flds = Inr flds"
| "router_make_fields api add (entry # plist) flds =
     (case sl_val entry of None \<Rightarrow> Inl NullDeref | Some val \<Rightarrow>
        run_bind (rd val 0) (\<lambda>c.
          case mk_string_dup api val of None \<Rightarrow> Inl NullDeref | Some name \<Rightarrow>
            router_make_fields api add plist
              (add \<lparr>rf_type = (if c = CHR '':'' then DUDA_ROUTER_FVAR else DUDA_ROUTER_FKEY),
                    rf_name = name, rf_name_len = sl_len entry\<rparr> flds)))"

definition router_add_dynamic ::
    "mk_string_api \<Rightarrow> duda_router_path mk_list_adder \<Rightarrow> mk_string_line mk_list_adder \<Rightarrow>
     duda_router_field mk_list_adder \<Rightarrow> string \<Rightarrow> nat option \<Rightarrow> duda_router_path list \<Rightarrow>
     (int \<times> duda_router_path list) run" where
  "router_add_dynamic api add addl addf pattern callback router_list =
     (if callback = None then Inr (-1, router_list)
      else run_bind (rd pattern 0) (\<lambda>c.
        if c \<noteq> CHR ''/'' then Inr (-1, router_list)
        else run_bind (router_make_fields api addf (router_split_pattern api addl pattern) []) (\<lambda>flds.
          run_bind (router_new_path api add pattern callback '''' DUDA_ROUTER_DYNAMIC flds router_list)
            (\<lambda>l. Inr (0, l)))))"

text \<open>\<open>strstr(pattern, ":")\<close> finds a colon in the string.\<close>

definition duda_router_map ::
    "mk_string_api \<Rightarrow> duda_router_path mk_list_adder \<Rightarrow> mk_string_line mk_list_adder \<Rightarrow>
     duda_router_field mk_list_adder \<Rightarrow> string option \<Rightarrow> nat option \<Rightarrow> duda_router_path list \<Rightarrow>
     (int \<times> duda_router_path list) run" where
  "duda_router_map api add addl addf pattern callback router_list =
     (case pattern of None \<Rightarrow> Inr (-1, router_list)
      | Some pat \<Rightarrow>
          if callback = None then Inr (-1, router_list)
          else if CHR '':'' \<notin> set (takeWhile (\<lambda>c. c \<noteq> NUL) pat)
          then router_add_static api add pat callback router_list
          else router_add_dynamic api add addl addf pat callback router_list)"

section \<open>Parsing the URI\<close>

definition uri_add :: "duda_router_uri \<Rightarrow> string \<Rightarrow> int \<Rightarrow> int \<times> duda_router_uri" where
  "uri_add ruri buf sz =
     (if ru_len ruri \<ge> DUDA_ROUTER_URI_MAX then (-1, ruri)
      else (0, ruri\<lparr>ru_len := ru_len ruri + 1,
                     ru_fields := (ru_fields ruri)[nat (ru_len ruri) := \<lparr>uf_name = buf, uf_name_len = sz\<rparr>]\<rparr>))"

text \<open>
  The loop over the URI; \<open>start\<close> is -1 or the position of the slash that opens a field. The
  \<open>i--\<close> of the source makes the slash that closes a field open the next one.
\<close>

function uri_parse_loop ::
    "string \<Rightarrow> int \<Rightarrow> nat \<Rightarrow> int \<Rightarrow> int \<Rightarrow> duda_router_uri \<Rightarrow> (int \<times> int \<times> duda_router_uri) run" where
  "uri_parse_loop uri len i start fin ruri =
     (if int i < len then
        run_bind (rd uri i) (\<lambda>c.
          if c \<noteq> CHR ''/'' then uri_parse_loop uri len (i + 1) start fin ruri
          else if start = -1 then uri_parse_loop uri len (i + 1) (int i) (-1) ruri
          else
            (let i' = (if fin = -1 then i else i + 1); e = (if fin = -1 then int i else fin);
                 sz = e - start - 1
             in if sz \<le> 0 then uri_parse_loop uri len i' (-1) (-1) ruri
                else uri_parse_loop uri len i' (-1) (-1) (snd (uri_add ruri (drop (nat (start + 1)) uri) sz))))
      else Inr (start, fin, ruri))"
  by pat_completeness auto
termination
  by (relation "measure (\<lambda>(uri, len, i, start, fin, ruri). 2 * nat (len - int i) + (if start = -1 then 0 else 1))") auto

declare uri_parse_loop.simps [simp del]

definition uri_parse_rest :: "string \<Rightarrow> int \<Rightarrow> int \<times> int \<times> duda_router_uri \<Rightarrow> duda_router_uri" where
  "uri_parse_rest uri len = (\<lambda>(start, fin, ruri).
     if start \<ge> 0 \<and> fin = -1 then
       (let sz = len - start - 1 in
        if sz > 0 then snd (uri_add ruri (drop (nat (start + 1)) uri) sz) else ruri)
     else ruri)"

definition duda_router_uri_parse :: "router_request \<Rightarrow> (int \<times> router_request) run" where
  "duda_router_uri_parse dr =
     (let len = int (ptr_len (rq_uri dr)); ruri = (rq_router_uri dr)\<lparr>ru_len := 0\<rparr> in
      case ptr_data (rq_uri dr) of
        None \<Rightarrow> if len > 0 then Inl NullDeref else Inr (0, dr\<lparr>rq_router_uri := ruri\<rparr>)
      | Some uri \<Rightarrow>
          run_bind (uri_parse_loop uri len 0 (-1) (-1) ruri)
            (\<lambda>r. Inr (0, dr\<lparr>rq_router_uri := uri_parse_rest uri len r\<rparr>)))"

section \<open>Redirection\<close>

text \<open>
  The calls \<open>duda_router_redirect\<close> makes on the garbage collector and on the response, in order.
  A header is the buffer and the length passed to \<open>duda_response_http_header_n\<close>.
\<close>

datatype router_call = GcAlloc int | GcAdd | HttpStatus int | HttpHeaderN string int | ResponseEnd

definition ROUTER_REDIR_SIZE :: int where
  "ROUTER_REDIR_SIZE = 64"

text \<open>
  \<open>to_buf\<close> is Monkey's \<open>pointer_to_buf\<close> and \<open>std_port\<close> its configured port; \<open>loc_ok\<close> says whether
  the allocation of \<open>location\<close> succeeds. \<open>port_redirect\<close> has no initial value.
\<close>

definition duda_router_redirect ::
    "int \<Rightarrow> (mk_ptr \<Rightarrow> string) \<Rightarrow> bool \<Rightarrow> router_request option \<Rightarrow> router_call list run" where
  "duda_router_redirect std_port to_buf loc_ok dr' =
     (case dr' of None \<Rightarrow> Inl NullDeref | Some dr \<Rightarrow>
       (let port_redirect = (if ptr_data (rq_host dr) \<noteq> None \<and> rq_port dr > 0 \<and> rq_port dr \<noteq> std_port
                             then Some (rq_port dr) else None);
            n = ptr_len (rq_uri dr);
            redirect_size = ROUTER_REDIR_SIZE + int (ptr_len (rq_host dr)) + int n + 2;
            host = to_buf (rq_host dr)
        in if \<not> loc_ok then Inl Exited
           else case ptr_data (rq_uri dr) of
             None \<Rightarrow> Inl NullDeref
           | Some uri \<Rightarrow>
               if length uri < n then Inl OutOfBounds
               else (let location = take n uri @ ''/'' @ [NUL] in
                 case port_redirect of None \<Rightarrow> Inl Uninit
                 | Some port \<Rightarrow>
                    (let t = (if port > 0
                       then ''Location: '' @ ''FIXME'' @ ''://'' @ cstr_text host @ '':'' @ dec_int port @ cstr_text location
                       else ''Location: '' @ ''FIXME'' @ ''://'' @ cstr_text host @ cstr_text location)
                     in Inr [HttpStatus 301, GcAlloc redirect_size, GcAdd, GcAlloc (int n + 2),
                             HttpHeaderN (snprintf (nat redirect_size) t) (int (length t)), ResponseEnd]))))"

section \<open>Lookup\<close>

text \<open>The loop over the fields of a dynamic rule, with the index \<open>i\<close> into the URI and the flag \<open>match\<close>.\<close>

primrec router_dynamic_loop ::
    "router_request option \<Rightarrow> duda_router_field list \<Rightarrow> nat \<Rightarrow> bool \<Rightarrow> bool run" where
  "router_dynamic_loop dr [] i m = Inr m"
| "router_dynamic_loop dr (f # fs) i m =
     (case dr of None \<Rightarrow> Inl NullDeref | Some r \<Rightarrow>
        if int i = ru_len (rq_router_uri r) then Inr False
        else if rf_type f = DUDA_ROUTER_FKEY then
          run_bind (rd (ru_fields (rq_router_uri r)) i) (\<lambda>uf.
          run_bind (strncmp_eq (rf_name f) (uf_name uf) (nat (rf_name_len f))) (\<lambda>eq.
            if eq \<and> rf_name_len f = uf_name_len uf then router_dynamic_loop dr fs (i + 1) True
            else Inr False))
        else if rf_type f = DUDA_ROUTER_FVAR then router_dynamic_loop dr fs (i + 1) m
        else if \<not> m then Inr False
        else router_dynamic_loop dr fs (i + 1) m)"

text \<open>
  The loop over the rules. The result is the return value, \<open>*path\<close>, and the calls of the
  redirection; \<open>redir\<close> is \<open>duda_router_redirect\<close> with Monkey's part supplied.
\<close>

primrec router_lookup_loop ::
    "(router_request option \<Rightarrow> router_call list run) \<Rightarrow> router_request option \<Rightarrow> string \<Rightarrow> int \<Rightarrow>
     duda_router_path list \<Rightarrow> (int \<times> duda_router_path option \<times> router_call list) run" where
  "router_lookup_loop redir dr uri_data uri_len [] = Inr (DUDA_ROUTER_NOTFOUND, None, [])"
| "router_lookup_loop redir dr uri_data uri_len (p # ps) =
     (if rp_type p = DUDA_ROUTER_STATIC then
        run_bind (strncmp_eq uri_data (rp_pattern p) (nat (rp_pattern_len p))) (\<lambda>eq.
          if eq then Inr (DUDA_ROUTER_MATCH, Some p, [])
          else if rp_redirect p then
            run_bind (strncmp_eq uri_data (rp_pattern p) (nat (rp_pattern_len p - 1))) (\<lambda>eq.
              if eq \<and> uri_len \<le> rp_pattern_len p
              then run_bind (redir dr) (\<lambda>calls. Inr (DUDA_ROUTER_REDIRECT, None, calls))
              else router_lookup_loop redir dr uri_data uri_len ps)
          else router_lookup_loop redir dr uri_data uri_len ps)
      else if rp_type p = DUDA_ROUTER_DYNAMIC then
        run_bind (router_dynamic_loop dr (rp_fields p) 0 False) (\<lambda>m.
          if m then Inr (DUDA_ROUTER_MATCH, Some p, [])
          else router_lookup_loop redir dr uri_data uri_len ps)
      else router_lookup_loop redir dr uri_data uri_len ps)"

text \<open>The function passes a null \<open>dr\<close> to its loop.\<close>

definition duda_router_path_lookup ::
    "(router_request option \<Rightarrow> router_call list run) \<Rightarrow> duda_router_path list \<Rightarrow> string \<Rightarrow> int \<Rightarrow>
     (int \<times> duda_router_path option \<times> router_call list) run" where
  "duda_router_path_lookup redir router_list uri_data uri_len =
     (let dr = None in router_lookup_loop redir dr uri_data uri_len router_list)"

definition duda_router_is_request_root :: "bool \<Rightarrow> string \<Rightarrow> int \<Rightarrow> string \<Rightarrow> int \<Rightarrow> bool run" where
  "duda_router_is_request_root is_root ws_data ws_len uri_data uri_len =
     (if is_root \<and> uri_len = 1 then Inr True
      else if is_root then Inr False
      else run_bind (strncmp_eq (drop 1 uri_data) ws_data (nat ws_len)) (\<lambda>eq.
             if \<not> eq then Inr False
             else if uri_len - 1 = ws_len then Inr True
             else run_bind (rd uri_data (nat (ws_len + 1))) (\<lambda>c. Inr (c = CHR ''/'' \<and> uri_len \<le> ws_len + 2))))"

section \<open>Registered patterns\<close>

definition sl_of :: "string \<Rightarrow> mk_string_line" where
  "sl_of s = \<lparr>sl_val = Some (cstr s), sl_len = int (length s)\<rparr>"

lemma takeWhile_before: "c \<notin> set s \<Longrightarrow> takeWhile (\<lambda>x. x \<noteq> c) (s @ c # t) = s"
  by (induction s) auto

lemma mk_string_okD:
  assumes "mk_string_ok api"
  shows "c \<notin> set t \<Longrightarrow> mk_string_char_search api (t @ r) c (int (length t)) = -1"
    and "c \<notin> set s \<Longrightarrow>
      mk_string_char_search api ((s @ c # t) @ r) c (int (length (s @ c # t))) = int (length s)"
    and "mk_string_copy_substr api (p @ t @ r) (int (length p)) (int (length p + length t)) = Some (cstr t)"
    and "no_nul t \<Longrightarrow> mk_string_dup api (t @ NUL # r) = Some (cstr t)"
proof -
  have search: "mk_string_char_search api (t @ r) c (int (length t)) =
      (if c \<in> set t then int (length (takeWhile (\<lambda>x. x \<noteq> c) t)) else -1)" for t r c
    using assms unfolding mk_string_ok_def by blast
  show "c \<notin> set t \<Longrightarrow> mk_string_char_search api (t @ r) c (int (length t)) = -1"
    by (simp add: search)
  show "c \<notin> set s \<Longrightarrow>
      mk_string_char_search api ((s @ c # t) @ r) c (int (length (s @ c # t))) = int (length s)"
    unfolding search by (simp add: takeWhile_before)
  show "mk_string_copy_substr api (p @ t @ r) (int (length p)) (int (length p + length t)) = Some (cstr t)"
    "no_nul t \<Longrightarrow> mk_string_dup api (t @ NUL # r) = Some (cstr t)"
    using assms unfolding mk_string_ok_def by blast+
qed

lemma router_split_loop_segments:
  assumes api: "mk_string_ok api" and add: "mk_list_appends add"
  shows "router_split_loop api add (pre @ t @ r) (length pre + length t) (length pre) lst =
           lst @ map sl_of (nonempty (split_at (CHR ''/'') t))"
proof (induction "length t" arbitrary: pre t lst rule: less_induct)
  case less
  note app = mk_list_appendsD [OF add]
  let ?loop = "\<lambda>pre t lst. router_split_loop api add (pre @ t @ r) (length pre + length t) (length pre) lst"
  show ?case
  proof (cases "CHR ''/'' \<in> set t")
    case True
    then obtain s t' where t: "t = s @ CHR ''/'' # t'" and s: "CHR ''/'' \<notin> set s"
      by (auto dest: split_list_first)
    have search: "mk_string_char_search api (t @ r) (CHR ''/'') (int (length t)) = int (length s)"
      using mk_string_okD(2) [OF api s] by (simp add: t)
    have IH: "?loop (pre @ s @ ''/'') t' lst' = lst' @ map sl_of (nonempty (split_at (CHR ''/'') t'))" for lst'
      using less [of t' "pre @ s @ ''/''" lst'] by (simp add: t)
    show ?thesis
    proof (cases "s = []")
      case True
      then have "?loop pre t lst = ?loop (pre @ s @ ''/'') t' lst"
        by (subst router_split_loop.simps) (simp add: search, simp add: t)
      with IH [of lst] True show ?thesis by (simp add: t)
    next
      case False
      have "mk_string_copy_substr api (pre @ s @ CHR ''/'' # t' @ r) (int (length pre)) (int (length pre) + int (length s)) = Some (cstr s)"
        using mk_string_okD(3) [OF api, of pre s "CHR ''/'' # t' @ r"] by simp
      then have "?loop pre t lst = ?loop (pre @ s @ ''/'') t' (lst @ [sl_of s])"
        using False by (subst router_split_loop.simps) (simp add: search app, simp add: t sl_of_def app ac_simps)
      with IH [of "lst @ [sl_of s]"] False s show ?thesis by (simp add: t split_at_append_sep)
    qed
  next
    case False
    show ?thesis
    proof (cases "t = []")
      case True
      then show ?thesis by (subst router_split_loop.simps) simp
    next
      case nonempty: False
      have "mk_string_char_search api (t @ r) (CHR ''/'') (int (length t)) = -1"
        "mk_string_copy_substr api (pre @ t @ r) (int (length pre)) (int (length pre) + int (length t)) = Some (cstr t)"
        using mk_string_okD(1,3) [OF api] False by simp_all
      then have "?loop pre t lst =
          router_split_loop api add (pre @ t @ r) (length pre + length t) (length pre + length t + 1) (lst @ [sl_of t])"
        using nonempty by (subst router_split_loop.simps) (simp add: app sl_of_def)
      also have "\<dots> = lst @ [sl_of t]"
        by (subst router_split_loop.simps) simp
      finally show ?thesis using nonempty False by (simp add: split_at_none)
    qed
  qed
qed

lemma router_split_pattern_segments:
  "mk_string_ok api \<Longrightarrow> mk_list_appends add \<Longrightarrow> no_nul pat \<Longrightarrow>
   router_split_pattern api add (pat @ NUL # r) = map sl_of (nonempty (split_at (CHR ''/'') pat))"
  using router_split_loop_segments [of api add "[]" pat "NUL # r" "[]"] by (simp add: router_split_pattern_def)

text \<open>The field a segment of a pattern becomes, and the rule a pattern becomes.\<close>

definition field_of :: "string \<Rightarrow> duda_router_field" where
  "field_of s = \<lparr>rf_type = (if hd s = CHR '':'' then DUDA_ROUTER_FVAR else DUDA_ROUTER_FKEY),
                 rf_name = cstr s, rf_name_len = int (length s)\<rparr>"

lemma router_make_fields_ok:
  assumes "mk_string_ok api" and "mk_list_appends add" and "\<forall>s\<in>set ss. s \<noteq> [] \<and> no_nul s"
  shows "router_make_fields api add (map sl_of ss) flds = Inr (flds @ map field_of ss)"
  using assms(3)
proof (induction ss arbitrary: flds)
  case (Cons s ss)
  then have "rd (cstr s) 0 = Inr (hd s)" by (cases s) (auto simp: cstr_def)
  moreover have "mk_string_dup api (cstr s) = Some (cstr s)"
    using mk_string_okD(4) [OF assms(1), of s "[]"] Cons.prems by (simp add: cstr_def)
  ultimately show ?case
    using Cons by (simp add: sl_of_def mk_list_appendsD [OF assms(2)] field_of_def)
qed simp

lemma split_at_subset: "s \<in> set (split_at c xs) \<Longrightarrow> set s \<subseteq> set xs"
proof (induction xs arbitrary: s)
  case (Cons x xs)
  then show ?case by (cases "split_at c xs") (fastforce split: if_splits)+
qed simp

definition rule_of :: "string \<Rightarrow> nat \<Rightarrow> duda_router_path" where
  "rule_of pat cb =
     \<lparr>rp_type = (if CHR '':'' \<in> set pat then DUDA_ROUTER_DYNAMIC else DUDA_ROUTER_STATIC),
      rp_pattern = cstr pat, rp_pattern_len = int (length pat), rp_redirect = (last pat = CHR ''/''),
      rp_fields = (if CHR '':'' \<in> set pat then map field_of (nonempty (split_at (CHR ''/'') pat)) else []),
      rp_callback_name = '''', rp_callback = Some cb\<rparr>"

lemma router_new_path_ok:
  assumes "mk_string_ok api" and "mk_list_appends add" and "no_nul pat" and "pat \<noteq> []"
  shows "router_new_path api add (pat @ NUL # r) cb nm ty flds rl =
    Inr (rl @ [\<lparr>rp_type = ty, rp_pattern = cstr pat, rp_pattern_len = int (length pat),
                 rp_redirect = (last pat = CHR ''/''), rp_fields = flds, rp_callback_name = nm, rp_callback = cb\<rparr>])"
proof -
  have "rd (cstr pat) (length pat - 1) = Inr (last pat)"
    using assms(4) by (simp add: cstr_def nth_append last_conv_nth)
  with assms show ?thesis
    by (simp add: router_new_path_def mk_string_okD(4) mk_list_appendsD)
qed

lemma nonempty_split_ok:
  "no_nul pat \<Longrightarrow> s \<in> set (nonempty (split_at c pat)) \<Longrightarrow> s \<noteq> [] \<and> no_nul s"
  using split_at_subset [of s c pat] by (auto simp: no_nul_def)

lemma router_map_rule:
  assumes api: "mk_string_ok api" "mk_list_appends add" "mk_list_appends addl" "mk_list_appends addf"
    and pat: "no_nul pat" "pat \<noteq> []" and ok: "CHR '':'' \<in> set pat \<Longrightarrow> hd pat = CHR ''/''"
  shows "duda_router_map api add addl addf (Some (cstr pat)) (Some cb) rl = Inr (0, rl @ [rule_of pat cb])"
proof (cases "CHR '':'' \<in> set pat")
  case False
  with pat router_new_path_ok [OF api(1,2) pat, of "[]"] show ?thesis
    by (simp add: duda_router_map_def router_add_static_def cstr_def cstr_text_cstr rule_of_def)
next
  case True
  have c: "rd (cstr pat) 0 = Inr (CHR ''/'')" using pat ok [OF True] by (cases pat) (auto simp: cstr_def)
  have "\<forall>s\<in>set (nonempty (split_at (CHR ''/'') pat)). s \<noteq> [] \<and> no_nul s"
    using nonempty_split_ok [OF pat(1)] by blast
  from router_make_fields_ok [OF api(1,4) this, of "[]"]
  have "router_make_fields api addf (router_split_pattern api addl (cstr pat)) [] =
      Inr (map field_of (nonempty (split_at (CHR ''/'') pat)))"
    by (simp add: cstr_def router_split_pattern_segments [OF api(1,3) pat(1)])
  with True c pat router_new_path_ok [OF api(1,2) pat, of "[]"] show ?thesis
    by (simp add: duda_router_map_def router_add_dynamic_def cstr_text_cstr rule_of_def) (simp add: cstr_def cstr_text_cstr)
qed

section \<open>The fields of a URI\<close>

definition uri_names :: "duda_router_uri \<Rightarrow> string list" where
  "uri_names ru = map (\<lambda>f. take (nat (uf_name_len f)) (uf_name f)) (take (nat (ru_len ru)) (ru_fields ru))"

text \<open>
  A field of a URI in memory \<open>t @ r\<close>: its bytes are followed by a slash or by the memory after
  the URI.
\<close>

definition uri_field_ok :: "string \<Rightarrow> duda_router_uri_field \<Rightarrow> bool" where
  "uri_field_ok r f \<longleftrightarrow> (\<exists>s r'. uf_name f = s @ r' \<and> uf_name_len f = int (length s) \<and> CHR ''/'' \<notin> set s \<and>
     (r' = r \<or> (\<exists>r''. r' = CHR ''/'' # r'')))"

definition uri_wf :: "string \<Rightarrow> duda_router_uri \<Rightarrow> bool" where
  "uri_wf r ru \<longleftrightarrow> 0 \<le> ru_len ru \<and> ru_len ru \<le> 32 \<and> length (ru_fields ru) = 32 \<and>
     (\<forall>f\<in>set (take (nat (ru_len ru)) (ru_fields ru)). uri_field_ok r f)"

lemma uri_add_names:
  assumes "uri_wf r ru" and "CHR ''/'' \<notin> set s" and "r' = r \<or> (\<exists>r''. r' = CHR ''/'' # r'')"
  shows "uri_wf r (snd (uri_add ru (s @ r') (int (length s))))"
    and "uri_names (snd (uri_add ru (s @ r') (int (length s)))) = take 32 (uri_names ru @ [s])"
proof -
  from assms(1) obtain n where n: "ru_len ru = int n" "n \<le> 32" "length (ru_fields ru) = 32"
    "\<forall>f\<in>set (take n (ru_fields ru)). uri_field_ok r f"
    unfolding uri_wf_def by (metis nat_int nonneg_int_cases of_nat_le_iff of_nat_numeral)
  let ?f = "\<lparr>uf_name = s @ r', uf_name_len = int (length s)\<rparr>"
  have f: "uri_field_ok r ?f" using assms(2,3) by (auto simp: uri_field_ok_def)
  have "uri_wf r (snd (uri_add ru (s @ r') (int (length s)))) \<and>
    uri_names (snd (uri_add ru (s @ r') (int (length s)))) = take 32 (uri_names ru @ [s])"
  proof (cases "n < 32")
    case True
    then have "take (Suc n) ((ru_fields ru)[n := ?f]) = take n (ru_fields ru) @ [?f]"
      using n by (simp add: take_Suc_nth)
    moreover have "nat (int n + 1) = Suc n" by simp
    ultimately show ?thesis
      using True n f by (auto simp: uri_add_def DUDA_ROUTER_URI_MAX_def uri_wf_def uri_names_def)
  next
    case False
    with n assms(1) show ?thesis by (auto simp: uri_add_def DUDA_ROUTER_URI_MAX_def uri_names_def)
  qed
  then show "uri_wf r (snd (uri_add ru (s @ r') (int (length s))))"
    "uri_names (snd (uri_add ru (s @ r') (int (length s)))) = take 32 (uri_names ru @ [s])" by auto
qed

lemma take_take_append: "take n (take n xs @ ys) = take n (xs @ ys)"
  by (cases "length xs \<le> n") simp_all

definition uri_result :: "string \<Rightarrow> string \<Rightarrow> duda_router_uri \<Rightarrow> string list \<Rightarrow> (int \<times> int \<times> duda_router_uri) run \<Rightarrow> bool" where
  "uri_result t r ru segs m \<longleftrightarrow> (\<exists>x. m = Inr x \<and>
     uri_wf r (uri_parse_rest (t @ r) (int (length t)) x) \<and>
     uri_names (uri_parse_rest (t @ r) (int (length t)) x) = take 32 (uri_names ru @ nonempty segs))"

lemma uri_result_Cons:
  assumes "uri_result t r ru' segs m" and ru': "uri_names ru' = take 32 (uri_names ru @ nonempty [s])"
  shows "uri_result t r ru (s # segs) m"
proof -
  have "nonempty (s # segs) = nonempty [s] @ nonempty segs" by simp
  then have "take 32 (uri_names ru' @ nonempty segs) = take 32 (uri_names ru @ nonempty (s # segs))"
    by (simp only: ru' take_take_append append_assoc)
  with assms(1) show ?thesis by (simp only: uri_result_def)
qed

text \<open>Inside a field that starts after the slash at \<open>length pre\<close>, with \<open>s\<close> read.\<close>

lemma uri_parse_loop_open:
  assumes "uri_wf r ru" and "CHR ''/'' \<notin> set s" and "t = pre @ CHR ''/'' # s @ u"
  shows "uri_result t r ru (split_at (CHR ''/'') (s @ u))
     (uri_parse_loop (t @ r) (int (length t)) (Suc (length pre + length s)) (int (length pre)) (-1) ru)"
  using assms
proof (induction u arbitrary: pre s ru)
  case Nil
  have "drop (nat (int (length pre) + 1)) (t @ r) = s @ r" using Nil.prems(3) by (simp add: nat_add_distrib)
  moreover have "uri_wf r ru" "length (uri_names ru) \<le> 32" using Nil.prems(1) by (auto simp: uri_wf_def uri_names_def)
  ultimately show ?case
    using Nil.prems uri_add_names [OF Nil.prems(1,2), of r]
    by (subst uri_parse_loop.simps) (auto simp: uri_result_def uri_parse_rest_def split_at_none)
next
  case (Cons c u)
  let ?loop = "\<lambda>i st ru. uri_parse_loop (t @ r) (int (length t)) i st (-1) ru"
  have here: "rd (t @ r) (Suc (length pre + length s)) = Inr c" "Suc (length pre + length s) < length t"
    using Cons.prems(3) by (simp_all add: nth_append)
  show ?case
  proof (cases "c = CHR ''/''")
    case False
    have "?loop (Suc (length pre + length s)) (int (length pre)) ru =
        ?loop (Suc (length pre + length (s @ [c]))) (int (length pre)) ru"
      using here False by (subst uri_parse_loop.simps) simp
    with Cons.IH [of ru "s @ [c]" pre] Cons.prems False show ?thesis by simp
  next
    case True
    define ru' where "ru' = (if s = [] then ru else snd (uri_add ru (s @ CHR ''/'' # u @ r) (int (length s))))"
    have "drop (nat (int (length pre) + 1)) (t @ r) = s @ CHR ''/'' # u @ r"
      using Cons.prems(3) True by (simp add: nat_add_distrib)
    then have "?loop (Suc (length pre + length s)) (int (length pre)) ru = ?loop (Suc (length pre + length s)) (-1) ru'"
      using here True by (subst uri_parse_loop.simps) (auto simp: ru'_def)
    also have "\<dots> = ?loop (Suc (length (pre @ CHR ''/'' # s))) (int (length (pre @ CHR ''/'' # s))) ru'"
      using here True by (subst uri_parse_loop.simps) (simp add: ac_simps)
    finally have eq: "?loop (Suc (length pre + length s)) (int (length pre)) ru =
        ?loop (Suc (length (pre @ CHR ''/'' # s))) (int (length (pre @ CHR ''/'' # s))) ru'" .
    have ru': "uri_wf r ru'" "uri_names ru' = take 32 (uri_names ru @ nonempty [s])"
      using uri_add_names [OF Cons.prems(1,2), of "CHR ''/'' # u @ r"] Cons.prems(1)
      by (auto simp: ru'_def uri_wf_def uri_names_def)
    have "uri_result t r ru' (split_at (CHR ''/'') u)
        (?loop (Suc (length (pre @ CHR ''/'' # s))) (int (length (pre @ CHR ''/'' # s))) ru')"
      using Cons.IH [OF ru'(1), of "[]" "pre @ CHR ''/'' # s"] Cons.prems(3) True by simp
    from uri_result_Cons [OF this ru'(2)] show ?thesis
      using True Cons.prems(2) by (simp only: eq split_at_append_sep not_False_eq_True)
  qed
qed

lemma uri_parse_loop_start:
  assumes "uri_wf r ru" and "t = pre @ u"
  shows "uri_result t r ru (tl (split_at (CHR ''/'') u))
     (uri_parse_loop (t @ r) (int (length t)) (length pre) (-1) (-1) ru)"
  using assms
proof (induction u arbitrary: pre)
  case Nil
  then have "length (uri_names ru) \<le> 32" by (auto simp: uri_wf_def uri_names_def)
  with Nil show ?case by (subst uri_parse_loop.simps) (auto simp: uri_result_def uri_parse_rest_def)
next
  case (Cons c u)
  have here: "rd (t @ r) (length pre) = Inr c" "length pre < length t"
    using Cons.prems(2) by (simp_all add: nth_append)
  show ?case
  proof (cases "c = CHR ''/''")
    case True
    then show ?thesis
      using here uri_parse_loop_open [OF Cons.prems(1), of "[]" t pre u] Cons.prems(2)
      by (subst uri_parse_loop.simps) simp
  next
    case False
    obtain s ss where "split_at (CHR ''/'') u = s # ss" by (cases "split_at (CHR ''/'') u") auto
    with False show ?thesis
      using here Cons.IH [OF Cons.prems(1), of "pre @ [c]"] Cons.prems(2)
      by (subst uri_parse_loop.simps) simp
  qed
qed

text \<open>The state of the URI part of a request context and of the memory behind the URI.\<close>

definition request_uri :: "router_request \<Rightarrow> string \<Rightarrow> string \<Rightarrow> bool" where
  "request_uri dr t r \<longleftrightarrow> rq_uri dr = \<lparr>ptr_data = Some (t @ r), ptr_len = length t\<rparr> \<and>
     length (ru_fields (rq_router_uri dr)) = 32"

lemma uri_parse_fields:
  assumes "request_uri dr t r"
  shows "\<exists>ru. duda_router_uri_parse dr = Inr (0, dr\<lparr>rq_router_uri := ru\<rparr>) \<and> uri_wf r ru \<and>
     uri_names ru = take 32 (nonempty (tl (split_at (CHR ''/'') t)))"
proof -
  have "uri_wf r ((rq_router_uri dr)\<lparr>ru_len := 0\<rparr>)" "uri_names ((rq_router_uri dr)\<lparr>ru_len := 0\<rparr>) = []"
    using assms by (auto simp: request_uri_def uri_wf_def uri_names_def)
  with uri_parse_loop_start [of r "(rq_router_uri dr)\<lparr>ru_len := 0\<rparr>" t "[]" t] assms show ?thesis
    by (auto simp: uri_result_def duda_router_uri_parse_def request_uri_def)
qed

section \<open>Comparing with the bytes of a request\<close>

text \<open>
  Comparing with a URI in the request buffer: when the byte \<open>c\<close> after the URI does not occur in
  the compared text, the comparison stops there and tests for a prefix of the URI.
\<close>

lemma strncmp_eq_text:
  "no_nul p \<Longrightarrow> c \<notin> set p \<Longrightarrow> strncmp_eq (u @ c # r) (p @ x) (length p) = Inr (take (length p) u = p)"
proof (induction p arbitrary: u)
  case (Cons a p)
  then show ?case by (cases u) auto
qed simp

lemma strncmp_eq_text_right:
  "no_nul p \<Longrightarrow> c \<notin> set p \<Longrightarrow> strncmp_eq (p @ x) (u @ c # r) (length p) = Inr (take (length p) u = p)"
proof (induction p arbitrary: u)
  case (Cons a p)
  then show ?case by (cases u) auto
qed simp

text \<open>A pattern matches field by field: variables match anything, keys themselves only.\<close>

definition segs_match :: "string list \<Rightarrow> string list \<Rightarrow> bool" where
  "segs_match ss us \<longleftrightarrow> length ss \<le> length us \<and>
     list_all2 (\<lambda>s u. hd s = CHR '':'' \<or> s = u) ss (take (length ss) us)"

abbreviation pattern_segs :: "string \<Rightarrow> string list" where
  "pattern_segs pat \<equiv> nonempty (split_at (CHR ''/'') pat)"

abbreviation uri_segs :: "string \<Rightarrow> string list" where
  "uri_segs t \<equiv> take 32 (nonempty (tl (split_at (CHR ''/'') t)))"

lemma segs_match_simps [simp]:
  "segs_match [] us" "\<not> segs_match (s # ss) []"
  "segs_match (s # ss) (u # us) \<longleftrightarrow> (hd s = CHR '':'' \<or> s = u) \<and> segs_match ss us"
  by (auto simp: segs_match_def)

lemma uri_wf_field:
  assumes "uri_wf (c # r) ru" and "i < length (uri_names ru)" and "c \<notin> set k" "CHR ''/'' \<notin> set k" "no_nul k"
  shows "\<exists>uf. rd (ru_fields ru) i = Inr uf \<and> uf_name_len uf = int (length (uri_names ru ! i)) \<and>
     strncmp_eq (cstr k) (uf_name uf) (length k) = Inr (take (length k) (uri_names ru ! i) = k)"
proof -
  let ?uf = "ru_fields ru ! i"
  from assms(1,2) have i: "i < nat (ru_len ru)" "i < length (ru_fields ru)"
    by (auto simp: uri_wf_def uri_names_def)
  then have "?uf \<in> set (take (nat (ru_len ru)) (ru_fields ru))"
    by (metis in_set_conv_nth length_take min_less_iff_conj nth_take)
  with assms(1) have "uri_field_ok (c # r) ?uf" by (simp add: uri_wf_def)
  then obtain s r' where s: "uf_name ?uf = s @ r'" "uf_name_len ?uf = int (length s)"
    "r' = c # r \<or> (\<exists>r''. r' = CHR ''/'' # r'')" by (auto simp: uri_field_ok_def)
  then have "uri_names ru ! i = s" using i by (simp add: uri_names_def)
  with s i assms(3-5) show ?thesis by (auto simp: cstr_def strncmp_eq_text_right)
qed

lemma router_dynamic_loop_match:
  assumes wf: "uri_wf (c # r) (rq_router_uri dr)"
    and ss: "\<forall>s\<in>set ss. no_nul s \<and> CHR ''/'' \<notin> set s \<and> c \<notin> set s" and i: "i \<le> length (uri_names (rq_router_uri dr))"
  shows "router_dynamic_loop (Some dr) (map field_of ss) i m =
     Inr ((m \<or> (\<exists>s\<in>set ss. hd s \<noteq> CHR '':'')) \<and> segs_match ss (drop i (uri_names (rq_router_uri dr))))"
  using ss i
proof (induction ss arbitrary: i m)
  case (Cons s ss)
  have len: "ru_len (rq_router_uri dr) = int (length (uri_names (rq_router_uri dr)))"
    using wf by (auto simp: uri_wf_def uri_names_def min_def)
  show ?case
  proof (cases "i = length (uri_names (rq_router_uri dr))")
    case True
    then show ?thesis by (simp add: len)
  next
    case False
    with Cons.prems(2) have i: "i < length (uri_names (rq_router_uri dr))" by simp
    then have drop: "drop i (uri_names (rq_router_uri dr)) =
        uri_names (rq_router_uri dr) ! i # drop (Suc i) (uri_names (rq_router_uri dr))" by (rule drop_nth_Suc)
    from uri_wf_field [OF wf i, of s] Cons.prems(1) obtain uf where uf:
      "rd (ru_fields (rq_router_uri dr)) i = Inr uf" "uf_name_len uf = int (length (uri_names (rq_router_uri dr) ! i))"
      "strncmp_eq (cstr s) (uf_name uf) (length s) = Inr (take (length s) (uri_names (rq_router_uri dr) ! i) = s)" by auto
    have eq: "take (length s) u = s \<and> length s = length u \<longleftrightarrow> s = u" for u by (metis order_refl take_all)
    show ?thesis
    proof (cases "hd s = CHR '':''")
      case True
      then show ?thesis
        using Cons.IH [of "Suc i" m] Cons.prems(1) i len drop by (simp add: field_of_def router_consts)
    next
      case key: False
      then show ?thesis
        using Cons.IH [of "Suc i" True] Cons.prems(1) i len drop uf eq [of "uri_names (rq_router_uri dr) ! i"]
        by (simp add: field_of_def router_consts)
    qed
  qed
qed simp

section \<open>Properties\<close>

text \<open>A model of Monkey's string routines, used by the witnesses.\<close>

definition mk_string_ref :: mk_string_api where
  "mk_string_ref = \<lparr>
     mk_string_char_search = (\<lambda>s c n. let k = length (takeWhile (\<lambda>x. x \<noteq> c) (take (nat n) s))
                                      in if c \<in> set (take (nat n) s) then int k else -1),
     mk_string_copy_substr = (\<lambda>s a b. Some (cstr (slice (nat a) (nat (b - a)) s))),
     mk_string_dup = (\<lambda>s. Some (cstr (cstr_text s)))\<rparr>"

lemma mk_string_ref_ok: "mk_string_ok mk_string_ref"
  by (auto simp: mk_string_ok_def mk_string_ref_def cstr_text_cstr Let_def)

text \<open>
  C28. Parsing a URI stores in the request context the non-empty segments after its first slash,
  in order, and at most the first 32 of them; it reads no byte outside the URI and returns 0.
\<close>

theorem duda_router_uri_parse_segments:
  assumes "request_uri dr t r"
  shows "\<exists>ru. duda_router_uri_parse dr = Inr (0, dr\<lparr>rq_router_uri := ru\<rparr>) \<and>
     uri_names ru = take 32 (nonempty (tl (split_at (CHR ''/'') t)))"
  using uri_parse_fields [OF assms] by blast

definition example_request :: "string \<Rightarrow> router_request" where
  "example_request t = \<lparr>rq_host = \<lparr>ptr_data = Some ''h'', ptr_len = 1\<rparr>, rq_port = 2001,
     rq_uri = \<lparr>ptr_data = Some (t @ '' HTTP''), ptr_len = length t\<rparr>,
     rq_router_uri = \<lparr>ru_len = 0, ru_fields = replicate 32 \<lparr>uf_name = [], uf_name_len = 0\<rparr>\<rparr>\<rparr>"

lemma example_request_uri: "request_uri (example_request t) t '' HTTP''"
  by (simp add: request_uri_def example_request_def)

theorem duda_router_uri_parse_segments_witness:
  "\<exists>ru. duda_router_uri_parse (example_request ''/app//users/'') =
      Inr (0, (example_request ''/app//users/'')\<lparr>rq_router_uri := ru\<rparr>) \<and> uri_names ru = [''app'', ''users'']"
  using duda_router_uri_parse_segments [OF example_request_uri, of "''/app//users/''"] by simp



text \<open>
  The lookup among registered rules, as a reference: static rules by prefix, in the order of
  registration; the two places where the null request context is dereferenced.
\<close>

fun lookup_ref :: "string \<Rightarrow> (string \<times> nat) list \<Rightarrow> (int \<times> duda_router_path option \<times> router_call list) run" where
  "lookup_ref u [] = Inr (DUDA_ROUTER_NOTFOUND, None, [])"
| "lookup_ref u ((pat, cb) # rules) =
     (if CHR '':'' \<in> set pat then Inl NullDeref
      else if take (length pat) u = pat then Inr (DUDA_ROUTER_MATCH, Some (rule_of pat cb), [])
      else if last pat = CHR ''/'' \<and> take (length pat - 1) u = butlast pat \<and> length u \<le> length pat
      then Inl NullDeref
      else lookup_ref u rules)"

fun router_map_all ::
    "mk_string_api \<Rightarrow> duda_router_path mk_list_adder \<Rightarrow> mk_string_line mk_list_adder \<Rightarrow>
     duda_router_field mk_list_adder \<Rightarrow> (string \<times> nat) list \<Rightarrow> duda_router_path list \<Rightarrow> duda_router_path list run" where
  "router_map_all api add addl addf [] rl = Inr rl"
| "router_map_all api add addl addf ((pat, cb) # rules) rl =
     run_bind (duda_router_map api add addl addf (Some (cstr pat)) (Some cb) rl)
       (\<lambda>(_, rl'). router_map_all api add addl addf rules rl')"

definition pattern_ok :: "char \<Rightarrow> string \<Rightarrow> bool" where
  "pattern_ok c pat \<longleftrightarrow> no_nul pat \<and> c \<notin> set pat \<and> pat \<noteq> [] \<and> hd pat = CHR ''/''"

lemma router_map_all_rules:
  assumes "mk_string_ok api" "mk_list_appends add" "mk_list_appends addl" "mk_list_appends addf"
    and "\<forall>(pat, cb)\<in>set rules. pattern_ok c pat"
  shows "router_map_all api add addl addf rules rl = Inr (rl @ map (\<lambda>(pat, cb). rule_of pat cb) rules)"
  using assms(5)
proof (induction rules arbitrary: rl)
  case (Cons rule rules)
  obtain pat cb where rule: "rule = (pat, cb)" by force
  with Cons.prems have "duda_router_map api add addl addf (Some (cstr pat)) (Some cb) rl = Inr (0, rl @ [rule_of pat cb])"
    by (intro router_map_rule [OF assms(1-4)]) (auto simp: pattern_ok_def)
  with Cons rule show ?case by simp
qed simp

lemma split_at_covers: "x \<in> set xs \<Longrightarrow> x \<noteq> c \<Longrightarrow> \<exists>s\<in>set (split_at c xs). x \<in> set s"
proof (induction xs)
  case (Cons y xs)
  then show ?case by (cases "split_at c xs") auto
qed simp

lemma router_lookup_loop_ref:
  assumes "\<forall>(pat, cb)\<in>set rules. pattern_ok c pat" and redir: "redir None = Inl NullDeref"
  shows "router_lookup_loop redir None (u @ c # r) (int (length u)) (map (\<lambda>(pat, cb). rule_of pat cb) rules) =
     lookup_ref u rules"
  using assms(1)
proof (induction rules)
  case (Cons rule rules)
  obtain pat cb where rule: "rule = (pat, cb)" by force
  with Cons.prems have pat: "no_nul pat" "c \<notin> set pat" "pat \<noteq> []" by (auto simp: pattern_ok_def)
  show ?case
  proof (cases "CHR '':'' \<in> set pat")
    case True
    then have "pattern_segs pat \<noteq> []"
      using split_at_covers [OF True, of "CHR ''/''"] by (force simp: filter_empty_conv)
    then obtain s ss where "pattern_segs pat = s # ss" by (cases "pattern_segs pat") auto
    with True show ?thesis by (simp add: rule rule_of_def router_consts)
  next
    case False
    have "pat = butlast pat @ [last pat]" using pat(3) by simp
    then have split: "cstr pat = butlast pat @ last pat # [NUL]" unfolding cstr_def by (metis append.assoc append_Cons append_Nil)
    have 1: "strncmp_eq (u @ c # r) (cstr pat) (length pat) = Inr (take (length pat) u = pat)"
      unfolding cstr_def by (rule strncmp_eq_text [OF pat(1,2)])
    have "no_nul (butlast pat)" "c \<notin> set (butlast pat)"
      using pat by (auto simp: no_nul_def dest: in_set_butlastD)
    then have 2: "strncmp_eq (u @ c # r) (cstr pat) (length pat - 1) = Inr (take (length pat - 1) u = butlast pat)"
      unfolding split using strncmp_eq_text [of "butlast pat" c u r] by simp
    have "nat (int (length pat) - 1) = length pat - 1" by simp
    with False 1 2 Cons redir show ?thesis by (simp add: rule rule_of_def router_consts)
  qed
qed simp

text \<open>
  C26. The lookup of a request among the rules a service registered with \<open>map()\<close>, for every list
  of rules and every URI: the first static rule whose pattern is a prefix of the URI is returned
  with \<open>DUDA_ROUTER_MATCH\<close>; with no such rule the result is \<open>DUDA_ROUTER_NOTFOUND\<close>; but as soon
  as the search reaches a dynamic rule, or a static rule with a final slash that asks for a
  redirection, the null request context of the function is dereferenced. The byte \<open>c\<close> after the
  URI is one that no pattern contains.
\<close>

theorem duda_router_path_lookup_ref:
  assumes "mk_string_ok api" "mk_list_appends add" "mk_list_appends addl" "mk_list_appends addf"
    and "\<forall>(pat, cb)\<in>set rules. pattern_ok c pat"
  shows "run_bind (router_map_all api add addl addf rules [])
       (\<lambda>rl. duda_router_path_lookup (duda_router_redirect std_port to_buf loc_ok) rl (u @ c # r) (int (length u))) =
     lookup_ref u rules"
  using router_map_all_rules [OF assms, of "[]"] router_lookup_loop_ref [OF assms(5), of "duda_router_redirect std_port to_buf loc_ok" u r]
  by (simp add: duda_router_path_lookup_def duda_router_redirect_def)

theorem duda_router_path_lookup_ref_witness:
  "run_bind (router_map_all mk_string_ref (\<lambda>x xs. xs @ [x]) (\<lambda>x xs. xs @ [x]) (\<lambda>x xs. xs @ [x])
       [(''/a/'', 1), (''/b'', 2), (''/c/:id'', 3)] [])
     (\<lambda>rl. duda_router_path_lookup (duda_router_redirect 80 (\<lambda>p. cstr (ptr_text p)) True) rl (''/bc'' @ CHR '' '' # ''x'') (int (length ''/bc''))) =
   Inr (DUDA_ROUTER_MATCH, Some (rule_of ''/b'' 2), [])"
proof -
  have ok: "\<forall>(pat, cb)\<in>set [(''/a/'', 1), (''/b'', 2::nat), (''/c/:id'', 3)]. pattern_ok (CHR '' '') pat"
    by (simp add: pattern_ok_def)
  show ?thesis
    unfolding duda_router_path_lookup_ref [OF mk_string_ref_ok mk_list_appends_snoc mk_list_appends_snoc mk_list_appends_snoc ok]
    by simp
qed

text \<open>
  A redirection of a request on a port other than the configured one: the calls are the status
  301, the three registrations with the garbage collector, one header and the end of the response;
  the header is the complete \<open>Location\<close> line with the slash added, \<open>snprintf\<close> never truncates it
  and the length passed with it is its length. On the configured port the code reads the
  uninitialised \<open>port_redirect\<close>.
\<close>

theorem duda_router_redirect_location:
  assumes "ptr_text (rq_host dr) = h" "ptr_data (rq_host dr) \<noteq> None" "to_buf (rq_host dr) = cstr h" "no_nul h"
    and "ptr_len (rq_host dr) = length h" "0 < rq_port dr" "rq_port dr < 65536"
    and "request_uri dr t r" "no_nul t"
  shows "duda_router_redirect std_port to_buf True (Some dr) =
    (if rq_port dr = std_port then Inl Uninit
     else let loc = ''Location: FIXME://'' @ h @ '':'' @ dec_int (rq_port dr) @ t @ ''/''
          in Inr [HttpStatus 301, GcAlloc (66 + int (length h) + int (length t)), GcAdd, GcAlloc (int (length t) + 2),
                  HttpHeaderN (cstr loc) (int (length loc)), ResponseEnd])"
proof -
  have "nat (rq_port dr) < 10 ^ Suc 4" using assms(7) by simp
  then have "length (dec_nat (nat (rq_port dr))) \<le> Suc 4" by (rule dec_nat_length)
  then have port: "length (dec_int (rq_port dr)) \<le> 5" using assms(6) by (simp add: dec_int_def)
  let ?loc = "''Location: FIXME://'' @ h @ '':'' @ dec_int (rq_port dr) @ t @ ''/''"
  have "length ?loc \<le> 65 + length h + length t" using port by simp
  then have fit: "snprintf (nat (66 + int (length h) + int (length t))) ?loc = cstr ?loc"
    by (simp add: snprintf_def nat_add_distrib)
  have texts: "cstr_text (cstr h) = h" "cstr_text (t @ ''/'' @ [NUL]) = t @ ''/''"
    using cstr_text_cstr [of "t @ ''/''" "[]"] assms(4,9) by (auto simp: cstr_def cstr_text_cstr no_nul_def)
  show ?thesis
    using assms fit texts
    by (auto simp: duda_router_redirect_def request_uri_def ROUTER_REDIR_SIZE_def Let_def algebra_simps)
qed

theorem duda_router_redirect_location_witness:
  "duda_router_redirect 80 (\<lambda>p. cstr (ptr_text p)) True (Some (example_request ''/app'')) =
     (let loc = ''Location: FIXME://'' @ ''h'' @ '':'' @ dec_int 2001 @ ''/app'' @ ''/''
      in Inr [HttpStatus 301, GcAlloc 71, GcAdd, GcAlloc 6, HttpHeaderN (cstr loc) (int (length loc)), ResponseEnd])"
  using duda_router_redirect_location [of "example_request ''/app''" "''h''" "\<lambda>p. cstr (ptr_text p)", OF _ _ _ _ _ _ _ example_request_uri, of 80]
  by (simp add: example_request_def ptr_text_def)

end
