(* ===== verification/Duda_Param.thy ===== *)
theory Duda_Param
  imports Duda_Router Duda_Utils Duda_Gc
begin

text \<open>
  \<open>lib/objects/duda_param.c\<close>: the values of the variables of a dynamic rule, read from the parsed
  URI by position. The component rests on the router (which rule matched, the fields of the URI),
  on the number parser and on the garbage collector, which owns the returned copy.
\<close>

section \<open>State and operations\<close>

record param_request =
  pr_dr :: router_request
  pr_router_path :: "duda_router_path option"
  pr_gc :: duda_gc_map

text \<open>
  The loop over the fields of the rule. Their type is compared with \<open>DUDA_ROUTER_DYNAMIC\<close>, which
  has the value of \<open>DUDA_ROUTER_FVAR\<close>. The result is -1 or the position.
\<close>

primrec param_position_loop :: "duda_router_field list \<Rightarrow> string \<Rightarrow> int \<Rightarrow> int \<Rightarrow> int run" where
  "param_position_loop [] key klen i = Inr (-1)"
| "param_position_loop (f # fs) key klen i =
     (if rf_type f \<noteq> DUDA_ROUTER_DYNAMIC then param_position_loop fs key klen (i + 1)
      else if klen \<noteq> rf_name_len f - 1 then param_position_loop fs key klen (i + 1)
      else run_bind (strncmp_eq (drop 1 (rf_name f)) key (nat klen)) (\<lambda>eq.
             if eq then Inr i else param_position_loop fs key klen (i + 1)))"

definition get_param_position :: "param_request \<Rightarrow> string option \<Rightarrow> int run" where
  "get_param_position dr key =
     (case key of None \<Rightarrow> Inr (-1)
      | Some k \<Rightarrow> (case pr_router_path dr of None \<Rightarrow> Inl NullDeref
          | Some path \<Rightarrow> param_position_loop (rp_fields path) k (int (strlen k)) 0))"

text \<open>
  \<open>addr\<close> is the address of the copy \<open>str_copy_substr\<close> makes; what \<open>duda_gc_add\<close> returns is not
  looked at.
\<close>

definition duda_param_get ::
    "mk_string_api \<Rightarrow> gc_realloc \<Rightarrow> nat \<Rightarrow> param_request \<Rightarrow> string option \<Rightarrow> (string option \<times> param_request) run" where
  "duda_param_get api realloc addr dr key =
     (if key = None then Inr (None, dr)
      else if pr_router_path dr = None then Inr (None, dr)
      else run_bind (get_param_position dr key) (\<lambda>match.
        if match \<ge> 0 then
          run_bind (rd (ru_fields (rq_router_uri (pr_dr dr))) (nat match)) (\<lambda>field.
            case mk_string_copy_substr api (uf_name field) 0 (uf_name_len field) of
              None \<Rightarrow> Inr (None, dr)
            | Some value \<Rightarrow>
                run_bind (duda_gc_add realloc (pr_gc dr) addr) (\<lambda>(_, gc). Inr (Some value, dr\<lparr>pr_gc := gc\<rparr>)))
        else Inr (None, dr)))"

text \<open>The return value and what is stored in \<open>*res\<close>, if anything is.\<close>

definition duda_param_get_number :: "param_request \<Rightarrow> string option \<Rightarrow> (int \<times> int option) run" where
  "duda_param_get_number dr key =
     run_bind (get_param_position dr key) (\<lambda>match.
       if match = -1 then Inr (-1, None)
       else run_bind (rd (ru_fields (rq_router_uri (pr_dr dr))) (nat match)) (\<lambda>field.
         run_bind (duda_utils_strtol (uf_name field) (uf_name_len field)) (\<lambda>(ret, number).
           if ret = -1 then Inr (-1, None) else Inr (0, Some number))))"

section \<open>Positions\<close>

primrec index_of :: "'a \<Rightarrow> 'a list \<Rightarrow> nat option" where
  "index_of x [] = None"
| "index_of x (y # ys) = (if y = x then Some 0 else map_option Suc (index_of x ys))"

lemma index_of_Some: "index_of x xs = Some i \<Longrightarrow> i < length xs \<and> xs ! i = x"
  by (induction xs arbitrary: i) (auto split: if_splits)

lemma param_position_loop_index:
  assumes "\<forall>s\<in>set ss. s \<noteq> [] \<and> no_nul s" and "no_nul key"
  shows "param_position_loop (map field_of ss) (key @ NUL # x) (int (length key)) i =
     Inr (case index_of (CHR '':'' # key) ss of None \<Rightarrow> -1 | Some j \<Rightarrow> i + int j)"
  using assms(1)
proof (induction ss arbitrary: i)
  case (Cons s ss)
  then obtain a s' where s: "s = a # s'" by (cases s) auto
  have "length key = length s' \<Longrightarrow>
      strncmp_eq (s' @ [NUL]) (key @ NUL # x) (length s') = Inr (s' = key)"
    using strncmp_eq_prefix [OF assms(2), of "s' @ [NUL]" "NUL # x"] by simp
  with Cons show ?case
    by (auto simp: s field_of_def router_consts cstr_def split: option.splits)
qed simp

text \<open>
  A request that a rule for the pattern \<open>pat\<close> serves: its URI is parsed and matches the pattern.
\<close>

definition param_ready :: "string \<Rightarrow> char \<Rightarrow> string \<Rightarrow> param_request \<Rightarrow> bool" where
  "param_ready pat c r dr \<longleftrightarrow> (\<exists>cb. pr_router_path dr = Some (rule_of pat cb)) \<and> no_nul pat \<and> CHR '':'' \<in> set pat \<and>
     uri_wf (c # r) (rq_router_uri (pr_dr dr)) \<and>
     segs_match (pattern_segs pat) (uri_names (rq_router_uri (pr_dr dr)))"

lemma get_param_position_index:
  assumes "param_ready pat c r dr" and "no_nul key"
  shows "get_param_position dr (Some (cstr key)) =
     Inr (case index_of (CHR '':'' # key) (pattern_segs pat) of None \<Rightarrow> -1 | Some j \<Rightarrow> int j)"
proof -
  from assms(1) obtain cb where cb: "pr_router_path dr = Some (rule_of pat cb)" "no_nul pat" "CHR '':'' \<in> set pat"
    by (auto simp: param_ready_def)
  have "\<forall>s\<in>set (pattern_segs pat). s \<noteq> [] \<and> no_nul s" using nonempty_split_ok [OF cb(2)] by blast
  from param_position_loop_index [OF this assms(2), of "[]" 0] cb assms(2) show ?thesis
    by (simp add: get_param_position_def rule_of_def cstr_def split: option.splits)
qed

text \<open>The URI field at the position of a variable.\<close>

lemma param_ready_field:
  assumes "param_ready pat c r dr" and "index_of v (pattern_segs pat) = Some j"
  shows "\<exists>s r'. rd (ru_fields (rq_router_uri (pr_dr dr))) j = Inr \<lparr>uf_name = s @ r', uf_name_len = int (length s)\<rparr> \<and>
    r' \<noteq> [] \<and> uri_names (rq_router_uri (pr_dr dr)) ! j = s"
proof -
  let ?ru = "rq_router_uri (pr_dr dr)"
  have "j < length (uri_names ?ru)"
    using index_of_Some [OF assms(2)] assms(1) by (auto simp: param_ready_def segs_match_def)
  then have j: "j < nat (ru_len ?ru)" "j < length (ru_fields ?ru)" by (auto simp: uri_names_def)
  then have "ru_fields ?ru ! j \<in> set (take (nat (ru_len ?ru)) (ru_fields ?ru))"
    by (metis in_set_conv_nth length_take min_less_iff_conj nth_take)
  with assms(1) have "uri_field_ok (c # r) (ru_fields ?ru ! j)" by (auto simp: param_ready_def uri_wf_def)
  then obtain s r' where s: "uf_name (ru_fields ?ru ! j) = s @ r'" "uf_name_len (ru_fields ?ru ! j) = int (length s)"
    "r' \<noteq> []" by (auto simp: uri_field_ok_def)
  moreover from this j have "uri_names ?ru ! j = s" by (simp add: uri_names_def)
  ultimately show ?thesis using j
    by (intro exI [of _ s] exI [of _ r']) (cases "ru_fields ?ru ! j", simp)
qed

section \<open>Properties\<close>

text \<open>A request for \<open>/user/42\<close> served by the rule \<open>/user/:id\<close>, used by the witnesses.\<close>

definition example_param :: param_request where
  "example_param = \<lparr>pr_dr = (example_request ''/user/42'')\<lparr>rq_router_uri :=
       \<lparr>ru_len = 2, ru_fields = \<lparr>uf_name = ''user/42 HTTP'', uf_name_len = 4\<rparr> # \<lparr>uf_name = ''42 HTTP'', uf_name_len = 2\<rparr> #
         replicate 30 \<lparr>uf_name = [], uf_name_len = 0\<rparr>\<rparr>\<rparr>,
     pr_router_path = Some (rule_of ''/user/:id'' 7), pr_gc = snd (duda_gc_init True)\<rparr>"

lemma example_param_names: "uri_names (rq_router_uri (pr_dr example_param)) = [''user'', ''42'']"
  by (simp add: example_param_def uri_names_def numeral_2_eq_2)

lemma example_param_ready: "param_ready ''/user/:id'' (CHR '' '') ''HTTP'' example_param"
proof -
  have "uri_field_ok '' HTTP'' \<lparr>uf_name = ''user/42 HTTP'', uf_name_len = 4\<rparr>"
    unfolding uri_field_ok_def by (intro exI [of _ "''user''"] exI [of _ "''/42 HTTP''"]) simp
  moreover have "uri_field_ok '' HTTP'' \<lparr>uf_name = ''42 HTTP'', uf_name_len = 2\<rparr>"
    unfolding uri_field_ok_def by (intro exI [of _ "''42''"] exI [of _ "'' HTTP''"]) simp
  ultimately have "uri_wf '' HTTP'' (rq_router_uri (pr_dr example_param))"
    by (simp add: uri_wf_def example_param_def numeral_2_eq_2)
  moreover have "segs_match (pattern_segs ''/user/:id'') (uri_names (rq_router_uri (pr_dr example_param)))"
    by (simp add: example_param_names)
  moreover have "pr_router_path example_param = Some (rule_of ''/user/:id'' 7)" by (simp add: example_param_def)
  ultimately show ?thesis by (auto simp: param_ready_def)
qed

text \<open>
  C29. For a request that matched a registered dynamic rule, \<open>duda_param_get\<close> returns, for a key
  that is a variable of the pattern, a fresh C string with the URI segment at the position of that
  variable, and registers the copy with the garbage collector; for any other key it returns
  \<open>NULL\<close> and changes nothing.
\<close>

theorem duda_param_get_segment:
  assumes "mk_string_ok api" "param_ready pat c r dr" "no_nul key"
    and "gc_wf (pr_gc dr)" "gc_used (pr_gc dr) < gc_size (pr_gc dr)"
  shows "case index_of (CHR '':'' # key) (pattern_segs pat) of
       None \<Rightarrow> duda_param_get api realloc addr dr (Some (cstr key)) = Inr (None, dr)
     | Some j \<Rightarrow> \<exists>gc. duda_param_get api realloc addr dr (Some (cstr key)) =
           Inr (Some (cstr (uri_names (rq_router_uri (pr_dr dr)) ! j)), dr\<lparr>pr_gc := gc\<rparr>) \<and>
         gc_wf gc \<and> gc_live gc = add_mset addr (gc_live (pr_gc dr))"
proof (cases "index_of (CHR '':'' # key) (pattern_segs pat)")
  case None
  with assms show ?thesis
    by (auto simp: duda_param_get_def get_param_position_index param_ready_def)
next
  case (Some j)
  from param_ready_field [OF assms(2) Some] obtain s r' where
    s: "rd (ru_fields (rq_router_uri (pr_dr dr))) j = Inr \<lparr>uf_name = s @ r', uf_name_len = int (length s)\<rparr>"
      "uri_names (rq_router_uri (pr_dr dr)) ! j = s" by blast
  moreover have "mk_string_copy_substr api (s @ r') 0 (int (length s)) = Some (cstr s)"
    using mk_string_okD(3) [OF assms(1), of "[]" s r'] by simp
  moreover have "pr_router_path dr \<noteq> None" using assms(2) by (auto simp: param_ready_def)
  ultimately show ?thesis
    using duda_gc_add_room [OF assms(4,5), of realloc addr] Some get_param_position_index [OF assms(2,3)]
    by (auto simp: duda_param_get_def)
qed

theorem duda_param_get_segment_witness:
  "\<exists>gc. duda_param_get mk_string_ref (\<lambda>_ _. None) 77 example_param (Some (cstr ''id'')) =
       Inr (Some (cstr ''42''), example_param\<lparr>pr_gc := gc\<rparr>) \<and>
     gc_wf gc \<and> gc_live gc = add_mset 77 (gc_live (pr_gc example_param))"
proof -
  have "gc_wf (pr_gc example_param)" "gc_used (pr_gc example_param) < gc_size (pr_gc example_param)"
    by (simp_all add: example_param_def gc_wf_init)
  from duda_param_get_segment [OF mk_string_ref_ok example_param_ready _ this, of "''id''" "\<lambda>_ _. None" 77]
  show ?thesis by (simp add: example_param_names)
qed

text \<open>
  The numeric getter stores the value of the segment and returns 0 exactly when the segment is
  a decimal number a \<open>long\<close> can hold; in every other case it returns -1 and stores nothing.
\<close>

theorem duda_param_get_number_value:
  assumes "param_ready pat c r dr" "no_nul key" "[] \<notin> set (uri_names (rq_router_uri (pr_dr dr)))"
  shows "duda_param_get_number dr (Some (cstr key)) =
    Inr (case index_of (CHR '':'' # key) (pattern_segs pat) of None \<Rightarrow> (-1, None)
         | Some j \<Rightarrow> (case strtol_spec (uri_names (rq_router_uri (pr_dr dr)) ! j) of
             None \<Rightarrow> (-1, None) | Some v \<Rightarrow> (0, Some v)))"
proof (cases "index_of (CHR '':'' # key) (pattern_segs pat)")
  case None
  with assms show ?thesis by (simp add: duda_param_get_number_def get_param_position_index)
next
  case (Some j)
  from param_ready_field [OF assms(1) Some] obtain s r' where
    s: "rd (ru_fields (rq_router_uri (pr_dr dr))) j = Inr \<lparr>uf_name = s @ r', uf_name_len = int (length s)\<rparr>"
      "r' \<noteq> []" "uri_names (rq_router_uri (pr_dr dr)) ! j = s" by blast
  have "j < length (uri_names (rq_router_uri (pr_dr dr)))"
    using index_of_Some [OF Some] assms(1) by (auto simp: param_ready_def segs_match_def)
  with s(3) assms(3) have "s \<noteq> []" by (metis nth_mem)
  from strtol_run_spec [OF this s(2)] s Some get_param_position_index [OF assms(1,2)] show ?thesis
    by (simp add: duda_param_get_number_def split: option.splits)
qed

theorem duda_param_get_number_value_witness:
  "duda_param_get_number example_param (Some (cstr ''id'')) = Inr (0, Some 42)"
proof -
  have "strtol_spec ''42'' = Some 42" by code_simp
  moreover have "[] \<notin> set (uri_names (rq_router_uri (pr_dr example_param)))"
    by (simp add: example_param_names)
  ultimately show ?thesis
    using duda_param_get_number_value [OF example_param_ready, of "''id''"] example_param_names by simp
qed

end
