(* ===== verification/Duda_Qs.thy ===== *)
theory Duda_Qs
  imports Duda_Router Duda_Gc
begin

text \<open>
  \<open>lib/objects/duda_qs.c\<close>: the parser of the query string and the accessors of its entries. The
  entries are the fixed array of \<open>struct duda_qs_map\<close>; keys and values point into the request
  buffer.
\<close>

section \<open>State\<close>

definition QS_ENTRIES_SIZE :: nat where
  "QS_ENTRIES_SIZE = 32"

record duda_qs_entry =
  qs_key :: mk_ptr
  qs_value :: mk_ptr

record duda_qs_map =
  qs_count :: int
  qs_entries :: "duda_qs_entry list"

record qs_request =
  qr_qs :: duda_qs_map
  qr_query_string :: mk_ptr
  qr_gc :: duda_gc_map

section \<open>Parser\<close>

text \<open>
  The pointers \<open>key\<close> and \<open>val\<close> are positions in the query string. The two writes into
  \<open>entries[count]\<close> are checked against the array, which the source does not do.
\<close>

definition qs_set_value ::
    "string \<Rightarrow> nat \<Rightarrow> nat option \<Rightarrow> nat option \<Rightarrow> nat \<Rightarrow> duda_qs_entry list \<Rightarrow> (nat \<times> duda_qs_entry list) run" where
  "qs_set_value qs i key val cnt entries =
     (case (key, val) of
        (Some k, Some v) \<Rightarrow>
          run_bind (rd entries cnt) (\<lambda>e.
          run_bind (wr entries cnt (e\<lparr>qs_value := \<lparr>ptr_data = Some (drop (v + 1) qs), ptr_len = i - v - 1\<rparr>\<rparr>)) (\<lambda>entries'.
            Inr (cnt + 1, entries')))
      | _ \<Rightarrow> Inr (cnt, entries))"

function qs_parse_loop ::
    "string \<Rightarrow> nat \<Rightarrow> nat \<Rightarrow> nat option \<Rightarrow> nat option \<Rightarrow> nat \<Rightarrow> duda_qs_entry list \<Rightarrow> (nat \<times> duda_qs_entry list) run" where
  "qs_parse_loop qs qs_len i key val cnt entries =
     (if i < qs_len then
        run_bind (rd qs i) (\<lambda>c.
          if c = CHR ''&'' then
            run_bind (qs_set_value qs i key val cnt entries) (\<lambda>(cnt', entries').
              qs_parse_loop qs qs_len (i + 1) None None cnt' entries')
          else if c = CHR ''='' then
            (case (key, val) of
               (Some k, None) \<Rightarrow>
                 run_bind (rd entries cnt) (\<lambda>e.
                 run_bind (wr entries cnt (e\<lparr>qs_key := \<lparr>ptr_data = Some (drop k qs), ptr_len = i - k\<rparr>\<rparr>)) (\<lambda>entries'.
                   qs_parse_loop qs qs_len (i + 1) key (if c \<noteq> CHR '' '' then Some i else None) cnt entries'))
             | _ \<Rightarrow> qs_parse_loop qs qs_len (i + 1) key val cnt entries)
          else qs_parse_loop qs qs_len (i + 1) (if key = None then Some i else key) val cnt entries)
      else qs_set_value qs i key val cnt entries)"
  by pat_completeness auto
termination
  by (relation "measure (\<lambda>(qs, qs_len, i, key, val, cnt, entries). qs_len - i)") auto

declare qs_parse_loop.simps [simp del]

definition duda_qs_parse :: "qs_request \<Rightarrow> (int \<times> qs_request) run" where
  "duda_qs_parse dr =
     (case ptr_data (qr_query_string dr) of
        None \<Rightarrow> Inr (-1, dr)
      | Some qs \<Rightarrow>
          run_bind (qs_parse_loop qs (ptr_len (qr_query_string dr)) 0 None None 0 (qs_entries (qr_qs dr)))
            (\<lambda>(cnt, entries). Inr (int cnt, dr\<lparr>qr_qs := \<lparr>qs_count = int cnt, qs_entries = entries\<rparr>\<rparr>)))"

section \<open>Accessors\<close>

definition duda_qs_count :: "qs_request \<Rightarrow> int" where
  "duda_qs_count dr = qs_count (qr_qs dr)"

text \<open>
  \<open>strncmp\<close> on a pointer that may be null, and the copy of a value registered with the garbage
  collector: \<open>addr\<close> is its address, 0 when \<open>str_copy_substr\<close> returned \<open>NULL\<close>, which is
  registered as well.
\<close>

definition ptr_strncmp_eq :: "mk_ptr \<Rightarrow> string \<Rightarrow> nat \<Rightarrow> bool run" where
  "ptr_strncmp_eq p b n =
     (if n = 0 then Inr True
      else case ptr_data p of None \<Rightarrow> Inl NullDeref | Some a \<Rightarrow> strncmp_eq a b n)"

definition qs_copy_value ::
    "mk_string_api \<Rightarrow> gc_realloc \<Rightarrow> nat \<Rightarrow> qs_request \<Rightarrow> mk_ptr \<Rightarrow> (string option \<times> qs_request) run" where
  "qs_copy_value api realloc addr dr v =
     (case ptr_data v of None \<Rightarrow> Inl NullDeref
      | Some b \<Rightarrow>
          (let value = mk_string_copy_substr api b 0 (int (ptr_len v)) in
           run_bind (duda_gc_add realloc (qr_gc dr) (if value = None then 0 else addr))
             (\<lambda>(_, gc). Inr (value, dr\<lparr>qr_gc := gc\<rparr>))))"

primrec qs_get_loop :: "duda_qs_entry list \<Rightarrow> nat \<Rightarrow> string \<Rightarrow> nat \<Rightarrow> nat \<Rightarrow> duda_qs_entry option run" where
  "qs_get_loop entries 0 key len i = Inr None"
| "qs_get_loop entries (Suc n) key len i =
     run_bind (rd entries i) (\<lambda>e.
       if ptr_len (qs_key e) = len then
         run_bind (ptr_strncmp_eq (qs_key e) key len) (\<lambda>eq.
           if eq then Inr (Some e) else qs_get_loop entries n key len (i + 1))
       else qs_get_loop entries n key len (i + 1))"

definition duda_qs_get ::
    "mk_string_api \<Rightarrow> gc_realloc \<Rightarrow> nat \<Rightarrow> qs_request \<Rightarrow> string \<Rightarrow> (string option \<times> qs_request) run" where
  "duda_qs_get api realloc addr dr key =
     (if qs_count (qr_qs dr) \<le> 0 then Inr (None, dr)
      else run_bind (qs_get_loop (qs_entries (qr_qs dr)) (nat (qs_count (qr_qs dr))) key (strlen key) 0) (\<lambda>found.
        case found of None \<Rightarrow> Inr (None, dr) | Some e \<Rightarrow> qs_copy_value api realloc addr dr (qs_value e)))"

definition duda_qs_get_id ::
    "mk_string_api \<Rightarrow> gc_realloc \<Rightarrow> nat \<Rightarrow> qs_request \<Rightarrow> int \<Rightarrow> (string option \<times> qs_request) run" where
  "duda_qs_get_id api realloc addr dr idx =
     (if idx < 0 \<or> qs_count (qr_qs dr) \<le> 0 then Inr (None, dr)
      else if idx \<ge> qs_count (qr_qs dr) then Inr (None, dr)
      else run_bind (rd (qs_entries (qr_qs dr)) (nat idx)) (\<lambda>e. qs_copy_value api realloc addr dr (qs_value e)))"

primrec qs_cmp_loop :: "duda_qs_entry list \<Rightarrow> nat \<Rightarrow> string \<Rightarrow> string \<Rightarrow> nat \<Rightarrow> int run" where
  "qs_cmp_loop entries 0 key value i = Inr (-1)"
| "qs_cmp_loop entries (Suc n) key value i =
     run_bind (rd entries i) (\<lambda>e.
     run_bind (ptr_strncmp_eq (qs_key e) key (ptr_len (qs_key e))) (\<lambda>eqk.
       if eqk then
         run_bind (ptr_strncmp_eq (qs_value e) value (ptr_len (qs_value e))) (\<lambda>eqv.
           if eqv then Inr 0 else qs_cmp_loop entries n key value (i + 1))
       else qs_cmp_loop entries n key value (i + 1)))"

definition duda_qs_cmp :: "qs_request \<Rightarrow> string \<Rightarrow> string \<Rightarrow> int run" where
  "duda_qs_cmp dr key value =
     (if qs_count (qr_qs dr) \<le> 0 then Inr (-1)
      else qs_cmp_loop (qs_entries (qr_qs dr)) (nat (qs_count (qr_qs dr))) key value 0)"

section \<open>Reference\<close>

text \<open>The pair of a segment of the query string: leading \<open>=\<close> are skipped, a key without \<open>=\<close> is dropped.\<close>

definition qs_pair :: "string \<Rightarrow> (string \<times> string) option" where
  "qs_pair s = (let b = dropWhile (\<lambda>c. c = CHR ''='') s in
     if CHR ''='' \<in> set b then Some (takeWhile (\<lambda>c. c \<noteq> CHR ''='') b, tl (dropWhile (\<lambda>c. c \<noteq> CHR ''='') b)) else None)"

definition qs_pairs :: "string \<Rightarrow> (string \<times> string) list" where
  "qs_pairs t = List.map_filter qs_pair (split_at (CHR ''&'') t)"

definition qs_view :: "nat \<Rightarrow> duda_qs_entry list \<Rightarrow> (string \<times> string) list" where
  "qs_view n es = map (\<lambda>e. (ptr_text (qs_key e), ptr_text (qs_value e))) (take n es)"

text \<open>The pointers of an entry are readable for their whole length.\<close>

definition ptr_ok :: "mk_ptr \<Rightarrow> bool" where
  "ptr_ok p \<longleftrightarrow> (\<exists>b. ptr_data p = Some b \<and> ptr_len p \<le> length b)"

definition qs_entry_ok :: "duda_qs_entry \<Rightarrow> bool" where
  "qs_entry_ok e \<longleftrightarrow> ptr_ok (qs_key e) \<and> ptr_ok (qs_value e)"

definition qs_result ::
    "(string \<times> string) list \<Rightarrow> (nat \<times> duda_qs_entry list) run \<Rightarrow> bool" where
  "qs_result ps m \<longleftrightarrow>
     (if length ps \<le> 32 then \<exists>es. m = Inr (length ps, es) \<and> qs_view (length ps) es = ps \<and> length es = 32 \<and>
        list_all qs_entry_ok (take (length ps) es)
      else m = Inl OutOfBounds)"
section \<open>The parser computes the reference\<close>

lemma map_filter_append: "List.map_filter f (xs @ ys) = List.map_filter f xs @ List.map_filter f ys"
  by (simp add: List.map_filter_def)

lemma qs_result_full:
  assumes "length P = 32" and "X \<noteq> []" and "m = Inl OutOfBounds"
  shows "qs_result (P @ X) m"
  using assms by (cases X) (simp_all add: qs_result_def)

lemma qs_view_update:
  assumes "n < length es" and "ptr_text (qs_key e) = k" and "ptr_text (qs_value e) = v"
  shows "qs_view (Suc n) (es[n := e]) = qs_view n es @ [(k, v)]"
  using assms by (simp add: qs_view_def take_Suc_nth)

lemma qs_view_key: "qs_view n (es[n := e]) = qs_view n es"
  by (simp add: qs_view_def)

text \<open>
  The three states of the loop after the part \<open>p\<close> of the query string, with \<open>u\<close> to come: before
  a key, inside the key \<open>a\<close>, and inside the value \<open>b\<close> of a key that is already stored. \<open>X\<close> is what
  the rest of the run adds to the entries.
\<close>

definition before_key :: "nat option \<Rightarrow> nat option \<Rightarrow> string \<Rightarrow> (string \<times> string) list \<Rightarrow> bool" where
  "before_key key val u X \<longleftrightarrow> key = None \<and> val = None \<and> X = qs_pairs u"

definition in_key :: "string \<Rightarrow> nat option \<Rightarrow> nat option \<Rightarrow> string \<Rightarrow> (string \<times> string) list \<Rightarrow> bool" where
  "in_key p key val u X \<longleftrightarrow> (\<exists>q a. p = q @ a \<and> key = Some (length q) \<and> val = None \<and> a \<noteq> [] \<and>
     CHR ''='' \<notin> set a \<and> CHR ''&'' \<notin> set a \<and> X = qs_pairs (a @ u))"

definition in_value ::
    "string \<Rightarrow> nat option \<Rightarrow> nat option \<Rightarrow> nat \<Rightarrow> duda_qs_entry list \<Rightarrow> string \<Rightarrow> (string \<times> string) list \<Rightarrow> bool" where
  "in_value p key val cnt es u X \<longleftrightarrow> (\<exists>q b k. p = q @ CHR ''='' # b \<and> key = Some k \<and> val = Some (length q) \<and>
     CHR ''&'' \<notin> set b \<and> cnt < 32 \<and> ptr_ok (qs_key (es ! cnt)) \<and>
     X = (ptr_text (qs_key (es ! cnt)), hd (split_at (CHR ''&'') (b @ u))) #
         List.map_filter qs_pair (tl (split_at (CHR ''&'') (b @ u))))"

definition qs_phase ::
    "string \<Rightarrow> nat option \<Rightarrow> nat option \<Rightarrow> nat \<Rightarrow> duda_qs_entry list \<Rightarrow> string \<Rightarrow> (string \<times> string) list \<Rightarrow> bool" where
  "qs_phase p key val cnt es u X \<longleftrightarrow> length es = 32 \<and> cnt \<le> 32 \<and> list_all qs_entry_ok (take cnt es) \<and>
     (before_key key val u X \<or> in_key p key val u X \<or> in_value p key val cnt es u X)"

lemma map_filter_simps [simp]:
  "List.map_filter f [] = []"
  "List.map_filter f (x # xs) = (case f x of None \<Rightarrow> [] | Some y \<Rightarrow> [y]) @ List.map_filter f xs"
  by (auto simp: List.map_filter_def split: option.splits)

lemma qs_pair_no_value: "CHR ''='' \<notin> set a \<Longrightarrow> qs_pair a = None"
  by (cases a) (auto simp: qs_pair_def)

lemma dropWhile_before: "c \<notin> set s \<Longrightarrow> dropWhile (\<lambda>x. x \<noteq> c) (s @ c # t) = c # t"
  by (induction s) auto

lemma qs_pair_value: "a \<noteq> [] \<Longrightarrow> CHR ''='' \<notin> set a \<Longrightarrow> qs_pair (a @ CHR ''='' # v) = Some (a, v)"
  by (cases a) (auto simp: qs_pair_def takeWhile_before dropWhile_before)

lemma qs_pair_skip: "qs_pair (CHR ''='' # s) = qs_pair s"
  by (simp add: qs_pair_def)

lemma qs_pairs_Nil [simp]: "qs_pairs [] = []"
  by (simp add: qs_pairs_def qs_pair_no_value)

lemma qs_pairs_Cons:
  "qs_pairs (CHR ''&'' # u) = qs_pairs u"
  "qs_pairs (CHR ''='' # u) = qs_pairs u"
proof -
  obtain s ss where ss: "split_at (CHR ''&'') u = s # ss" by (cases "split_at (CHR ''&'') u") auto
  show "qs_pairs (CHR ''&'' # u) = qs_pairs u" by (simp add: qs_pairs_def qs_pair_no_value)
  show "qs_pairs (CHR ''='' # u) = qs_pairs u" by (simp add: qs_pairs_def ss qs_pair_skip)
qed

lemma qs_pairs_key:
  assumes "a \<noteq> []" "CHR ''='' \<notin> set a" "CHR ''&'' \<notin> set a"
  shows "qs_pairs (a @ CHR ''&'' # u) = qs_pairs u"
    and "qs_pairs (a @ CHR ''='' # u) = (a, hd (split_at (CHR ''&'') u)) #
      List.map_filter qs_pair (tl (split_at (CHR ''&'') u))"
    and "qs_pairs a = []"
proof -
  show "qs_pairs (a @ CHR ''&'' # u) = qs_pairs u" "qs_pairs a = []"
    using assms by (simp_all add: qs_pairs_def split_at_append_sep split_at_none qs_pair_no_value)
  obtain s ss where ss: "split_at (CHR ''&'') u = s # ss" by (cases "split_at (CHR ''&'') u") auto
  have "split_at (CHR ''&'') (x @ u) = (x @ s) # ss" if "CHR ''&'' \<notin> set x" for x
    using that by (induction x) (auto simp: ss)
  from this [of "a @ ''=''"] assms ss show "qs_pairs (a @ CHR ''='' # u) = (a, hd (split_at (CHR ''&'') u)) #
      List.map_filter qs_pair (tl (split_at (CHR ''&'') u))"
    by (simp add: qs_pairs_def qs_pair_value)
qed

text \<open>One step of the loop on the byte \<open>c\<close>: it stays in a state, or the array is full.\<close>

definition qs_step_ok ::
    "string \<Rightarrow> string \<Rightarrow> string \<Rightarrow> nat option \<Rightarrow> nat option \<Rightarrow> nat \<Rightarrow> duda_qs_entry list \<Rightarrow> (string \<times> string) list \<Rightarrow>
     string \<Rightarrow> char \<Rightarrow> bool" where
  "qs_step_ok t r p key val cnt es X u c \<longleftrightarrow>
     (\<exists>key' val' cnt' es' X'. qs_parse_loop (t @ r) (length t) (length p) key val cnt es =
         qs_parse_loop (t @ r) (length t) (length (p @ [c])) key' val' cnt' es' \<and>
       qs_phase (p @ [c]) key' val' cnt' es' u X' \<and> qs_view cnt es @ X = qs_view cnt' es' @ X') \<or>
     cnt = 32 \<and> length es = 32 \<and> X \<noteq> [] \<and>
     qs_parse_loop (t @ r) (length t) (length p) key val cnt es = Inl OutOfBounds"

lemma qs_step_okI:
  "qs_parse_loop (t @ r) (length t) (length p) key val cnt es =
     qs_parse_loop (t @ r) (length t) (length (p @ [c])) key' val' cnt' es' \<Longrightarrow>
   qs_phase (p @ [c]) key' val' cnt' es' u X' \<Longrightarrow> qs_view cnt es @ X = qs_view cnt' es' @ X' \<Longrightarrow>
   qs_step_ok t r p key val cnt es X u c"
  unfolding qs_step_ok_def by blast

lemma qs_rd: "t = p @ c # u \<Longrightarrow> rd (t @ r) (length p) = Inr c \<and> length p < length t"
  by (simp add: nth_append)

lemma qs_step_before_key:
  assumes "t = p @ c # u" "length es = 32" "cnt \<le> 32" "before_key key val (c # u) X" "list_all qs_entry_ok (take cnt es)"
  shows "qs_step_ok t r p key val cnt es X u c"
proof -
  note rd = qs_rd [OF assms(1), of r]
  from assms(4) have st: "key = None" "val = None" "X = qs_pairs (c # u)" by (auto simp: before_key_def)
  show ?thesis
  proof (cases "c = CHR ''&'' \<or> c = CHR ''=''")
    case True
    show ?thesis
    proof (rule qs_step_okI)
      show "qs_parse_loop (t @ r) (length t) (length p) key val cnt es =
          qs_parse_loop (t @ r) (length t) (length (p @ [c])) None None cnt es"
        using rd True by (subst qs_parse_loop.simps) (auto simp: st qs_set_value_def)
      show "qs_phase (p @ [c]) None None cnt es u (qs_pairs u)"
        using assms by (simp add: qs_phase_def before_key_def)
    qed (use True in \<open>auto simp: st qs_pairs_Cons\<close>)
  next
    case False
    show ?thesis
    proof (rule qs_step_okI)
      show "qs_parse_loop (t @ r) (length t) (length p) key val cnt es =
          qs_parse_loop (t @ r) (length t) (length (p @ [c])) (Some (length p)) None cnt es"
        using rd False by (subst qs_parse_loop.simps) (auto simp: st)
      have "in_key (p @ [c]) (Some (length p)) None u X"
        unfolding in_key_def using False by (intro exI [of _ p] exI [of _ "[c]"]) (auto simp: st)
      then show "qs_phase (p @ [c]) (Some (length p)) None cnt es u X" using assms by (simp add: qs_phase_def)
    qed simp
  qed
qed

lemma qs_step_in_key:
  assumes "t = p @ c # u" "length es = 32" "cnt \<le> 32" "in_key p key val (c # u) X" "list_all qs_entry_ok (take cnt es)"
  shows "qs_step_ok t r p key val cnt es X u c"
proof -
  note rd = qs_rd [OF assms(1), of r]
  from assms(4) obtain q a where st: "p = q @ a" "key = Some (length q)" "val = None" "a \<noteq> []"
    "CHR ''='' \<notin> set a" "CHR ''&'' \<notin> set a" "X = qs_pairs (a @ c # u)" by (auto simp: in_key_def)
  consider (amp) "c = CHR ''&''" | (eq) "c = CHR ''=''" | (other) "c \<noteq> CHR ''&''" "c \<noteq> CHR ''=''" by blast
  then show ?thesis
  proof cases
    case amp
    show ?thesis
    proof (rule qs_step_okI)
      show "qs_parse_loop (t @ r) (length t) (length p) key val cnt es =
          qs_parse_loop (t @ r) (length t) (length (p @ [c])) None None cnt es"
        using rd amp by (subst qs_parse_loop.simps) (auto simp: st qs_set_value_def)
      show "qs_phase (p @ [c]) None None cnt es u (qs_pairs u)"
        using assms by (simp add: qs_phase_def before_key_def)
    qed (use amp st in \<open>simp add: qs_pairs_key\<close>)
  next
    case other
    show ?thesis
    proof (rule qs_step_okI)
      show "qs_parse_loop (t @ r) (length t) (length p) key val cnt es =
          qs_parse_loop (t @ r) (length t) (length (p @ [c])) key None cnt es"
        using rd other by (subst qs_parse_loop.simps) (auto simp: st)
      have "in_key (p @ [c]) key None u X"
        unfolding in_key_def using other by (intro exI [of _ q] exI [of _ "a @ [c]"]) (auto simp: st)
      then show "qs_phase (p @ [c]) key None cnt es u X" using assms by (simp add: qs_phase_def)
    qed simp
  next
    case eq
    have X: "X = (a, hd (split_at (CHR ''&'') u)) # List.map_filter qs_pair (tl (split_at (CHR ''&'') u))"
      using st eq by (simp add: qs_pairs_key)
    show ?thesis
    proof (cases "cnt = 32")
      case True
      then have "qs_parse_loop (t @ r) (length t) (length p) key val cnt es = Inl OutOfBounds"
        using rd eq assms(2) by (subst qs_parse_loop.simps) (simp add: st rd_bad)
      with True X assms(2) show ?thesis by (simp add: qs_step_ok_def)
    next
      case False
      let ?e = "(es ! cnt)\<lparr>qs_key := \<lparr>ptr_data = Some (drop (length q) (t @ r)), ptr_len = length a\<rparr>\<rparr>"
      have "drop (length q) (t @ r) = a @ c # u @ r" using assms(1) st(1) by simp
      then have key: "ptr_text (qs_key ?e) = a" "ptr_ok (qs_key ?e)" by (simp_all add: ptr_text_def ptr_ok_def)
      show ?thesis
      proof (rule qs_step_okI)
        show "qs_parse_loop (t @ r) (length t) (length p) key val cnt es =
            qs_parse_loop (t @ r) (length t) (length (p @ [c])) key (Some (length p)) cnt (es[cnt := ?e])"
          using rd eq False assms(2,3) by (subst qs_parse_loop.simps) (simp add: st)
        have "in_value (p @ [c]) key (Some (length p)) cnt (es[cnt := ?e]) u X"
          unfolding in_value_def using eq False assms(2,3) key X st
          by (intro exI [of _ p] exI [of _ "[]"] exI [of _ "length q"]) simp
        then show "qs_phase (p @ [c]) key (Some (length p)) cnt (es[cnt := ?e]) u X"
          using assms by (simp add: qs_phase_def)
      qed (simp add: qs_view_key)
    qed
  qed
qed

lemma qs_step_in_value:
  assumes "t = p @ c # u" "length es = 32" "cnt \<le> 32" "in_value p key val cnt es (c # u) X" "list_all qs_entry_ok (take cnt es)"
  shows "qs_step_ok t r p key val cnt es X u c"
proof -
  note rd = qs_rd [OF assms(1), of r]
  from assms(4) obtain q b k where st: "p = q @ CHR ''='' # b" "key = Some k" "val = Some (length q)"
    "CHR ''&'' \<notin> set b" "cnt < 32" and ok: "ptr_ok (qs_key (es ! cnt))" and X:
    "X = (ptr_text (qs_key (es ! cnt)), hd (split_at (CHR ''&'') (b @ c # u))) #
         List.map_filter qs_pair (tl (split_at (CHR ''&'') (b @ c # u)))" by (auto simp: in_value_def)
  show ?thesis
  proof (cases "c = CHR ''&''")
    case True
    let ?e = "(es ! cnt)\<lparr>qs_value := \<lparr>ptr_data = Some (drop (length q + 1) (t @ r)), ptr_len = length b\<rparr>\<rparr>"
    have "drop (length q + 1) (t @ r) = b @ c # u @ r" using assms(1) st(1) by simp
    then have val: "ptr_text (qs_value ?e) = b" "qs_entry_ok ?e"
      using ok by (simp_all add: ptr_text_def qs_entry_ok_def ptr_ok_def)
    show ?thesis
    proof (rule qs_step_okI)
      show "qs_parse_loop (t @ r) (length t) (length p) key val cnt es =
          qs_parse_loop (t @ r) (length t) (length (p @ [c])) None None (Suc cnt) (es[cnt := ?e])"
        using rd True assms(2) st(5) by (subst qs_parse_loop.simps) (simp add: st qs_set_value_def)
      show "qs_phase (p @ [c]) None None (Suc cnt) (es[cnt := ?e]) u (qs_pairs u)"
        using assms st(5) val(2) by (simp add: qs_phase_def before_key_def take_Suc_nth)
      show "qs_view cnt es @ X = qs_view (Suc cnt) (es[cnt := ?e]) @ qs_pairs u"
        using qs_view_update [of cnt es ?e _ b] val True st X assms(2) by (simp add: split_at_append_sep qs_pairs_def)
    qed
  next
    case False
    show ?thesis
    proof (rule qs_step_okI)
      show "qs_parse_loop (t @ r) (length t) (length p) key val cnt es =
          qs_parse_loop (t @ r) (length t) (length (p @ [c])) key val cnt es"
        using rd False by (subst qs_parse_loop.simps) (auto simp: st)
      have "in_value (p @ [c]) key val cnt es u X"
        unfolding in_value_def using False st ok X by (intro exI [of _ q] exI [of _ "b @ [c]"] exI [of _ k]) auto
      then show "qs_phase (p @ [c]) key val cnt es u X" using assms by (simp add: qs_phase_def)
    qed simp
  qed
qed

lemma qs_parse_loop_end:
  assumes "qs_phase t key val cnt es [] X"
  shows "qs_result (qs_view cnt es @ X) (qs_parse_loop (t @ r) (length t) (length t) key val cnt es)"
proof -
  from assms have es: "length es = 32" "cnt \<le> 32" "list_all qs_entry_ok (take cnt es)" by (auto simp: qs_phase_def)
  have view: "length (qs_view cnt es) = cnt" using es by (simp add: qs_view_def)
  have loop: "qs_parse_loop (t @ r) (length t) (length t) key val cnt es = qs_set_value (t @ r) (length t) key val cnt es"
    by (subst qs_parse_loop.simps) simp
  consider (k) "before_key key val [] X \<or> in_key t key val [] X" | (v) "in_value t key val cnt es [] X"
    using assms by (auto simp: qs_phase_def)
  then show ?thesis
  proof cases
    case k
    then have "X = []" "val = None" by (auto simp: before_key_def in_key_def qs_pairs_key(3))
    with es view show ?thesis unfolding loop by (auto simp: qs_set_value_def qs_result_def split: option.splits)
  next
    case v
    then obtain q b k where st: "t = q @ CHR ''='' # b" "key = Some k" "val = Some (length q)"
      "CHR ''&'' \<notin> set b" "cnt < 32" "ptr_ok (qs_key (es ! cnt))" "X = [(ptr_text (qs_key (es ! cnt)), b)]"
      by (auto simp: in_value_def split_at_none)
    let ?e = "(es ! cnt)\<lparr>qs_value := \<lparr>ptr_data = Some (drop (length q + 1) (t @ r)), ptr_len = length b\<rparr>\<rparr>"
    have "drop (length q + 1) (t @ r) = b @ r" using st(1) by simp
    then have val: "ptr_text (qs_value ?e) = b" "qs_entry_ok ?e"
      using st(6) by (simp_all add: ptr_text_def qs_entry_ok_def ptr_ok_def)
    have "qs_set_value (t @ r) (length t) key val cnt es = Inr (Suc cnt, es[cnt := ?e])"
      using st es by (simp add: qs_set_value_def)
    moreover have "qs_view (Suc cnt) (es[cnt := ?e]) = qs_view cnt es @ X"
      using qs_view_update [of cnt es ?e _ b] val(1) st es(1) by simp
    ultimately show ?thesis
      using es st view val(2) unfolding loop by (simp add: qs_result_def take_Suc_nth)
  qed
qed

lemma qs_parse_loop_phase:
  assumes "t = p @ u" "qs_phase p key val cnt es u X"
  shows "qs_result (qs_view cnt es @ X) (qs_parse_loop (t @ r) (length t) (length p) key val cnt es)"
  using assms
proof (induction u arbitrary: p key val cnt es X)
  case Nil
  then show ?case using qs_parse_loop_end [of p key val cnt es X r] by simp
next
  case (Cons c u)
  have "qs_step_ok t r p key val cnt es X u c"
  proof -
    from Cons.prems(2) have es: "length es = 32" "cnt \<le> 32" "list_all qs_entry_ok (take cnt es)"
      and "before_key key val (c # u) X \<or> in_key p key val (c # u) X \<or> in_value p key val cnt es (c # u) X"
      by (auto simp: qs_phase_def)
    from this(4) show ?thesis
      using qs_step_before_key [OF Cons.prems(1) es(1,2) _ es(3)] qs_step_in_key [OF Cons.prems(1) es(1,2) _ es(3)]
        qs_step_in_value [OF Cons.prems(1) es(1,2) _ es(3)] by (elim disjE)
  qed
  then show ?case
    unfolding qs_step_ok_def
  proof
    assume "\<exists>key' val' cnt' es' X'. qs_parse_loop (t @ r) (length t) (length p) key val cnt es =
         qs_parse_loop (t @ r) (length t) (length (p @ [c])) key' val' cnt' es' \<and>
       qs_phase (p @ [c]) key' val' cnt' es' u X' \<and> qs_view cnt es @ X = qs_view cnt' es' @ X'"
    with Cons.IH [of "p @ [c]"] Cons.prems(1) show ?thesis by auto
  next
    assume full: "cnt = 32 \<and> length es = 32 \<and> X \<noteq> [] \<and>
      qs_parse_loop (t @ r) (length t) (length p) key val cnt es = Inl OutOfBounds"
    then have "length (qs_view cnt es) = 32" by (simp add: qs_view_def)
    with full show ?thesis by (intro qs_result_full) auto
  qed
qed

definition qs_request_ok :: "qs_request \<Rightarrow> string \<Rightarrow> string \<Rightarrow> bool" where
  "qs_request_ok dr t r \<longleftrightarrow> qr_query_string dr = \<lparr>ptr_data = Some (t @ r), ptr_len = length t\<rparr> \<and>
     length (qs_entries (qr_qs dr)) = 32"

lemma duda_qs_parse_result:
  assumes "qs_request_ok dr t r"
  shows "if length (qs_pairs t) \<le> 32
     then \<exists>es. duda_qs_parse dr = Inr (int (length (qs_pairs t)),
            dr\<lparr>qr_qs := \<lparr>qs_count = int (length (qs_pairs t)), qs_entries = es\<rparr>\<rparr>) \<and>
          qs_view (length (qs_pairs t)) es = qs_pairs t \<and> length es = 32 \<and>
          list_all qs_entry_ok (take (length (qs_pairs t)) es)
     else duda_qs_parse dr = Inl OutOfBounds"
proof -
  have "qs_phase [] None None 0 (qs_entries (qr_qs dr)) t (qs_pairs t)"
    using assms by (simp add: qs_phase_def before_key_def qs_request_ok_def)
  from qs_parse_loop_phase [OF _ this, of t r] have
    "qs_result (qs_pairs t) (qs_parse_loop (t @ r) (length t) 0 None None 0 (qs_entries (qr_qs dr)))"
    by (simp add: qs_view_def)
  then show ?thesis
    using assms by (auto simp: qs_result_def duda_qs_parse_def qs_request_ok_def split: if_splits)
qed

section \<open>Lookups among the entries\<close>

lemma ptr_strncmp_eq_key:
  assumes "ptr_ok p" "ptr_len p = length key" "no_nul key"
  shows "ptr_strncmp_eq p (key @ x) (length key) = Inr (ptr_text p = key)"
proof -
  from assms obtain b where "ptr_data p = Some b" "length key \<le> length b" by (auto simp: ptr_ok_def)
  with assms strncmp_eq_prefix [of key b x] show ?thesis by (simp add: ptr_strncmp_eq_def ptr_text_def)
qed

lemma ptr_text_length: "ptr_ok p \<Longrightarrow> length (ptr_text p) = ptr_len p"
  by (auto simp: ptr_ok_def ptr_text_def)

lemma ptr_strncmp_eq_prefix:
  assumes "ptr_ok p" "no_nul (ptr_text p)"
  shows "ptr_strncmp_eq p (cstr key) (ptr_len p) = Inr (take (ptr_len p) key = ptr_text p)"
proof -
  from assms obtain b where b: "ptr_data p = Some b" "ptr_len p \<le> length b" by (auto simp: ptr_ok_def)
  then have len: "ptr_len p = length (ptr_text p)" and "b = ptr_text p @ drop (ptr_len p) b"
    by (simp_all add: ptr_text_def)
  moreover have "strncmp_eq (ptr_text p @ drop (ptr_len p) b) (key @ NUL # []) (length (ptr_text p)) =
      Inr (take (length (ptr_text p)) key = ptr_text p)"
    using assms(2) by (intro strncmp_eq_text_right) (auto simp: no_nul_def)
  ultimately show ?thesis using b by (auto simp: ptr_strncmp_eq_def cstr_def ptr_text_def)
qed

lemma qs_get_loop_find:
  assumes "no_nul key" "i + n \<le> length es" "list_all qs_entry_ok (slice i n es)"
  shows "qs_get_loop es n (key @ x) (length key) i = Inr (find (\<lambda>e. ptr_text (qs_key e) = key) (slice i n es))"
  using assms(2,3)
proof (induction n arbitrary: i)
  case (Suc n)
  then have sl: "slice i (Suc n) es = es ! i # slice (Suc i) n es" by (simp add: drop_nth_Suc [of i es])
  with Suc.prems have ok: "ptr_ok (qs_key (es ! i))" by (simp add: qs_entry_ok_def)
  from ok have "ptr_len (qs_key (es ! i)) \<noteq> length key \<Longrightarrow> ptr_text (qs_key (es ! i)) \<noteq> key"
    using ptr_text_length by fastforce
  with ok Suc sl ptr_strncmp_eq_key [OF ok _ assms(1), of x] show ?case by simp
qed simp

lemma qs_cmp_loop_ex:
  assumes "i + n \<le> length es" "list_all qs_entry_ok (slice i n es)"
    and "\<forall>e\<in>set (slice i n es). no_nul (ptr_text (qs_key e)) \<and> no_nul (ptr_text (qs_value e))"
  shows "qs_cmp_loop es n (cstr key) (cstr value) i =
    Inr (if \<exists>e\<in>set (slice i n es). take (length (ptr_text (qs_key e))) key = ptr_text (qs_key e) \<and>
           take (length (ptr_text (qs_value e))) value = ptr_text (qs_value e) then 0 else -1)"
  using assms
proof (induction n arbitrary: i)
  case (Suc n)
  then have sl: "slice i (Suc n) es = es ! i # slice (Suc i) n es" by (simp add: drop_nth_Suc [of i es])
  with Suc.prems have ok: "ptr_ok (qs_key (es ! i))" "ptr_ok (qs_value (es ! i))"
      "no_nul (ptr_text (qs_key (es ! i)))" "no_nul (ptr_text (qs_value (es ! i)))"
    by (auto simp: qs_entry_ok_def)
  from Suc sl show ?case
    by (simp add: ptr_strncmp_eq_prefix [OF ok(1,3)] ptr_strncmp_eq_prefix [OF ok(2,4)]
        ptr_text_length [OF ok(1)] ptr_text_length [OF ok(2)])
qed simp

lemma find_map_of:
  "map_of (map (\<lambda>e. (f e, g e)) xs) key = map_option g (find (\<lambda>e. f e = key) xs)"
  by (induction xs) auto

lemma qs_pair_subset: "qs_pair s = Some (k, v) \<Longrightarrow> set k \<subseteq> set s \<and> set v \<subseteq> set s"
proof -
  assume "qs_pair s = Some (k, v)"
  then have k: "k = takeWhile (\<lambda>c. c \<noteq> CHR ''='') (dropWhile (\<lambda>c. c = CHR ''='') s)"
    and v: "v = tl (dropWhile (\<lambda>c. c \<noteq> CHR ''='') (dropWhile (\<lambda>c. c = CHR ''='') s))"
    by (auto simp: qs_pair_def Let_def split: if_splits)
  have tl: "set (tl xs) \<subseteq> set xs" for xs :: string by (cases xs) auto
  have d: "set (dropWhile P xs) \<subseteq> set xs" and t: "set (takeWhile P xs) \<subseteq> set xs" for P and xs :: string
    by (auto dest: set_dropWhileD set_takeWhileD)
  have "set k \<subseteq> set s" unfolding k by (rule order_trans [OF t d])
  moreover have "set v \<subseteq> set s" unfolding v by (rule order_trans [OF tl order_trans [OF d d]])
  ultimately show ?thesis by simp
qed

lemma qs_pairs_no_nul:
  assumes "no_nul t" "(k, v) \<in> set (qs_pairs t)"
  shows "no_nul k \<and> no_nul v"
proof -
  from assms(2) obtain s where "s \<in> set (split_at (CHR ''&'') t)" "qs_pair s = Some (k, v)"
    by (auto simp: qs_pairs_def List.map_filter_def)
  with split_at_subset [of s "CHR ''&''" t] qs_pair_subset [of s k v] assms(1) show ?thesis
    unfolding no_nul_def by blast
qed

section \<open>Properties\<close>

definition example_qs :: "string \<Rightarrow> qs_request" where
  "example_qs t = \<lparr>qr_qs = \<lparr>qs_count = 0, qs_entries =
       replicate 32 \<lparr>qs_key = \<lparr>ptr_data = None, ptr_len = 0\<rparr>, qs_value = \<lparr>ptr_data = None, ptr_len = 0\<rparr>\<rparr>\<rparr>,
     qr_query_string = \<lparr>ptr_data = Some (t @ '' HTTP''), ptr_len = length t\<rparr>, qr_gc = snd (duda_gc_init True)\<rparr>"

lemma example_qs_ok: "qs_request_ok (example_qs t) t '' HTTP''"
  by (simp add: qs_request_ok_def example_qs_def)

text \<open>
  C2. Parsing the query string: with at most 32 pairs the parser stores exactly the key and value
  pairs of the query string, in order, and returns their number; a segment without \<open>=\<close> or without
  a key is skipped. With more than 32 pairs it writes past the end of the entries array: the array
  size is never checked.
\<close>

theorem duda_qs_parse_pairs:
  assumes "qs_request_ok dr t r"
  shows "if length (qs_pairs t) \<le> 32
     then \<exists>es. duda_qs_parse dr = Inr (int (length (qs_pairs t)),
            dr\<lparr>qr_qs := \<lparr>qs_count = int (length (qs_pairs t)), qs_entries = es\<rparr>\<rparr>) \<and>
          qs_view (length (qs_pairs t)) es = qs_pairs t
     else duda_qs_parse dr = Inl OutOfBounds"
  using duda_qs_parse_result [OF assms] by (auto split: if_splits)

theorem duda_qs_parse_pairs_witness:
  "\<exists>es. duda_qs_parse (example_qs ''a=1&b&c=2'') =
      Inr (2, (example_qs ''a=1&b&c=2'')\<lparr>qr_qs := \<lparr>qs_count = 2, qs_entries = es\<rparr>\<rparr>) \<and>
    qs_view 2 es = [(''a'', ''1''), (''c'', ''2'')]"
proof -
  have "qs_pairs ''a=1&b&c=2'' = [(''a'', ''1''), (''c'', ''2'')]" by code_simp
  then show ?thesis
    using duda_qs_parse_pairs [OF example_qs_ok, of "''a=1&b&c=2''"] by (simp add: numeral_2_eq_2)
qed

text \<open>
  After parsing, \<open>get\<close> returns a copy of the value of the first pair with exactly the given
  key and registers it with the garbage collector, and returns \<open>NULL\<close> when there is none.
\<close>

theorem duda_qs_get_first:
  assumes "qs_request_ok dr t r" "length (qs_pairs t) \<le> 32" "mk_string_ok api" "no_nul key"
    and "gc_wf (qr_gc dr)" "gc_used (qr_gc dr) < gc_size (qr_gc dr)"
  shows "\<exists>n dr'. duda_qs_parse dr = Inr (n, dr') \<and>
    (case map_of (qs_pairs t) key of
       None \<Rightarrow> duda_qs_get api realloc addr dr' (cstr key) = Inr (None, dr')
     | Some v \<Rightarrow> \<exists>gc. duda_qs_get api realloc addr dr' (cstr key) = Inr (Some (cstr v), dr'\<lparr>qr_gc := gc\<rparr>) \<and>
         gc_wf gc \<and> gc_live gc = add_mset addr (gc_live (qr_gc dr)))"
proof -
  let ?n = "length (qs_pairs t)"
  from duda_qs_parse_result [OF assms(1)] assms(2) obtain es where
    parse: "duda_qs_parse dr = Inr (int ?n, dr\<lparr>qr_qs := \<lparr>qs_count = int ?n, qs_entries = es\<rparr>\<rparr>)"
    and es: "qs_view ?n es = qs_pairs t" "length es = 32" "list_all qs_entry_ok (take ?n es)" by auto
  let ?dr = "dr\<lparr>qr_qs := \<lparr>qs_count = int ?n, qs_entries = es\<rparr>\<rparr>"
  let ?found = "find (\<lambda>e. ptr_text (qs_key e) = key) (take ?n es)"
  have get: "qs_get_loop es ?n (cstr key) (strlen (cstr key)) 0 = Inr ?found"
    using qs_get_loop_find [OF assms(4), of 0 ?n es "[NUL]"] es assms(2,4) by (simp add: cstr_def)
  have "map_of (qs_view ?n es) key = map_option (\<lambda>e. ptr_text (qs_value e)) ?found"
    unfolding qs_view_def by (rule find_map_of)
  then have mo: "map_of (qs_pairs t) key = map_option (\<lambda>e. ptr_text (qs_value e)) ?found" by (simp add: es(1))
  have "case map_of (qs_pairs t) key of
       None \<Rightarrow> duda_qs_get api realloc addr ?dr (cstr key) = Inr (None, ?dr)
     | Some v \<Rightarrow> \<exists>gc. duda_qs_get api realloc addr ?dr (cstr key) = Inr (Some (cstr v), ?dr\<lparr>qr_gc := gc\<rparr>) \<and>
         gc_wf gc \<and> gc_live gc = add_mset addr (gc_live (qr_gc dr))"
  proof (cases ?found)
    case None
    with get mo show ?thesis by (auto simp: duda_qs_get_def)
  next
    case (Some e)
    then have "e \<in> set (take ?n es)" by (metis find_Some_iff nth_mem)
    with es(3) obtain b where b: "ptr_data (qs_value e) = Some b" "ptr_len (qs_value e) \<le> length b"
      by (auto simp: list_all_iff qs_entry_ok_def ptr_ok_def)
    have "mk_string_copy_substr api b 0 (int (ptr_len (qs_value e))) = Some (cstr (ptr_text (qs_value e)))"
      using mk_string_okD(3) [OF assms(3), of "[]" "take (ptr_len (qs_value e)) b" "drop (ptr_len (qs_value e)) b"] b
      by (simp add: ptr_text_def)
    moreover have "?n \<noteq> 0" using \<open>e \<in> set (take ?n es)\<close> by auto
    ultimately show ?thesis
      using duda_gc_add_room [OF assms(5,6), of realloc addr] get mo b Some
      by (auto simp: duda_qs_get_def qs_copy_value_def)
  qed
  with parse show ?thesis by blast
qed

theorem duda_qs_get_first_witness:
  "\<exists>n dr'. duda_qs_parse (example_qs ''a=1&a=2'') = Inr (n, dr') \<and>
     (\<exists>gc. duda_qs_get mk_string_ref (\<lambda>_ _. None) 5 dr' (cstr ''a'') = Inr (Some (cstr ''1''), dr'\<lparr>qr_gc := gc\<rparr>) \<and>
       gc_wf gc \<and> gc_live gc = add_mset 5 (gc_live (qr_gc (example_qs ''a=1&a=2''))))"
proof -
  have "qs_pairs ''a=1&a=2'' = [(''a'', ''1''), (''a'', ''2'')]" by code_simp
  moreover have "gc_wf (qr_gc (example_qs t))" "gc_used (qr_gc (example_qs t)) < gc_size (qr_gc (example_qs t))" for t
    by (simp_all add: example_qs_def gc_wf_init)
  ultimately show ?thesis
    using duda_qs_get_first [OF example_qs_ok, of "''a=1&a=2''" mk_string_ref "''a''" "\<lambda>_ _. None" 5] mk_string_ref_ok by simp
qed

text \<open>
  \<open>cmp\<close> compares only as many bytes as the stored key and value have: it returns 0 exactly
  when some pair has a key that is a prefix of the given key and a value that is a prefix of the
  given value, so the pair \<open>a=1\<close> answers a comparison with the key \<open>abc\<close> and the value \<open>1xyz\<close>.
\<close>

theorem duda_qs_cmp_prefix:
  assumes "qs_request_ok dr t r" "length (qs_pairs t) \<le> 32" "no_nul t"
  shows "\<exists>n dr'. duda_qs_parse dr = Inr (n, dr') \<and>
    duda_qs_cmp dr' (cstr key) (cstr value) =
      Inr (if \<exists>(k, v)\<in>set (qs_pairs t). take (length k) key = k \<and> take (length v) value = v then 0 else -1)"
proof -
  let ?n = "length (qs_pairs t)"
  from duda_qs_parse_result [OF assms(1)] assms(2) obtain es where
    parse: "duda_qs_parse dr = Inr (int ?n, dr\<lparr>qr_qs := \<lparr>qs_count = int ?n, qs_entries = es\<rparr>\<rparr>)"
    and es: "qs_view ?n es = qs_pairs t" "length es = 32" "list_all qs_entry_ok (take ?n es)" by auto
  have set: "set (qs_pairs t) = (\<lambda>e. (ptr_text (qs_key e), ptr_text (qs_value e))) ` set (take ?n es)"
    by (subst es(1) [symmetric]) (simp only: qs_view_def set_map)
  have "\<forall>e\<in>set (take ?n es). no_nul (ptr_text (qs_key e)) \<and> no_nul (ptr_text (qs_value e))"
    using qs_pairs_no_nul [OF assms(3)] unfolding set by blast
  then have "qs_cmp_loop es ?n (cstr key) (cstr value) 0 =
      Inr (if \<exists>(k, v)\<in>set (qs_pairs t). take (length k) key = k \<and> take (length v) value = v then 0 else -1)"
    using qs_cmp_loop_ex [of 0 ?n es key "value"] es assms(2) unfolding set by simp
  moreover have "?n = 0 \<Longrightarrow> set (qs_pairs t) = {}" by simp
  ultimately have "duda_qs_cmp (dr\<lparr>qr_qs := \<lparr>qs_count = int ?n, qs_entries = es\<rparr>\<rparr>) (cstr key) (cstr value) =
      Inr (if \<exists>(k, v)\<in>set (qs_pairs t). take (length k) key = k \<and> take (length v) value = v then 0 else -1)"
    by (cases "?n = 0") (simp_all add: duda_qs_cmp_def)
  with parse show ?thesis by blast
qed

theorem duda_qs_cmp_prefix_witness:
  "\<exists>n dr'. duda_qs_parse (example_qs ''a=1'') = Inr (n, dr') \<and> duda_qs_cmp dr' (cstr ''abc'') (cstr ''1xyz'') = Inr 0"
proof -
  have "qs_pairs ''a=1'' = [(''a'', ''1'')]" by code_simp
  then show ?thesis
    using duda_qs_cmp_prefix [OF example_qs_ok, of "''a=1''" "''abc''" "''1xyz''"] by simp
qed

end
