(* ===== verification/Duda_Flush.thy ===== *)
theory Duda_Flush
  imports Duda_Prelude
begin

text \<open>
  The interface between the output queue and what it holds: a piece of output that is written to
  a socket in steps. \<open>flush w a\<close> is one step in which the system call returns \<open>w\<close>; \<open>pending\<close> is
  the number of bytes the queue still counts for it. The contract is what
  \<open>duda_queue_flush\<close> relies on.
\<close>

locale flushable =
  fixes flush :: "int \<Rightarrow> 'a \<Rightarrow> (int \<times> 'a) run"
    and pending :: "'a \<Rightarrow> nat"
    and inv :: "'a \<Rightarrow> bool"
    and io_ok :: "int \<Rightarrow> 'a \<Rightarrow> bool"
  assumes flush_step: "inv a \<Longrightarrow> io_ok w a \<Longrightarrow>
    \<exists>r a'. flush w a = Inr (r, a') \<and> (r \<noteq> 0 \<longrightarrow> inv a') \<and> (r = 0 \<longrightarrow> pending a' = 0) \<and>
      pending a' \<le> pending a \<and> (0 < w \<or> w = 0 \<and> pending a = 0 \<longrightarrow> r = 0 \<or> pending a' < pending a)"

text \<open>
  A queue of such pieces. A piece is active until a step reports its end; only the first active one
  is written in a step. \<open>flush_first\<close> is that step on the list of pieces; the second component of
  its result says whether there was an active piece.
\<close>

primrec flush_first ::
    "(int \<Rightarrow> 'a \<Rightarrow> (int \<times> 'a) run) \<Rightarrow> ('a \<Rightarrow> bool) \<Rightarrow> ('a \<Rightarrow> 'a) \<Rightarrow> int \<Rightarrow> 'a list \<Rightarrow> ('a list \<times> bool) run" where
  "flush_first flush active deactivate w [] = Inr ([], False)"
| "flush_first flush active deactivate w (a # q) =
     (if \<not> active a then run_bind (flush_first flush active deactivate w q) (\<lambda>(q', b). Inr (a # q', b))
      else run_bind (flush w a) (\<lambda>(ret, a'). Inr ((if ret = 0 then deactivate a' else a') # q, True)))"

locale flush_queue = flushable +
  fixes active :: "'a \<Rightarrow> bool" and deactivate :: "'a \<Rightarrow> 'a"
  assumes not_active_deactivate: "\<not> active (deactivate a)"
    and pending_deactivate: "pending (deactivate a) = pending a"
    and flush_active: "flush w a = Inr (r, a') \<Longrightarrow> active a' = active a"
begin

definition total :: "'a list \<Rightarrow> nat" where
  "total q = sum_list (map pending q)"

definition queue_inv :: "'a list \<Rightarrow> bool" where
  "queue_inv q \<longleftrightarrow> (\<forall>a\<in>set q. if active a then inv a else pending a = 0)"

definition first_ok :: "int \<Rightarrow> 'a list \<Rightarrow> bool" where
  "first_ok w q \<longleftrightarrow> (case find active q of None \<Rightarrow> True | Some a \<Rightarrow> io_ok w a)"

definition first_progress :: "int \<Rightarrow> 'a list \<Rightarrow> bool" where
  "first_progress w q \<longleftrightarrow> (case find active q of None \<Rightarrow> True | Some a \<Rightarrow> 0 < w \<or> w = 0 \<and> pending a = 0)"

text \<open>What is left to do: the pending bytes and the pieces that are still active.\<close>

definition work :: "'a list \<Rightarrow> nat" where
  "work q = total q + length (filter active q)"

lemma flush_first_step:
  assumes "queue_inv q" "first_ok w q"
  shows "\<exists>q' b. flush_first flush active deactivate w q = Inr (q', b) \<and> queue_inv q' \<and> total q' \<le> total q \<and>
    (b \<longleftrightarrow> (\<exists>a\<in>set q. active a)) \<and> (\<not> b \<longrightarrow> q' = q \<and> total q = 0) \<and>
    (b \<and> first_progress w q \<longrightarrow> work q' < work q)"
  using assms
proof (induction q)
  case Nil
  then show ?case by (auto simp: total_def)
next
  case (Cons a q)
  show ?case
  proof (cases "active a")
    case True
    with Cons.prems have "inv a" "io_ok w a" by (auto simp: queue_inv_def first_ok_def)
    from flush_step [OF this] obtain r a' where r: "flush w a = Inr (r, a')" "r \<noteq> 0 \<longrightarrow> inv a'" "r = 0 \<longrightarrow> pending a' = 0"
      "pending a' \<le> pending a" "0 < w \<or> w = 0 \<and> pending a = 0 \<longrightarrow> r = 0 \<or> pending a' < pending a" by blast
    have "active a'" using flush_active [OF r(1)] True by simp
    have rest: "queue_inv q" using Cons.prems(1) by (simp add: queue_inv_def)
    define a'' where "a'' = (if r = 0 then deactivate a' else a')"
    have a'': "queue_inv [a'']" "pending a'' \<le> pending a"
      "0 < w \<or> w = 0 \<and> pending a = 0 \<Longrightarrow> pending a'' + length (filter active [a'']) < Suc (pending a)"
      using r(2-5) \<open>active a'\<close> by (auto simp: a''_def queue_inv_def not_active_deactivate pending_deactivate)
    have "flush_first flush active deactivate w (a # q) = Inr (a'' # q, True)"
      using True r(1) by (simp add: a''_def)
    moreover have "queue_inv (a'' # q)" using a''(1) rest by (simp add: queue_inv_def)
    moreover have "first_progress w (a # q) \<Longrightarrow> work (a'' # q) < work (a # q)"
      using a''(3) True by (simp add: first_progress_def work_def total_def split: if_splits)
    ultimately show ?thesis using a''(2) True
      by (intro exI [of _ "a'' # q"] exI [of _ True]) (simp add: total_def)
  next
    case False
    with Cons.prems have "queue_inv q" "first_ok w q" by (auto simp: queue_inv_def first_ok_def)
    from Cons.IH [OF this] False Cons.prems(1) show ?thesis
      by (auto simp: queue_inv_def total_def work_def first_progress_def)
  qed
qed

end

end
