(* ===== verification/Duda_Body_Buffer.thy ===== *)
theory Duda_Body_Buffer
  imports Duda_Flush
begin

text \<open>
  \<open>lib/duda_body_buffer.c\<close>: the vector of memory blocks of a response body and its transmission
  with \<open>writev\<close>. A block is the memory its pointer reaches and a length; the vector holds the
  entries in use (\<open>iov_idx\<close> is their number). \<open>writev\<close> is the system call: its return value is an
  argument, and the bytes it takes are the first ones of the blocks in order.
\<close>

section \<open>State\<close>

record iovec =
  iov_base :: string
  iov_len :: nat

record mk_iov =
  iov_io :: "iovec list"
  iov_size :: int
  iov_total_len :: nat

record duda_body_buffer =
  bb_buf :: mk_iov
  bb_size :: int
  bb_sent :: nat

definition BODY_BUFFER_SIZE :: int where
  "BODY_BUFFER_SIZE = 8"

definition IOV_MAX :: nat where
  "IOV_MAX = 1024"

section \<open>Operations\<close>

text \<open>\<open>iov_create\<close> is Monkey's: the vector it returns is an argument.\<close>

definition duda_body_buffer_new :: "(int \<Rightarrow> int \<Rightarrow> mk_iov) \<Rightarrow> duda_body_buffer" where
  "duda_body_buffer_new iov_create =
     \<lparr>bb_buf = iov_create BODY_BUFFER_SIZE 0, bb_size = BODY_BUFFER_SIZE, bb_sent = 0\<rparr>"

text \<open>
  \<open>iov_realloc\<close> is Monkey's and works on the vector in place; \<open>None\<close> when it fails. The size is
  stored in an \<open>unsigned short\<close>.
\<close>

definition duda_body_buffer_expand ::
    "(mk_iov \<Rightarrow> int \<Rightarrow> mk_iov option) \<Rightarrow> duda_body_buffer \<Rightarrow> int \<times> duda_body_buffer" where
  "duda_body_buffer_expand iov_realloc bb =
     (let sz = iov_size (bb_buf bb) + BODY_BUFFER_SIZE in
      case iov_realloc (bb_buf bb) sz of
        None \<Rightarrow> (-1, bb)
      | Some buf \<Rightarrow> (0, bb\<lparr>bb_buf := buf, bb_size := sz mod 2 ^ 16\<rparr>))"

text \<open>
  The search for the entry where a partial write stopped: from index \<open>i\<close> with \<open>cnt\<close> bytes before
  it. The result is the entries from \<open>i\<close> on, the reached one shortened, and \<open>reset_to\<close>.
\<close>

primrec iov_search :: "iovec list \<Rightarrow> nat \<Rightarrow> nat \<Rightarrow> nat \<Rightarrow> iovec list \<times> int" where
  "iov_search [] i cnt bytes_sent = ([], -1)"
| "iov_search (e # es) i cnt bytes_sent =
     (if cnt + iov_len e = bytes_sent then (e # es, int i)
      else if bytes_sent < cnt + iov_len e then
        (let bytes_to = bytes_sent - cnt in
         (e\<lparr>iov_base := drop bytes_to (iov_base e), iov_len := iov_len e - bytes_to\<rparr> # es, int i - 1))
      else (let (es', reset_to) = iov_search es (i + 1) (cnt + iov_len e) bytes_sent in (e # es', reset_to)))"

definition iov_reset :: "int \<Rightarrow> iovec list \<Rightarrow> iovec list" where
  "iov_reset reset_to es = map (\<lambda>e. e\<lparr>iov_len := 0\<rparr>) (take (nat (reset_to + 1)) es) @ drop (nat (reset_to + 1)) es"

text \<open>
  \<open>w\<close> is what \<open>writev\<close> returns; it is stored in an \<open>unsigned int\<close>, so an error is
  \<open>2 ^ 32 - 1\<close>, which the return statement turns back into -1.
\<close>

definition duda_body_buffer_flush :: "int \<Rightarrow> duda_body_buffer \<Rightarrow> (int \<times> duda_body_buffer) run" where
  "duda_body_buffer_flush w bb =
     (let buf = bb_buf bb in
      if length (iov_io buf) > IOV_MAX then Inl Exited
      else
        (let bytes_sent = nat (w mod 2 ^ 32);
             buf1 = (if bytes_sent < iov_total_len buf
                     then (let (io, reset_to) = iov_search (iov_io buf) 0 0 bytes_sent in
                           buf\<lparr>iov_io := iov_reset reset_to io, iov_total_len := iov_total_len buf - bytes_sent\<rparr>)
                     else buf)
         in if bytes_sent = iov_total_len buf1
            then Inr (0, bb\<lparr>bb_buf := buf1\<lparr>iov_total_len := 0\<rparr>\<rparr>)
            else Inr (if bytes_sent < 2 ^ 31 then int bytes_sent else int bytes_sent - 2 ^ 32, bb\<lparr>bb_buf := buf1\<rparr>)))"

section \<open>Pending data\<close>

definition iov_data :: "iovec list \<Rightarrow> string" where
  "iov_data es = concat (map (\<lambda>e. take (iov_len e) (iov_base e)) es)"

definition iov_sum :: "iovec list \<Rightarrow> nat" where
  "iov_sum es = sum_list (map iov_len es)"

definition bb_wf :: "duda_body_buffer \<Rightarrow> bool" where
  "bb_wf bb \<longleftrightarrow> length (iov_io (bb_buf bb)) \<le> IOV_MAX \<and>
     list_all (\<lambda>e. iov_len e \<le> length (iov_base e)) (iov_io (bb_buf bb)) \<and>
     iov_total_len (bb_buf bb) = iov_sum (iov_io (bb_buf bb)) \<and> iov_total_len (bb_buf bb) < 2 ^ 31"

definition bb_data :: "duda_body_buffer \<Rightarrow> string" where
  "bb_data bb = iov_data (iov_io (bb_buf bb))"

definition bb_pending :: "duda_body_buffer \<Rightarrow> nat" where
  "bb_pending bb = iov_total_len (bb_buf bb)"

text \<open>
  The documented results of \<open>writev\<close>: an error, or a number of bytes between 1 and what there is;
  0 when there is nothing to write.
\<close>

definition writev_ok :: "int \<Rightarrow> duda_body_buffer \<Rightarrow> bool" where
  "writev_ok w bb \<longleftrightarrow> w = -1 \<or> (0 < w \<and> w \<le> int (bb_pending bb)) \<or> (w = 0 \<and> bb_pending bb = 0)"

lemma iov_simps [simp]:
  "iov_data [] = []" "iov_sum [] = 0"
  "iov_data (e # es) = take (iov_len e) (iov_base e) @ iov_data es"
  "iov_sum (e # es) = iov_len e + iov_sum es"
  "iov_data (es @ fs) = iov_data es @ iov_data fs" "iov_sum (es @ fs) = iov_sum es + iov_sum fs"
  by (simp_all add: iov_data_def iov_sum_def)

lemma iov_zeroed [simp]:
  "iov_data (map (\<lambda>e. e\<lparr>iov_len := 0\<rparr>) es) = []" "iov_sum (map (\<lambda>e. e\<lparr>iov_len := 0\<rparr>) es) = 0"
  by (induction es) simp_all

lemma iov_data_length: "list_all (\<lambda>e. iov_len e \<le> length (iov_base e)) es \<Longrightarrow> length (iov_data es) = iov_sum es"
  by (induction es) auto

text \<open>
  What the search and the reset leave of the entries from index \<open>i\<close> on: the bytes after the
  \<open>k\<close> ones sent of them.
\<close>

lemma iov_search_reset:
  assumes "list_all (\<lambda>e. iov_len e \<le> length (iov_base e)) es" and "k < iov_sum es"
  shows "\<exists>es' j. iov_search es i cnt (cnt + k) = (es', int i + int j - 1) \<and> length es' = length es \<and>
     iov_data (iov_reset (int j - 1) es') = drop k (iov_data es) \<and>
     list_all (\<lambda>e. iov_len e \<le> length (iov_base e)) (iov_reset (int j - 1) es') \<and>
     iov_sum (iov_reset (int j - 1) es') = iov_sum es - k"
  using assms
proof (induction es arbitrary: i cnt k)
  case (Cons e es)
  let ?ok = "list_all (\<lambda>e. iov_len e \<le> length (iov_base e))"
  consider (exact) "iov_len e = k" | (inside) "k < iov_len e" | (beyond) "iov_len e < k" by linarith
  then show ?case
  proof cases
    case exact
    with Cons.prems show ?thesis by (intro exI [of _ "e # es"] exI [of _ 1]) (simp add: iov_reset_def)
  next
    case inside
    with Cons.prems show ?thesis
      by (intro exI [of _ "e\<lparr>iov_base := drop k (iov_base e), iov_len := iov_len e - k\<rparr> # es"] exI [of _ 0])
        (auto simp: iov_reset_def drop_take intro: diff_le_mono)
  next
    case beyond
    have "?ok es" "k - iov_len e < iov_sum es" using Cons.prems beyond by auto
    from Cons.IH [OF this, of "Suc i" "cnt + iov_len e"] beyond obtain es' j where
      IH: "iov_search es (Suc i) (cnt + iov_len e) (cnt + k) = (es', int (Suc i) + int j - 1)" "length es' = length es"
        "iov_data (iov_reset (int j - 1) es') = drop (k - iov_len e) (iov_data es)"
        "?ok (iov_reset (int j - 1) es')" "iov_sum (iov_reset (int j - 1) es') = iov_sum es - (k - iov_len e)" by auto
    have "nat (int j + 1) = Suc j" by simp
    then have reset: "iov_reset (int (Suc j) - 1) (e # es') = e\<lparr>iov_len := 0\<rparr> # iov_reset (int j - 1) es'"
      by (simp add: iov_reset_def)
    show ?thesis
      using IH beyond Cons.prems
      by (intro exI [of _ "e # es'"] exI [of _ "Suc j"]) (simp_all add: reset del: of_nat_Suc)
  qed
qed simp

lemma bb_update [simp]:
  "bb_pending (bb\<lparr>bb_buf := b\<rparr>) = iov_total_len b" "bb_data (bb\<lparr>bb_buf := b\<rparr>) = iov_data (iov_io b)"
  by (simp_all add: bb_pending_def bb_data_def)

lemma flush_error:
  assumes "bb_wf bb"
  shows "duda_body_buffer_flush (-1) bb = Inr (-1, bb)"
proof -
  have "(- 1 :: int) mod 2 ^ 32 = 2 ^ 32 - 1" by simp
  with assms show ?thesis
    by (simp add: duda_body_buffer_flush_def bb_wf_def Let_def del: power_numeral_even)
qed

lemma flush_partial:
  assumes wf: "bb_wf bb" and k: "k < bb_pending bb"
  obtains bb' where "bb_wf bb'" "bb_data bb' = drop k (bb_data bb)" "bb_pending bb' = bb_pending bb - k"
    "duda_body_buffer_flush (int k) bb =
      (if k = bb_pending bb - k then Inr (0, bb'\<lparr>bb_buf := bb_buf bb'\<lparr>iov_total_len := 0\<rparr>\<rparr>) else Inr (int k, bb'))"
proof -
  let ?buf = "bb_buf bb"
  let ?ok = "list_all (\<lambda>e. iov_len e \<le> length (iov_base e))"
  from wf have ok: "?ok (iov_io ?buf)" and tot: "iov_total_len ?buf = iov_sum (iov_io ?buf)" "iov_sum (iov_io ?buf) < 2 ^ 31"
    and len: "length (iov_io ?buf) \<le> IOV_MAX" by (auto simp: bb_wf_def)
  have "k < iov_sum (iov_io ?buf)" using k tot by (simp add: bb_pending_def)
  from iov_search_reset [OF ok this, of 0 0] obtain es j where
    es: "iov_search (iov_io ?buf) 0 0 k = (es, int j - 1)" "length es = length (iov_io ?buf)"
      "iov_data (iov_reset (int j - 1) es) = drop k (iov_data (iov_io ?buf))" "?ok (iov_reset (int j - 1) es)"
      "iov_sum (iov_reset (int j - 1) es) = iov_sum (iov_io ?buf) - k" by auto
  define bb' where "bb' = bb\<lparr>bb_buf := ?buf\<lparr>iov_io := iov_reset (int j - 1) es, iov_total_len := iov_total_len ?buf - k\<rparr>\<rparr>"
  have "length (iov_reset (int j - 1) es) = length es" by (simp add: iov_reset_def)
  then have 1: "bb_wf bb'" using es len tot by (simp add: bb'_def bb_wf_def)
  have 2: "bb_data bb' = drop k (bb_data bb)" "bb_pending bb' = bb_pending bb - k"
    using es by (simp_all add: bb'_def bb_data_def bb_pending_def)
  have lt: "k < iov_total_len ?buf" "k < 2 ^ 31" using k tot by (simp_all add: bb_pending_def)
  then have kk: "nat (int k mod 2 ^ 32) = k" by (simp add: nat_mod_distrib)
  have "duda_body_buffer_flush (int k) bb =
      (if k = bb_pending bb - k then Inr (0, bb'\<lparr>bb_buf := bb_buf bb'\<lparr>iov_total_len := 0\<rparr>\<rparr>) else Inr (int k, bb'))"
    using es(1) lt len unfolding duda_body_buffer_flush_def kk by (simp add: bb'_def bb_pending_def Let_def)
  with 1 2 show thesis by (rule that)
qed

lemma flush_complete:
  assumes "bb_wf bb"
  shows "duda_body_buffer_flush (int (bb_pending bb)) bb =
    Inr (0, bb\<lparr>bb_buf := bb_buf bb\<lparr>iov_total_len := 0\<rparr>\<rparr>)"
proof -
  have "nat (int (bb_pending bb) mod 2 ^ 32) = bb_pending bb"
    using assms by (simp add: bb_wf_def bb_pending_def nat_mod_distrib)
  with assms show ?thesis unfolding duda_body_buffer_flush_def by (simp add: bb_wf_def bb_pending_def Let_def)
qed

lemma writev_cases:
  assumes "writev_ok w bb"
  shows "w = -1 \<or> w = int (bb_pending bb) \<or> (\<exists>k. w = int k \<and> 0 < k \<and> k < bb_pending bb)"
proof (cases "w \<le> 0")
  case False
  then obtain k where "w = int k" "0 < k" using pos_int_cases by (metis not_le)
  with assms show ?thesis by (auto simp: writev_ok_def)
qed (use assms in \<open>auto simp: writev_ok_def\<close>)

text \<open>The body buffer keeps the contract of the output queue.\<close>

interpretation bb: flushable duda_body_buffer_flush bb_pending bb_wf writev_ok
proof unfold_locales
  fix bb w
  assume wf: "bb_wf bb" and io: "writev_ok w bb"
  consider (err) "w = -1" | (part) k where "w = int k" "0 < k" "k < bb_pending bb" | (all) "w = int (bb_pending bb)"
    using writev_cases [OF io] by blast
  then show "\<exists>r bb'. duda_body_buffer_flush w bb = Inr (r, bb') \<and> (r \<noteq> 0 \<longrightarrow> bb_wf bb') \<and> (r = 0 \<longrightarrow> bb_pending bb' = 0) \<and>
      bb_pending bb' \<le> bb_pending bb \<and> (0 < w \<or> w = 0 \<and> bb_pending bb = 0 \<longrightarrow> r = 0 \<or> bb_pending bb' < bb_pending bb)"
  proof cases
    case err
    with wf show ?thesis by (simp add: flush_error)
  next
    case part
    from flush_partial [OF wf part(3)] obtain bb' where "bb_wf bb'" "bb_pending bb' = bb_pending bb - k"
      "duda_body_buffer_flush (int k) bb =
        (if k = bb_pending bb - k then Inr (0, bb'\<lparr>bb_buf := bb_buf bb'\<lparr>iov_total_len := 0\<rparr>\<rparr>) else Inr (int k, bb'))" .
    with part show ?thesis by (cases "k = bb_pending bb - k") auto
  next
    case all
    with wf show ?thesis by (simp add: flush_complete)
  qed
qed

section \<open>Properties\<close>

text \<open>
  One step of the transmission of a response body, for every result of \<open>writev\<close>: an error
  changes nothing and returns -1; a complete write returns 0 and leaves nothing pending; a partial
  write of \<open>k\<close> bytes keeps exactly the bytes after the first \<open>k\<close>, in order, counts them, and
  returns \<open>k\<close>. The one exception is a write of exactly half of the pending bytes: it is taken for
  a complete one, 0 is returned and the other half is never sent.
\<close>

theorem duda_body_buffer_flush_keeps_rest:
  assumes "bb_wf bb" "writev_ok w bb"
  shows "if w = -1 then duda_body_buffer_flush w bb = Inr (-1, bb)
    else if w = int (bb_pending bb)
      then \<exists>bb'. duda_body_buffer_flush w bb = Inr (0, bb') \<and> bb_pending bb' = 0
    else if 2 * w = int (bb_pending bb)
      then \<exists>bb'. duda_body_buffer_flush w bb = Inr (0, bb') \<and> bb_pending bb' = 0 \<and>
        bb_data bb' = drop (nat w) (bb_data bb) \<and> bb_data bb' \<noteq> []
    else \<exists>bb'. duda_body_buffer_flush w bb = Inr (w, bb') \<and> bb_wf bb' \<and>
        bb_data bb' = drop (nat w) (bb_data bb) \<and> bb_pending bb' = length (bb_data bb')"
proof -
  consider (err) "w = -1" | (all) "w \<noteq> -1" "w = int (bb_pending bb)"
    | (part) k where "w = int k" "0 < k" "k < bb_pending bb"
    using writev_cases [OF assms(2)] by fastforce
  then show ?thesis
  proof cases
    case err
    with assms show ?thesis by (simp add: flush_error)
  next
    case all
    then show ?thesis using assms by (simp add: flush_complete)
  next
    case part
    have data: "length (bb_data b) = bb_pending b" if "bb_wf b" for b
      using that iov_data_length by (auto simp: bb_data_def bb_pending_def bb_wf_def)
    from flush_partial [OF assms(1) part(3)] obtain bb' where bb': "bb_wf bb'" "bb_data bb' = drop k (bb_data bb)"
      "bb_pending bb' = bb_pending bb - k" "duda_body_buffer_flush (int k) bb =
        (if k = bb_pending bb - k then Inr (0, bb'\<lparr>bb_buf := bb_buf bb'\<lparr>iov_total_len := 0\<rparr>\<rparr>) else Inr (int k, bb'))" .
    have "2 * w = int (bb_pending bb) \<longleftrightarrow> k = bb_pending bb - k" using part by auto
    moreover have "bb_data bb' \<noteq> []" using data [OF bb'(1)] bb'(3) part(3) by auto
    moreover have "iov_data (iov_io (bb_buf bb')) = bb_data bb'" by (simp add: bb_data_def)
    ultimately show ?thesis using bb' part data [OF bb'(1)] by (auto split: if_splits)
  qed
qed

theorem duda_body_buffer_flush_keeps_rest_witness:
  "\<exists>bb'. duda_body_buffer_flush 3 \<lparr>bb_buf = \<lparr>iov_io = [\<lparr>iov_base = ''ab'', iov_len = 2\<rparr>, \<lparr>iov_base = ''cdef'', iov_len = 4\<rparr>],
        iov_size = 8, iov_total_len = 6\<rparr>, bb_size = 8, bb_sent = 0\<rparr> = Inr (0, bb') \<and>
      bb_pending bb' = 0 \<and> bb_data bb' = ''def'' \<and> bb_data bb' \<noteq> []"
  using duda_body_buffer_flush_keeps_rest [of "\<lparr>bb_buf = \<lparr>iov_io = [\<lparr>iov_base = ''ab'', iov_len = 2\<rparr>, \<lparr>iov_base = ''cdef'', iov_len = 4\<rparr>],
        iov_size = 8, iov_total_len = 6\<rparr>, bb_size = 8, bb_sent = 0\<rparr>" 3]
  by (simp add: bb_wf_def writev_ok_def bb_pending_def bb_data_def IOV_MAX_def)

end
