(* ===== verification/Duda_Sendfile.thy ===== *)
theory Duda_Sendfile
  imports Duda_Flush
begin

text \<open>
  \<open>lib/duda_sendfile.c\<close>: a range of a file queued for transmission. \<open>off_t\<close> is a signed 64-bit
  number, \<open>size_t\<close>, \<open>uint64_t\<close> and \<open>unsigned long\<close> are 64-bit words, \<open>unsigned\<close> is a 32-bit word,
  and the casts between them are written out. Monkey's \<open>file_get_info\<close> and \<open>socket_send_file\<close> and
  the system call \<open>open\<close> are arguments.
\<close>

section \<open>State and operations\<close>

record file_info =
  fi_size :: "64 word"
  fi_read_access :: bool

record duda_sendfile =
  sf_fd :: int
  sf_offset :: int
  sf_pending_bytes :: "64 word"
  sf_info :: file_info

text \<open>\<open>(unsigned) offset\<close>, extended to 64 bits where it meets a 64-bit operand.\<close>

definition unsigned_cast :: "int \<Rightarrow> 64 word" where
  "unsigned_cast offset = ucast (word_of_int offset :: 32 word)"

definition duda_sendfile_new ::
    "(string \<Rightarrow> file_info option) \<Rightarrow> (string \<Rightarrow> int) \<Rightarrow> string \<Rightarrow> int \<Rightarrow> 64 word \<Rightarrow> duda_sendfile option" where
  "duda_sendfile_new file_get_info open_fd path offset cnt =
     (if offset < 0 then None
      else case file_get_info path of None \<Rightarrow> None
      | Some info \<Rightarrow>
          (let fsize = fi_size info in
           if unsigned_cast offset > fsize \<or> cnt > fsize \<or> unsigned_cast offset + cnt > fsize then None
           else if \<not> fi_read_access info then None
           else if open_fd path < 0 then None
           else Some \<lparr>sf_fd = open_fd path, sf_offset = offset,
                      sf_pending_bytes = (if cnt = 0 then fi_size info - word_of_int offset else cnt),
                      sf_info = info\<rparr>))"

text \<open>
  \<open>bytes\<close> is the result of \<open>socket_send_file\<close>, which moves the offset by the bytes it sent. The
  number of pending bytes is returned as an \<open>int\<close>.
\<close>

definition duda_sendfile_flush :: "int \<Rightarrow> duda_sendfile \<Rightarrow> int \<times> duda_sendfile" where
  "duda_sendfile_flush bytes sf =
     (if bytes > 0 then
        (let sf' = sf\<lparr>sf_offset := sf_offset sf + bytes, sf_pending_bytes := sf_pending_bytes sf - word_of_int bytes\<rparr>
         in (sint (ucast (sf_pending_bytes sf') :: 32 word), sf'))
      else if bytes = -1 then (0, sf\<lparr>sf_pending_bytes := 0\<rparr>)
      else (sint (ucast (sf_pending_bytes sf) :: 32 word), sf))"

section \<open>Casts\<close>

lemma uint_unsigned_cast: "uint (unsigned_cast offset) = offset mod 2 ^ 32"
  by (simp add: unsigned_cast_def unsigned_ucast_eq unsigned_of_int take_bit_eq_mod)

lemma uint_int_return: "uint (ucast (p :: 64 word) :: 32 word) = uint p mod 2 ^ 32"
  by (simp add: unsigned_ucast_eq take_bit_eq_mod)

lemma int_return_small:
  assumes "uint p < 2 ^ 31"
  shows "sint (ucast (p :: 64 word) :: 32 word) = uint p"
proof -
  from assms have "signed_take_bit 31 (uint p) = uint p"
    by (intro signed_take_bit_int_eq_self) (auto intro: order_trans [of _ 0])
  with assms show ?thesis by (simp add: sint_uint uint_int_return)
qed

lemma int_return_zero: "sint (ucast (p :: 64 word) :: 32 word) = 0 \<longleftrightarrow> uint p mod 2 ^ 32 = 0"
proof -
  have "sint (ucast p :: 32 word) = 0 \<longleftrightarrow> (ucast p :: 32 word) = 0"
    by (metis signed_0 signed_word_eqI)
  also have "\<dots> \<longleftrightarrow> uint (ucast p :: 32 word) = 0" by (simp add: word_uint_eq_iff)
  finally show ?thesis by (simp only: uint_int_return)
qed

lemma uint_minus_small:
  assumes "0 \<le> k" "k \<le> uint p"
  shows "uint ((p :: 64 word) - word_of_int k) = uint p - k"
proof -
  have "uint p < 2 ^ 64" using uint_lt2p [of p] by simp
  with assms have "uint (word_of_int k :: 64 word) = k"
    by (simp add: unsigned_of_int take_bit_int_eq_self)
  with assms \<open>uint p < 2 ^ 64\<close> show ?thesis by (simp add: uint_word_ariths)
qed

lemma uint_plus_small:
  "uint (a :: 64 word) + uint b < 2 ^ 64 \<Longrightarrow> uint (a + b) = uint a + uint b"
  by (simp add: uint_word_ariths)

section \<open>The contract of the output queue\<close>

definition sf_pending :: "duda_sendfile \<Rightarrow> nat" where
  "sf_pending sf = unat (sf_pending_bytes sf)"

text \<open>Ranges whose length an \<open>int\<close> can hold, and the documented results of \<open>sendfile\<close> on them.\<close>

definition sf_wf :: "duda_sendfile \<Rightarrow> bool" where
  "sf_wf sf \<longleftrightarrow> sf_pending sf < 2 ^ 31"

definition sendfile_ok :: "int \<Rightarrow> duda_sendfile \<Rightarrow> bool" where
  "sendfile_ok bytes sf \<longleftrightarrow> bytes = -1 \<or> (0 \<le> bytes \<and> bytes \<le> int (sf_pending sf))"

lemma sf_pending_uint: "int (sf_pending sf) = uint (sf_pending_bytes sf)"
  by (simp add: sf_pending_def)

lemma duda_sendfile_flush_small:
  assumes "sf_wf sf" "sendfile_ok bytes sf"
  shows "bytes = -1 \<Longrightarrow> duda_sendfile_flush bytes sf = (0, sf\<lparr>sf_pending_bytes := 0\<rparr>)"
    and "bytes \<noteq> -1 \<Longrightarrow> \<exists>sf'. duda_sendfile_flush bytes sf = (int (sf_pending sf'), sf') \<and>
      int (sf_pending sf') = int (sf_pending sf) - bytes \<and> sf_offset sf' = sf_offset sf + bytes"
proof -
  show "bytes = -1 \<Longrightarrow> duda_sendfile_flush bytes sf = (0, sf\<lparr>sf_pending_bytes := 0\<rparr>)"
    by (simp add: duda_sendfile_flush_def)
  assume "bytes \<noteq> -1"
  with assms have bytes: "0 \<le> bytes" "bytes \<le> uint (sf_pending_bytes sf)"
    by (auto simp: sendfile_ok_def sf_pending_uint)
  from assms(1) have small: "uint (sf_pending_bytes sf) < 2 ^ 31"
    by (simp add: sf_wf_def flip: sf_pending_uint)
  show "\<exists>sf'. duda_sendfile_flush bytes sf = (int (sf_pending sf'), sf') \<and>
      int (sf_pending sf') = int (sf_pending sf) - bytes \<and> sf_offset sf' = sf_offset sf + bytes"
  proof (cases "bytes = 0")
    case True
    then show ?thesis using small by (simp add: duda_sendfile_flush_def int_return_small sf_pending_uint)
  next
    case False
    have "uint (sf_pending_bytes sf - word_of_int bytes) = uint (sf_pending_bytes sf) - bytes"
      using bytes by (rule uint_minus_small)
    with small bytes False show ?thesis
      by (simp add: duda_sendfile_flush_def int_return_small sf_pending_uint Let_def)
  qed
qed

interpretation sf: flushable "\<lambda>w sf. Inr (duda_sendfile_flush w sf)" sf_pending sf_wf sendfile_ok
proof unfold_locales
  fix sf w
  assume wf: "sf_wf sf" and io: "sendfile_ok w sf"
  show "\<exists>r sf'. Inr (duda_sendfile_flush w sf) = (Inr (r, sf') :: (int \<times> duda_sendfile) run) \<and> (r \<noteq> 0 \<longrightarrow> sf_wf sf') \<and>
    (r = 0 \<longrightarrow> sf_pending sf' = 0) \<and> sf_pending sf' \<le> sf_pending sf \<and> (0 < w \<or> w = 0 \<and> sf_pending sf = 0 \<longrightarrow> r = 0 \<or> sf_pending sf' < sf_pending sf)"
  proof (cases "w = -1")
    case True
    then show ?thesis using duda_sendfile_flush_small(1) [OF wf io] by (simp add: sf_pending_def)
  next
    case False
    then have "0 \<le> w" using io by (simp add: sendfile_ok_def)
    from duda_sendfile_flush_small(2) [OF wf io False] this wf show ?thesis
      by (auto simp: sf_wf_def)
  qed
qed

section \<open>Properties\<close>

text \<open>
  C40. For an offset below \<open>2 ^ 32\<close> (and a file size that \<open>off_t\<close> can hold) a range is accepted
  exactly when the file exists, is readable, can be opened, and the range lies inside the file;
  the pending count is then the requested one, or everything from the offset to the end of the
  file when the requested count is 0, so the transmission never leaves the file.
\<close>

theorem duda_sendfile_new_range:
  assumes "0 \<le> offset" "offset < 2 ^ 32" "file_get_info path = Some info" "uint (fi_size info) < 2 ^ 63"
  shows "case duda_sendfile_new file_get_info open_fd path offset cnt of
      None \<Rightarrow> \<not> fi_read_access info \<or> open_fd path < 0 \<or> offset + uint cnt > uint (fi_size info)
    | Some sf \<Rightarrow> fi_read_access info \<and> 0 \<le> open_fd path \<and> sf_fd sf = open_fd path \<and> sf_offset sf = offset \<and>
        offset + int (sf_pending sf) \<le> uint (fi_size info) \<and>
        int (sf_pending sf) = (if cnt = 0 then uint (fi_size info) - offset else uint cnt)"
proof -
  have off: "uint (unsigned_cast offset) = offset" using assms by (simp add: uint_unsigned_cast)
  have gt: "unsigned_cast offset > fi_size info \<longleftrightarrow> offset > uint (fi_size info)"
    by (simp add: word_less_def off)
  have sum: "\<not> cnt > fi_size info \<Longrightarrow> unsigned_cast offset + cnt > fi_size info \<longleftrightarrow> offset + uint cnt > uint (fi_size info)"
    using uint_plus_small [of "unsigned_cast offset" cnt] off assms(2,4) by (simp add: word_less_def)
  have cnt: "cnt > fi_size info \<longleftrightarrow> uint cnt > uint (fi_size info)" by (simp add: word_less_def)
  have rest: "offset \<le> uint (fi_size info) \<Longrightarrow> uint (fi_size info - word_of_int offset) = uint (fi_size info) - offset"
    using assms(1) by (rule uint_minus_small)
  have nonneg: "0 \<le> uint cnt" by simp
  show ?thesis
  proof (cases "unsigned_cast offset > fi_size info \<or> cnt > fi_size info \<or> unsigned_cast offset + cnt > fi_size info")
    case True
    then have "offset + uint cnt > uint (fi_size info)" using gt sum cnt nonneg assms(1) by linarith
    with True assms show ?thesis by (simp add: duda_sendfile_new_def Let_def)
  next
    case False
    then have "offset + uint cnt \<le> uint (fi_size info)" "offset \<le> uint (fi_size info)" using gt sum by auto
    with False assms rest show ?thesis by (simp add: duda_sendfile_new_def Let_def sf_pending_uint)
  qed
qed

theorem duda_sendfile_new_range_witness:
  "case duda_sendfile_new (\<lambda>_. Some \<lparr>fi_size = 100, fi_read_access = True\<rparr>) (\<lambda>_. 5) ''f'' 40 0 of
      None \<Rightarrow> False
    | Some sf \<Rightarrow> sf_fd sf = 5 \<and> sf_offset sf = 40 \<and> int (sf_pending sf) = 60"
  using duda_sendfile_new_range [of 40 "\<lambda>_. Some \<lparr>fi_size = 100, fi_read_access = True\<rparr>" "''f''"
      "\<lparr>fi_size = 100, fi_read_access = True\<rparr>" "\<lambda>_. 5" 0]
  by (simp split: option.splits)

text \<open>
  The check looks at the low 32 bits of the offset only: for a file below 4 GiB, an offset of
  \<open>2 ^ 32\<close> and a count of 0 are accepted although the offset is beyond the end of the file, and
  the pending count is the wrapped difference, more than \<open>2 ^ 63\<close> bytes.
\<close>

theorem duda_sendfile_new_offset_truncated:
  assumes "file_get_info path = Some info" "fi_read_access info" "0 \<le> open_fd path" "uint (fi_size info) < 2 ^ 32"
  shows "\<exists>sf. duda_sendfile_new file_get_info open_fd path (2 ^ 32) 0 = Some sf \<and>
    sf_offset sf > uint (fi_size info) \<and> uint (sf_pending_bytes sf) = 2 ^ 64 + uint (fi_size info) - 2 ^ 32 \<and>
    uint (sf_pending_bytes sf) > 2 ^ 63"
proof -
  have cast: "unsigned_cast (2 ^ 32) = 0" by (simp add: word_uint_eq_iff uint_unsigned_cast)
  have "0 \<le> uint (fi_size info)" by simp
  with assms(4) have range: "0 \<le> uint (fi_size info) - 2 ^ 32 + 2 ^ 64" "uint (fi_size info) - 2 ^ 32 + 2 ^ 64 < 2 ^ 64" by auto
  have "uint (fi_size info - word_of_int (2 ^ 32)) = (uint (fi_size info) - 2 ^ 32) mod 2 ^ 64"
    by (simp add: uint_word_ariths)
  also have "\<dots> = (uint (fi_size info) - 2 ^ 32 + 2 ^ 64) mod 2 ^ 64" by (rule mod_add_self2 [symmetric])
  also have "\<dots> = uint (fi_size info) - 2 ^ 32 + 2 ^ 64" using range by (rule mod_pos_pos_trivial)
  finally have "uint (fi_size info - word_of_int (2 ^ 32)) = uint (fi_size info) - 2 ^ 32 + 2 ^ 64" .
  moreover have "\<not> fi_size info < unsigned_cast 4294967296" using cast by simp
  ultimately show ?thesis using assms by (simp add: duda_sendfile_new_def add_pos_nonneg)
qed

theorem duda_sendfile_new_offset_truncated_witness:
  "\<exists>sf. duda_sendfile_new (\<lambda>_. Some \<lparr>fi_size = 10, fi_read_access = True\<rparr>) (\<lambda>_. 5) ''f'' (2 ^ 32) 0 = Some sf \<and>
    sf_offset sf > 10 \<and> uint (sf_pending_bytes sf) > 2 ^ 63"
  using duda_sendfile_new_offset_truncated [of "\<lambda>_. Some \<lparr>fi_size = 10, fi_read_access = True\<rparr>" "''f''"
      "\<lparr>fi_size = 10, fi_read_access = True\<rparr>" "\<lambda>_. 5"]
  by auto

text \<open>
  The value 0, which the output queue takes for the end of the file, is returned exactly when
  the transmission failed or the number of pending bytes is a multiple of \<open>2 ^ 32\<close>, so a file with
  4 GiB left is dropped.
\<close>

theorem duda_sendfile_flush_zero_iff:
  "fst (duda_sendfile_flush bytes sf) = 0 \<longleftrightarrow>
     bytes = -1 \<or> uint (sf_pending_bytes (snd (duda_sendfile_flush bytes sf))) mod 2 ^ 32 = 0"
  using int_return_zero by (auto simp: duda_sendfile_flush_def Let_def)

end
