(* ===== verification/Duda_Queue.thy ===== *)
theory Duda_Queue
  imports Duda_Body_Buffer Duda_Sendfile
begin

text \<open>
  \<open>lib/duda_queue.c\<close>: the queue of output pieces of a request (body buffers and file ranges), one
  transmission step, and the per-thread list of the requests that wait for their socket to become
  writable. A request is named by a number, its address; the thread list is \<open>None\<close> when
  \<open>pthread_getspecific\<close> returns \<open>NULL\<close>.
\<close>

section \<open>State\<close>

definition DUDA_QTYPE_BODY_BUFFER :: int where "DUDA_QTYPE_BODY_BUFFER = 1"
definition DUDA_QTYPE_SENDFILE :: int where "DUDA_QTYPE_SENDFILE = 2"
definition DUDA_QSTATUS_ACTIVE :: int where "DUDA_QSTATUS_ACTIVE = 1"
definition DUDA_QSTATUS_INACTIVE :: int where "DUDA_QSTATUS_INACTIVE = 0"

lemmas queue_consts = DUDA_QTYPE_BODY_BUFFER_def DUDA_QTYPE_SENDFILE_def DUDA_QSTATUS_ACTIVE_def DUDA_QSTATUS_INACTIVE_def

text \<open>What \<open>void *data\<close> points to.\<close>

datatype queue_data = NoData | BodyBuffer duda_body_buffer | SendFile duda_sendfile

record duda_queue_item =
  qi_type :: int
  qi_status :: int
  qi_data :: queue_data

record queue_request =
  qd_id :: nat
  qd_socket :: int
  qd_queue_out :: "duda_queue_item list"

section \<open>Queue operations\<close>

definition duda_queue_item_new :: "bool \<Rightarrow> int \<Rightarrow> duda_queue_item option" where
  "duda_queue_item_new ok ty =
     (if ok then Some \<lparr>qi_type = ty, qi_status = DUDA_QSTATUS_ACTIVE, qi_data = NoData\<rparr> else None)"

definition duda_queue_add ::
    "duda_queue_item mk_list_adder \<Rightarrow> duda_queue_item \<Rightarrow> duda_queue_item list \<Rightarrow> int \<times> duda_queue_item list" where
  "duda_queue_add add item queue = (0, add item queue)"

definition duda_queue_last :: "duda_queue_item list \<Rightarrow> duda_queue_item option" where
  "duda_queue_last queue = (if queue = [] then None else Some (last queue))"

text \<open>The casts of \<open>item->data\<close>; an item whose data is not of its type is not a valid pointer.\<close>

definition as_body :: "duda_queue_item \<Rightarrow> duda_body_buffer run" where
  "as_body item = (case qi_data item of BodyBuffer bb \<Rightarrow> Inr bb | _ \<Rightarrow> Inl NullDeref)"

definition as_sendfile :: "duda_queue_item \<Rightarrow> duda_sendfile run" where
  "as_sendfile item = (case qi_data item of SendFile sf \<Rightarrow> Inr sf | _ \<Rightarrow> Inl NullDeref)"

primrec queue_length_loop :: "duda_queue_item list \<Rightarrow> 64 word \<Rightarrow> 64 word run" where
  "queue_length_loop [] len = Inr len"
| "queue_length_loop (entry # queue) len =
     (if qi_type entry = DUDA_QTYPE_BODY_BUFFER then
        run_bind (as_body entry) (\<lambda>bb. queue_length_loop queue (len + of_nat (iov_total_len (bb_buf bb))))
      else if qi_type entry = DUDA_QTYPE_SENDFILE then
        run_bind (as_sendfile entry) (\<lambda>sf. queue_length_loop queue (len + sf_pending_bytes sf))
      else queue_length_loop queue len)"

definition duda_queue_length :: "duda_queue_item list \<Rightarrow> 64 word run" where
  "duda_queue_length queue = queue_length_loop queue 0"

text \<open>The list of freed objects: file descriptors closed by \<open>duda_queue_free\<close>, in order.\<close>

primrec queue_free_loop :: "duda_queue_item list \<Rightarrow> int list run" where
  "queue_free_loop [] = Inr []"
| "queue_free_loop (item # queue) =
     (if qi_type item = DUDA_QTYPE_BODY_BUFFER then
        run_bind (as_body item) (\<lambda>_. queue_free_loop queue)
      else if qi_type item = DUDA_QTYPE_SENDFILE then
        run_bind (as_sendfile item) (\<lambda>sf. run_bind (queue_free_loop queue) (\<lambda>fds. Inr (sf_fd sf # fds)))
      else queue_free_loop queue)"

definition duda_queue_free :: "duda_queue_item list \<Rightarrow> (int \<times> duda_queue_item list \<times> int list) run" where
  "duda_queue_free queue = run_bind (queue_free_loop queue) (\<lambda>fds. Inr (0, [], fds))"

section \<open>Requests waiting for their socket\<close>

definition duda_queue_event_register_write ::
    "nat mk_list_adder \<Rightarrow> nat \<Rightarrow> nat list option \<Rightarrow> int \<times> nat list option" where
  "duda_queue_event_register_write add dr events =
     (case events of None \<Rightarrow> (-1, None) | Some l \<Rightarrow> (0, Some (add dr l)))"

definition duda_queue_event_unregister_write :: "nat \<Rightarrow> nat list option \<Rightarrow> (int \<times> nat list option) run" where
  "duda_queue_event_unregister_write dr events =
     (case events of None \<Rightarrow> Inl NullDeref
      | Some l \<Rightarrow> if dr \<in> set l then Inr (0, Some (remove1 dr l)) else Inr (-1, Some l))"

definition duda_queue_event_is_registered_write :: "nat \<Rightarrow> nat list option \<Rightarrow> bool run" where
  "duda_queue_event_is_registered_write dr events =
     (case events of None \<Rightarrow> Inl NullDeref | Some l \<Rightarrow> Inr (dr \<in> set l))"

section \<open>Transmission\<close>

text \<open>One item; \<open>w\<close> is the result of the system call it makes. An item of no known type leaves -1.\<close>

definition queue_item_flush :: "int \<Rightarrow> duda_queue_item \<Rightarrow> (int \<times> duda_queue_item) run" where
  "queue_item_flush w item =
     (if qi_type item = DUDA_QTYPE_BODY_BUFFER then
        run_bind (as_body item) (\<lambda>bb. run_bind (duda_body_buffer_flush w bb) (\<lambda>(ret, bb').
          Inr (ret, item\<lparr>qi_data := BodyBuffer bb'\<rparr>)))
      else if qi_type item = DUDA_QTYPE_SENDFILE then
        run_bind (as_sendfile item) (\<lambda>sf. let (ret, sf') = duda_sendfile_flush w sf in
          Inr (ret, item\<lparr>qi_data := SendFile sf'\<rparr>))
      else Inr (-1, item))"

definition item_active :: "duda_queue_item \<Rightarrow> bool" where
  "item_active item \<longleftrightarrow> qi_status item \<noteq> DUDA_QSTATUS_INACTIVE"

definition item_deactivate :: "duda_queue_item \<Rightarrow> duda_queue_item" where
  "item_deactivate item = item\<lparr>qi_status := DUDA_QSTATUS_INACTIVE\<rparr>"

text \<open>
  The loop stops after the first active item, so it is \<open>flush_first\<close> on the items. With no active
  item the function returns 0 and does not touch the thread list.
\<close>

definition duda_queue_flush ::
    "nat mk_list_adder \<Rightarrow> int \<Rightarrow> queue_request \<Rightarrow> nat list option \<Rightarrow> (int \<times> queue_request \<times> nat list option) run" where
  "duda_queue_flush add w dr events =
     run_bind (flush_first queue_item_flush item_active item_deactivate w (qd_queue_out dr)) (\<lambda>(queue, found).
       if \<not> found then Inr (0, dr\<lparr>qd_queue_out := queue\<rparr>, events)
       else run_bind (duda_queue_event_is_registered_write (qd_id dr) events) (\<lambda>is_registered.
         run_bind (duda_queue_length queue) (\<lambda>queue_len.
           run_bind
             (if queue_len > 0 \<and> \<not> is_registered then
                Inr (snd (duda_queue_event_register_write add (qd_id dr) events))
              else if queue_len = 0 \<and> is_registered then
                run_bind (duda_queue_event_unregister_write (qd_id dr) events) (\<lambda>(_, ev). Inr ev)
              else Inr events)
             (\<lambda>events'. Inr (sint (ucast queue_len :: 32 word), dr\<lparr>qd_queue_out := queue\<rparr>, events')))))"

section \<open>The items keep the contract\<close>

definition item_pending :: "duda_queue_item \<Rightarrow> nat" where
  "item_pending item = (case qi_data item of NoData \<Rightarrow> 0 | BodyBuffer bb \<Rightarrow> bb_pending bb | SendFile sf \<Rightarrow> sf_pending sf)"

definition item_typed :: "duda_queue_item \<Rightarrow> bool" where
  "item_typed item \<longleftrightarrow> (case qi_data item of NoData \<Rightarrow> False
     | BodyBuffer bb \<Rightarrow> qi_type item = DUDA_QTYPE_BODY_BUFFER | SendFile sf \<Rightarrow> qi_type item = DUDA_QTYPE_SENDFILE)"

definition item_wf :: "duda_queue_item \<Rightarrow> bool" where
  "item_wf item \<longleftrightarrow> item_typed item \<and>
     (case qi_data item of NoData \<Rightarrow> False | BodyBuffer bb \<Rightarrow> bb_wf bb | SendFile sf \<Rightarrow> sf_wf sf)"

definition item_io_ok :: "int \<Rightarrow> duda_queue_item \<Rightarrow> bool" where
  "item_io_ok w item \<longleftrightarrow>
     (case qi_data item of NoData \<Rightarrow> False | BodyBuffer bb \<Rightarrow> writev_ok w bb | SendFile sf \<Rightarrow> sendfile_ok w sf)"

definition queue_total :: "duda_queue_item list \<Rightarrow> nat" where
  "queue_total q = sum_list (map item_pending q)"

definition queue_wf :: "duda_queue_item list \<Rightarrow> bool" where
  "queue_wf q \<longleftrightarrow> (\<forall>i\<in>set q. item_typed i \<and> (if item_active i then item_wf i else item_pending i = 0)) \<and>
     queue_total q < 2 ^ 31"

lemma queue_item_flush_shape:
  "queue_item_flush w i = Inr (r, i') \<Longrightarrow> qi_status i' = qi_status i \<and> (item_typed i \<longrightarrow> item_typed i')"
  by (auto simp: queue_item_flush_def as_body_def as_sendfile_def item_typed_def run_bind_eq_Inr
      split: if_splits queue_data.splits prod.splits)

interpretation oq: flush_queue queue_item_flush item_pending item_wf item_io_ok item_active item_deactivate
proof unfold_locales
  fix i w
  assume wf: "item_wf i" and io: "item_io_ok w i"
  show "\<exists>r i'. queue_item_flush w i = Inr (r, i') \<and> (r \<noteq> 0 \<longrightarrow> item_wf i') \<and> (r = 0 \<longrightarrow> item_pending i' = 0) \<and>
    item_pending i' \<le> item_pending i \<and>
    (0 < w \<or> w = 0 \<and> item_pending i = 0 \<longrightarrow> r = 0 \<or> item_pending i' < item_pending i)"
  proof (cases "qi_data i")
    case NoData
    with wf show ?thesis by (simp add: item_wf_def)
  next
    case (BodyBuffer bb)
    with wf io have bb: "bb_wf bb" "writev_ok w bb" "qi_type i = DUDA_QTYPE_BODY_BUFFER"
      by (simp_all add: item_wf_def item_typed_def item_io_ok_def)
    from bb.flush_step [OF bb(1,2)] bb(3) BodyBuffer show ?thesis
      by (auto simp: queue_item_flush_def as_body_def item_pending_def item_wf_def item_typed_def)
  next
    case (SendFile sf)
    with wf io have sf: "sf_wf sf" "sendfile_ok w sf" "qi_type i = DUDA_QTYPE_SENDFILE"
      by (simp_all add: item_wf_def item_typed_def item_io_ok_def)
    from sf.flush_step [OF sf(1,2)] sf(3) SendFile show ?thesis
      by (auto simp: queue_item_flush_def as_sendfile_def item_pending_def item_wf_def item_typed_def queue_consts)
  qed
next
  show "\<not> item_active (item_deactivate i)" for i by (simp add: item_active_def item_deactivate_def)
  show "item_pending (item_deactivate i) = item_pending i" for i by (simp add: item_pending_def item_deactivate_def)
  show "queue_item_flush w i = Inr (r, i') \<Longrightarrow> item_active i' = item_active i" for w i r i'
    using queue_item_flush_shape [of w i r i'] by (simp add: item_active_def)
qed

lemma oq_total [simp]: "oq.total = queue_total"
  by (rule ext) (simp add: oq.total_def queue_total_def)

lemma flush_first_typed:
  "flush_first queue_item_flush item_active item_deactivate w q = Inr (q', b) \<Longrightarrow> \<forall>i\<in>set q. item_typed i \<Longrightarrow>
   \<forall>i\<in>set q'. item_typed i"
proof (induction q arbitrary: q' b)
  case (Cons i q)
  have "item_typed (item_deactivate i) = item_typed i" for i
    by (cases "qi_data i") (simp_all add: item_typed_def item_deactivate_def)
  with Cons queue_item_flush_shape [of w i] show ?case
    by (fastforce simp: run_bind_eq_Inr split: if_splits prod.splits)
qed simp

lemma queue_length_loop_total:
  assumes "\<forall>i\<in>set q. item_typed i" "uint len + int (queue_total q) < 2 ^ 64"
  shows "\<exists>l. queue_length_loop q len = Inr l \<and> uint l = uint len + int (queue_total q)"
  using assms
proof (induction q arbitrary: len)
  case Nil
  then show ?case by (simp add: queue_total_def)
next
  case (Cons i q)
  have add: "\<exists>l. queue_length_loop q (len + d) = Inr l \<and> uint l = uint len + int (queue_total (i # q))"
    if "uint d = int (item_pending i)" for d
  proof -
    have "uint (len + d) = uint len + uint d"
      using Cons.prems(2) that by (intro uint_plus_small) (simp add: queue_total_def)
    with Cons.IH [of "len + d"] Cons.prems that show ?thesis by (simp add: queue_total_def add.assoc)
  qed
  show ?case
  proof (cases "qi_data i")
    case NoData
    with Cons.prems show ?thesis by (simp add: item_typed_def)
  next
    case (BodyBuffer bb)
    have "int (bb_pending bb) \<le> uint len + int (queue_total (i # q))"
      using BodyBuffer by (simp add: queue_total_def item_pending_def)
    with Cons.prems(2) have "int (bb_pending bb) < 2 ^ 64" by linarith
    then have "uint (of_nat (bb_pending bb) :: 64 word) = int (bb_pending bb)"
      by (simp add: unsigned_of_nat take_bit_nat_eq_self_iff)
    with BodyBuffer Cons.prems(1) add [of "of_nat (bb_pending bb)"] show ?thesis
      by (simp add: item_typed_def item_pending_def as_body_def bb_pending_def)
  next
    case (SendFile sf)
    with Cons.prems(1) add [of "sf_pending_bytes sf"] show ?thesis
      by (simp add: item_typed_def item_pending_def as_sendfile_def sf_pending_uint queue_consts)
  qed
qed

section \<open>One step of the queue\<close>

lemma queue_length_total:
  assumes "queue_wf q"
  shows "\<exists>l. duda_queue_length q = Inr l \<and> uint l = int (queue_total q) \<and> (l = 0 \<longleftrightarrow> queue_total q = 0) \<and>
    (0 < l \<longleftrightarrow> 0 < queue_total q) \<and> sint (ucast l :: 32 word) = int (queue_total q)"
proof -
  from assms have "\<forall>i\<in>set q. item_typed i" "queue_total q < 2 ^ 31" by (auto simp: queue_wf_def)
  with queue_length_loop_total [of q 0] obtain l where "duda_queue_length q = Inr l" "uint l = int (queue_total q)"
    by (auto simp: duda_queue_length_def)
  moreover from this \<open>queue_total q < 2 ^ 31\<close> have "sint (ucast l :: 32 word) = int (queue_total q)"
    by (simp add: int_return_small)
  moreover have "l = 0 \<longleftrightarrow> uint l = 0" "0 < l \<longleftrightarrow> 0 < uint l" by (simp_all add: word_uint_eq_iff word_less_def)
  ultimately show ?thesis by (intro exI [of _ l]) simp
qed

definition first_io_ok :: "int \<Rightarrow> duda_queue_item list \<Rightarrow> bool" where
  "first_io_ok w q \<longleftrightarrow> (case find item_active q of None \<Rightarrow> True | Some i \<Rightarrow> item_io_ok w i)"

definition first_io_progress :: "int \<Rightarrow> duda_queue_item list \<Rightarrow> bool" where
  "first_io_progress w q \<longleftrightarrow>
     (case find item_active q of None \<Rightarrow> True | Some i \<Rightarrow> 0 < w \<or> w = 0 \<and> item_pending i = 0)"

definition queue_work :: "duda_queue_item list \<Rightarrow> nat" where
  "queue_work q = queue_total q + length (filter item_active q)"

lemma flush_first_queue:
  assumes "queue_wf q" "first_io_ok w q"
  shows "\<exists>q' b. flush_first queue_item_flush item_active item_deactivate w q = Inr (q', b) \<and> queue_wf q' \<and>
    queue_total q' \<le> queue_total q \<and> (\<not> b \<longrightarrow> q' = q \<and> queue_total q = 0) \<and>
    (first_io_progress w q \<longrightarrow> queue_work q' < queue_work q \<or> queue_work q' = 0)"
proof -
  from assms have "oq.queue_inv q" "oq.first_ok w q"
    by (auto simp: queue_wf_def oq.queue_inv_def first_io_ok_def oq.first_ok_def)
  from oq.flush_first_step [OF this] obtain q' b where step:
    "flush_first queue_item_flush item_active item_deactivate w q = Inr (q', b)" "oq.queue_inv q'"
    "queue_total q' \<le> queue_total q" "b \<longleftrightarrow> (\<exists>i\<in>set q. item_active i)" "\<not> b \<longrightarrow> q' = q \<and> queue_total q = 0"
    "b \<and> oq.first_progress w q \<longrightarrow> oq.work q' < oq.work q" by auto
  have work: "oq.work = queue_work" by (rule ext) (simp add: oq.work_def queue_work_def)
  have "\<forall>i\<in>set q'. item_typed i" using flush_first_typed [OF step(1)] assms(1) by (auto simp: queue_wf_def)
  with step(2,3) assms(1) have "queue_wf q'" by (auto simp: queue_wf_def oq.queue_inv_def)
  moreover have "\<not> b \<Longrightarrow> queue_work q' = 0" using step(4,5) by (auto simp: queue_work_def filter_empty_conv)
  moreover have "oq.first_progress w q \<longleftrightarrow> first_io_progress w q"
    by (simp add: first_io_progress_def oq.first_progress_def)
  ultimately show ?thesis
    using step(1,3,5,6) unfolding work by (intro exI [of _ q'] exI [of _ b]) (cases b; simp)
qed

text \<open>A request is registered only while it has pending output.\<close>

definition registered_ok :: "queue_request \<Rightarrow> nat list \<Rightarrow> bool" where
  "registered_ok dr l \<longleftrightarrow> distinct l \<and> (qd_id dr \<in> set l \<longrightarrow> 0 < queue_total (qd_queue_out dr))"

lemma duda_queue_flush_step:
  assumes add: "mk_list_appends add" and wf: "queue_wf (qd_queue_out dr)" and io: "first_io_ok w (qd_queue_out dr)"
    and reg: "registered_ok dr l"
  obtains q' l' where
    "duda_queue_flush add w dr (Some l) = Inr (int (queue_total q'), dr\<lparr>qd_queue_out := q'\<rparr>, Some l')"
    "queue_wf q'" "queue_total q' \<le> queue_total (qd_queue_out dr)" "distinct l'"
    "qd_id dr \<in> set l' \<longleftrightarrow> 0 < queue_total q'" "\<And>x. x \<noteq> qd_id dr \<Longrightarrow> x \<in> set l' \<longleftrightarrow> x \<in> set l"
    "first_io_progress w (qd_queue_out dr) \<Longrightarrow> queue_work q' < queue_work (qd_queue_out dr) \<or> queue_work q' = 0"
proof -
  from flush_first_queue [OF wf io] obtain q' b where q':
    "flush_first queue_item_flush item_active item_deactivate w (qd_queue_out dr) = Inr (q', b)" "queue_wf q'"
    "queue_total q' \<le> queue_total (qd_queue_out dr)" "\<not> b \<longrightarrow> q' = qd_queue_out dr \<and> queue_total (qd_queue_out dr) = 0"
    "first_io_progress w (qd_queue_out dr) \<longrightarrow> queue_work q' < queue_work (qd_queue_out dr) \<or> queue_work q' = 0" by blast
  obtain n where n: "duda_queue_length q' = Inr n" "n = 0 \<longleftrightarrow> queue_total q' = 0"
    "0 < n \<longleftrightarrow> 0 < queue_total q'" "sint (ucast n :: 32 word) = int (queue_total q')"
    using queue_length_total [OF q'(2)] by (elim exE conjE) (rule that)
  let ?id = "qd_id dr"
  define l' where "l' = (if 0 < queue_total q' \<and> ?id \<notin> set l then l @ [?id]
    else if queue_total q' = 0 \<and> ?id \<in> set l then remove1 ?id l else l)"
  have l': "distinct l'" "?id \<in> set l' \<longleftrightarrow> 0 < queue_total q'" "\<And>x. x \<noteq> ?id \<Longrightarrow> x \<in> set l' \<longleftrightarrow> x \<in> set l"
    using reg by (auto simp: l'_def registered_ok_def)
  have "duda_queue_flush add w dr (Some l) = Inr (int (queue_total q'), dr\<lparr>qd_queue_out := q'\<rparr>, Some l')"
  proof (cases b)
    case True
    note defs = duda_queue_flush_def l'_def duda_queue_event_is_registered_write_def mk_list_appendsD [OF add]
      duda_queue_event_register_write_def duda_queue_event_unregister_write_def
    from True q'(1) n show ?thesis
      by (cases "0 < queue_total q'"; cases "?id \<in> set l") (simp_all add: defs)
  next
    case False
    with q'(1,4) reg show ?thesis by (auto simp: duda_queue_flush_def l'_def registered_ok_def)
  qed
  from that [OF this q'(2,3) l'] q'(5) show thesis by blast
qed

section \<open>Properties\<close>


definition example_file :: "nat \<Rightarrow> duda_queue_item" where
  "example_file n = \<lparr>qi_type = DUDA_QTYPE_SENDFILE, qi_status = DUDA_QSTATUS_ACTIVE,
     qi_data = SendFile \<lparr>sf_fd = 7, sf_offset = 0, sf_pending_bytes = of_nat n, sf_info = \<lparr>fi_size = 100, fi_read_access = True\<rparr>\<rparr>\<rparr>"

lemma example_file_pending: "n < 2 ^ 31 \<Longrightarrow> item_pending (example_file n) = n"
  by (simp add: example_file_def item_pending_def sf_pending_def unsigned_of_nat take_bit_nat_eq_self_iff)

lemma example_queue_wf: "n < 2 ^ 31 \<Longrightarrow> queue_wf [example_file n]"
  using example_file_pending [of n]
  by (auto simp: queue_wf_def queue_total_def item_active_def item_wf_def item_typed_def sf_wf_def example_file_def item_pending_def queue_consts)

lemma example_queue_io: "0 \<le> w \<Longrightarrow> w \<le> int n \<Longrightarrow> n < 2 ^ 31 \<Longrightarrow> first_io_ok w [example_file n]"
  using example_file_pending [of n]
  by (auto simp: first_io_ok_def item_io_ok_def sendfile_ok_def example_file_def item_pending_def item_active_def queue_consts)


text \<open>Repeated steps; \<open>f\<close> gives the result of the system call for the queue it meets.\<close>

primrec queue_flush_n ::
    "nat mk_list_adder \<Rightarrow> (duda_queue_item list \<Rightarrow> int) \<Rightarrow> nat \<Rightarrow> queue_request \<Rightarrow> nat list option \<Rightarrow>
     (queue_request \<times> nat list option) run" where
  "queue_flush_n add f 0 dr events = Inr (dr, events)"
| "queue_flush_n add f (Suc n) dr events =
     run_bind (duda_queue_flush add (f (qd_queue_out dr)) dr events)
       (\<lambda>(_, dr', events'). queue_flush_n add f n dr' events')"

text \<open>
  C3. The queue is drained: when every system call makes progress (it takes at least one byte, or
  there is none to take), then after as many steps as there are pending bytes and active items, and
  after any larger number, nothing is pending, no item is active and the request is not
  registered.
\<close>

theorem duda_queue_drained:
  assumes "mk_list_appends add" "queue_wf (qd_queue_out dr)" "registered_ok dr l"
    and "\<forall>q. queue_wf q \<longrightarrow> first_io_ok (f q) q \<and> first_io_progress (f q) q"
    and "queue_work (qd_queue_out dr) \<le> n"
  shows "\<exists>q' l'. queue_flush_n add f n dr (Some l) = Inr (dr\<lparr>qd_queue_out := q'\<rparr>, Some l') \<and>
    queue_work q' = 0 \<and> qd_id dr \<notin> set l'"
  using assms(2,3,5)
proof (induction n arbitrary: dr l)
  case 0
  then show ?case
    by (intro exI [of _ "qd_queue_out dr"] exI [of _ l]) (auto simp: queue_work_def registered_ok_def)
next
  case (Suc n)
  from assms(4) Suc.prems(1) have io: "first_io_ok (f (qd_queue_out dr)) (qd_queue_out dr)"
    "first_io_progress (f (qd_queue_out dr)) (qd_queue_out dr)" by blast+
  obtain q' l' where step: "duda_queue_flush add (f (qd_queue_out dr)) dr (Some l) =
      Inr (int (queue_total q'), dr\<lparr>qd_queue_out := q'\<rparr>, Some l')" "queue_wf q'"
    "queue_total q' \<le> queue_total (qd_queue_out dr)" "distinct l'" "qd_id dr \<in> set l' \<longleftrightarrow> 0 < queue_total q'"
    "\<And>x. x \<noteq> qd_id dr \<Longrightarrow> x \<in> set l' \<longleftrightarrow> x \<in> set l"
    "first_io_progress (f (qd_queue_out dr)) (qd_queue_out dr) \<Longrightarrow>
      queue_work q' < queue_work (qd_queue_out dr) \<or> queue_work q' = 0"
    using duda_queue_flush_step [OF assms(1) Suc.prems(1) io(1) Suc.prems(2)] by metis
  have "registered_ok (dr\<lparr>qd_queue_out := q'\<rparr>) l'" "queue_work q' \<le> n"
    using step(4,5) step(7) [OF io(2)] Suc.prems(3) by (auto simp: registered_ok_def)
  with Suc.IH [of "dr\<lparr>qd_queue_out := q'\<rparr>" l'] step(1,2) show ?case by simp
qed

lemma full_write_ok:
  assumes "queue_wf q"
  shows "first_io_ok (case find item_active q of None \<Rightarrow> 0 | Some i \<Rightarrow> int (item_pending i)) q \<and>
    first_io_progress (case find item_active q of None \<Rightarrow> 0 | Some i \<Rightarrow> int (item_pending i)) q"
proof (cases "find item_active q")
  case (Some i)
  then have "i \<in> set q" "item_active i" by (auto simp: find_Some_iff)
  with assms have "item_wf i" by (auto simp: queue_wf_def)
  with Some show ?thesis
    by (auto simp: first_io_ok_def first_io_progress_def item_io_ok_def item_wf_def item_pending_def
        writev_ok_def sendfile_ok_def split: queue_data.splits)
qed (simp add: first_io_ok_def first_io_progress_def)

theorem duda_queue_drained_witness:
  "\<exists>q' l'. queue_flush_n (\<lambda>x xs. xs @ [x]) (\<lambda>q. case find item_active q of None \<Rightarrow> 0 | Some i \<Rightarrow> int (item_pending i)) 41
      \<lparr>qd_id = 3, qd_socket = 4, qd_queue_out = [example_file 40]\<rparr> (Some [3]) =
      Inr (\<lparr>qd_id = 3, qd_socket = 4, qd_queue_out = q'\<rparr>, Some l') \<and> queue_work q' = 0 \<and> 3 \<notin> set l'"
proof -
  have "queue_total [example_file 40] = 40" by (simp add: queue_total_def example_file_pending)
  moreover from this have "queue_work [example_file 40] \<le> 41" by (simp add: queue_work_def)
  ultimately show ?thesis
    using duda_queue_drained [of "\<lambda>x xs. xs @ [x]" "\<lparr>qd_id = 3, qd_socket = 4, qd_queue_out = [example_file 40]\<rparr>" "[3]"
        "\<lambda>q. case find item_active q of None \<Rightarrow> 0 | Some i \<Rightarrow> int (item_pending i)" 41]
      example_queue_wf [of 40] full_write_ok
    by (simp add: registered_ok_def)
qed

end
