(* ===== verification/Duda_Bytes.thy ===== *)
theory Duda_Bytes
  imports Duda_Prelude
begin

text \<open>
  Bytes, buffers of bytes and the arithmetic of shifts and masks, shared by the packages that
  work on binary data.
\<close>

unbundle bit_operations_syntax

type_synonym byte = "8 word"

section \<open>Allocation and consecutive writes\<close>

type_synonym mem_alloc = "nat \<Rightarrow> byte list option"

definition mem_alloc_ok :: "mem_alloc \<Rightarrow> bool" where
  "mem_alloc_ok alloc \<longleftrightarrow> (\<forall>n b. alloc n = Some b \<longrightarrow> length b = n)"

lemma mem_alloc_okD: "mem_alloc_ok alloc \<Longrightarrow> alloc n = Some b \<Longrightarrow> length b = n"
  by (simp add: mem_alloc_ok_def)

definition mem_alloc_ref :: mem_alloc where
  "mem_alloc_ref n = Some (replicate n 0xAA)"

lemma mem_alloc_ref_ok [simp]: "mem_alloc_ok mem_alloc_ref"
  by (auto simp: mem_alloc_ok_def mem_alloc_ref_def)

text \<open>\<open>*pos++ = b\<close>, once for every byte of a list.\<close>

primrec puts :: "'a list \<Rightarrow> nat \<Rightarrow> 'a list \<Rightarrow> 'a list run" where
  "puts out pos [] = Inr out"
| "puts out pos (b # bs) = run_bind (wr out pos b) (\<lambda>out. puts out (pos + 1) bs)"

lemma puts_ok: "pos + length bs \<le> length out \<Longrightarrow> puts out pos bs = Inr (take pos out @ bs @ drop (pos + length bs) out)"
proof (induction bs arbitrary: out pos)
  case (Cons b bs)
  then have "puts (out[pos := b]) (pos + 1) bs = Inr (take (pos + 1) (out[pos := b]) @ bs @ drop (pos + 1 + length bs) (out[pos := b]))"
    by (intro Cons.IH) simp
  with Cons.prems show ?case by (simp add: take_Suc_conv_app_nth)
qed simp

lemma puts_bad: "length out < pos + length bs \<Longrightarrow> bs \<noteq> [] \<Longrightarrow> puts out pos bs = Inl OutOfBounds"
proof (induction bs arbitrary: out pos)
  case (Cons b bs)
  then show ?case by (cases "bs = []") (auto simp: wr_def)
qed simp

section \<open>Shifts and masks as arithmetic\<close>

lemma byte_unat_less [simp]: "unat (a :: byte) < 256"
  using unsigned_less [of a] by simp

lemma nat_push_or: "(y :: nat) < 2 ^ k \<Longrightarrow> push_bit k x OR y = x * 2 ^ k + y"
proof -
  assume "y < 2 ^ k"
  then have "take_bit k y = y" by (simp add: take_bit_nat_eq_self_iff)
  then have "\<not> bit y n" if "k \<le> n" for n using that by (metis bit_take_bit_iff not_le)
  then have "push_bit k x + y = push_bit k x OR y"
    by (intro disjunctive_add) (auto simp: bit_push_bit_iff_nat)
  then show ?thesis by (simp add: push_bit_eq_mult)
qed

lemma unat_drop: "unat (drop_bit k (a :: 'a::len word)) = unat a div 2 ^ k"
  unfolding unat_drop_bit_eq by (rule drop_bit_eq_div)

lemma unat_take: "unat (take_bit k (a :: 'a::len word)) = unat a mod 2 ^ k"
  unfolding unsigned_take_bit_eq by (rule take_bit_eq_mod)

lemma unat_push_word: "unat (push_bit k (a :: 'a::len word)) = unat a * 2 ^ k mod 2 ^ LENGTH('a)"
  unfolding unsigned_push_bit_eq by (simp add: take_bit_eq_mod push_bit_eq_mult)

lemma mult_pow_mod: "k \<le> w \<Longrightarrow> (x * 2 ^ k) mod 2 ^ w = (x mod 2 ^ (w - k)) * (2 ^ k :: nat)"
  using mult_mod_right [of "2 ^ k" x "2 ^ (w - k)"] by (simp add: mult.commute flip: power_add)

lemma unat_push_or_word:
  assumes "unat (y :: 'a::len word) < 2 ^ k" "k \<le> LENGTH('a)"
  shows "unat (push_bit k x OR y) = (unat x * 2 ^ k) mod 2 ^ LENGTH('a) + unat y"
proof -
  have "unat (push_bit k x) = push_bit k (unat x mod 2 ^ (LENGTH('a) - k))"
    unfolding unat_push_word mult_pow_mod [OF assms(2)] by (simp only: push_bit_eq_mult)
  with assms show ?thesis by (simp only: unsigned_or_eq nat_push_or mult_pow_mod)
qed

lemma unat_push: "unat (push_bit k (a :: byte)) = unat a * 2 ^ k mod 256"
  using unat_push_word [of k a] by simp

lemma unat_push_or: "unat (y :: byte) < 2 ^ k \<Longrightarrow> k \<le> 8 \<Longrightarrow> unat (push_bit k x OR y) = (unat x * 2 ^ k) mod 256 + unat y"
  using unat_push_or_word [of y k x] by simp

lemma byte_of_nat [simp]: "d < 256 \<Longrightarrow> unat (of_nat d :: byte) = d"
  by (simp add: unsigned_of_nat take_bit_nat_eq_self_iff)

lemma byte_eqI: "unat a = unat b \<Longrightarrow> a = (b :: byte)"
  by (rule unsigned_word_eqI)

end
