(* ===== verification/Duda_Base64.thy ===== *)
theory Duda_Base64
  imports Duda_Bytes
begin

text \<open>
  \<open>packages/base64/base64.c\<close>: the encoder and the decoder, with their buffers. Allocation is the
  argument \<open>alloc\<close> (Monkey's \<open>mem_alloc\<close>): \<open>None\<close> is \<open>NULL\<close>, otherwise the fresh buffer with
  whatever bytes it holds. A buffer position is an index; writing outside the buffer is
  \<open>OutOfBounds\<close>.
\<close>

unbundle bit_operations_syntax

section \<open>The alphabet\<close>

definition base64_table :: "byte list" where
  "base64_table = map of_char ''ABCDEFGHIJKLMNOPQRSTUVWXYZabcdefghijklmnopqrstuvwxyz0123456789+/''"

abbreviation PAD :: byte where "PAD \<equiv> 61"

primrec b64_lookup :: "byte list \<Rightarrow> byte list run" where
  "b64_lookup [] = Inr []"
| "b64_lookup (i # is) = run_bind (rd base64_table (unat i)) (\<lambda>c. run_bind (b64_lookup is) (\<lambda>cs. Inr (c # cs)))"

lemma base64_table_length [simp]: "length base64_table = 64"
  by (simp add: base64_table_def)

lemma b64_lookup_ok: "list_all (\<lambda>i. unat i < 64) is \<Longrightarrow> b64_lookup is = Inr (map (\<lambda>i. base64_table ! unat i) is)"
  by (induction "is") simp_all

section \<open>Encoder\<close>

text \<open>
  The main loop: the argument is the input from \<open>in\<close> to \<open>end\<close>, so at least three bytes are left
  exactly when the first equation applies.
\<close>

fun b64_enc_loop :: "byte list \<Rightarrow> nat \<Rightarrow> byte list \<Rightarrow> int \<Rightarrow> (byte list \<times> nat \<times> byte list \<times> int) run" where
  "b64_enc_loop (a # b # c # inp) pos out line_len =
     run_bind (b64_lookup [drop_bit 2 a, push_bit 4 (a AND 3) OR drop_bit 4 b, push_bit 2 (b AND 15) OR drop_bit 6 c, c AND 63])
       (\<lambda>cs. run_bind (puts out pos cs) (\<lambda>out. b64_enc_loop inp (pos + 4) out (line_len + 4)))"
| "b64_enc_loop inp pos out line_len = Inr (inp, pos, out, line_len)"

definition b64_enc_tail :: "byte list \<Rightarrow> nat \<Rightarrow> byte list \<Rightarrow> int \<Rightarrow> (nat \<times> byte list \<times> int) run" where
  "b64_enc_tail inp pos out line_len =
     (case inp of
        [] \<Rightarrow> Inr (pos, out, line_len)
      | a # inp' \<Rightarrow>
          run_bind (case inp' of
              [] \<Rightarrow> run_bind (b64_lookup [drop_bit 2 a, push_bit 4 (a AND 3)]) (\<lambda>cs. Inr (cs @ [PAD]))
            | b # _ \<Rightarrow> b64_lookup [drop_bit 2 a, push_bit 4 (a AND 3) OR drop_bit 4 b, push_bit 2 (b AND 15)])
          (\<lambda>cs. run_bind (puts out pos (cs @ [PAD])) (\<lambda>out. Inr (pos + 4, out, line_len + 4))))"

text \<open>The size of the output buffer, computed in a 64-bit \<open>size_t\<close>.\<close>

definition b64_olen :: "nat \<Rightarrow> nat" where
  "b64_olen len = (let o1 = (len * 4) mod 2 ^ 64 div 3 + 4; o2 = o1 + o1 div 72 in o2 + 1)"

text \<open>
  The whole encoder. \<open>want_len\<close> says whether the pointer \<open>out_len\<close> is given. The result is the
  buffer and \<open>*out_len\<close>. The last statement writes through \<open>*out_len - 1\<close>: with an empty output the
  index is in front of the buffer.
\<close>

definition base64_encode :: "mem_alloc \<Rightarrow> bool \<Rightarrow> byte list \<Rightarrow> (byte list \<times> nat) option run" where
  "base64_encode alloc want_len src =
     (case alloc (b64_olen (length src)) of None \<Rightarrow> Inr None
      | Some out \<Rightarrow>
          run_bind (b64_enc_loop src 0 out 0) (\<lambda>(inp, pos, out, line_len).
          run_bind (b64_enc_tail inp pos out line_len) (\<lambda>(pos, out, line_len).
          run_bind (if line_len \<noteq> 0 then run_bind (wr out pos 10) (\<lambda>out. Inr (pos + 1, out)) else Inr (pos, out)) (\<lambda>(pos, out).
          run_bind (wr out pos 0) (\<lambda>out.
          if \<not> want_len then Inl NullDeref
          else if pos = 0 then Inl OutOfBounds
          else run_bind (wr out (pos - 1) 0) (\<lambda>out. Inr (Some (out, pos))))))))"

section \<open>Decoder\<close>

definition dtable :: "byte list" where
  "dtable = (fold (\<lambda>i d. d[unat (base64_table ! i) := of_nat i]) [0..<64] (replicate 256 0x80))[unat PAD := 0]"

primrec b64_dec_loop :: "byte list \<Rightarrow> byte list \<times> byte list \<times> nat \<times> byte list \<times> nat \<Rightarrow>
    (byte list \<times> byte list \<times> nat \<times> byte list \<times> nat) run" where
  "b64_dec_loop [] st = Inr st"
| "b64_dec_loop (c # cs) st =
     (case st of (inb, block, cnt, out, pos) \<Rightarrow>
      (let tmp = dtable ! unat c in
       if tmp = 0x80 then b64_dec_loop cs st
       else run_bind (wr inb cnt c) (\<lambda>inb. run_bind (wr block cnt tmp) (\<lambda>block.
         if cnt + 1 = 4 then
           run_bind (puts out pos [push_bit 2 (block ! 0) OR drop_bit 4 (block ! 1),
               push_bit 4 (block ! 1) OR drop_bit 2 (block ! 2), push_bit 6 (block ! 2) OR block ! 3])
             (\<lambda>out. b64_dec_loop cs (inb, block, 0, out, pos + 3))
         else b64_dec_loop cs (inb, block, cnt + 1, out, pos)))))"

text \<open>\<open>g\<close> is what the uninitialised local arrays hold.\<close>

definition base64_decode :: "mem_alloc \<Rightarrow> byte \<Rightarrow> byte list \<Rightarrow> (byte list \<times> nat) option run" where
  "base64_decode alloc g src =
     (let cnt = length (filter (\<lambda>c. dtable ! unat c \<noteq> 0x80) src) in
      if cnt mod 4 \<noteq> 0 then Inr None
      else (case alloc cnt of None \<Rightarrow> Inr None
        | Some out \<Rightarrow>
            run_bind (b64_dec_loop src (replicate 4 g, replicate 4 g, 0, out, 0)) (\<lambda>(inb, block, cnt, out, pos).
              Inr (Some (out, if pos > 0 then (if inb ! 2 = PAD then pos - 2 else if inb ! 3 = PAD then pos - 1 else pos) else pos)))))"

section \<open>Reference encoding\<close>

text \<open>
  The encoding by arithmetic on 24-bit groups: three bytes are a number below \<open>2 ^ 24\<close>, whose four
  digits in base 64 are looked up in the alphabet; a short last group is completed by zero bytes
  and marked with \<open>=\<close>.
\<close>

definition b64_char :: "nat \<Rightarrow> byte" where
  "b64_char d = base64_table ! d"

definition b64_digits :: "nat \<Rightarrow> byte list" where
  "b64_digits n = map b64_char [n div 64 ^ 3, n div 64 ^ 2 mod 64, n div 64 mod 64, n mod 64]"

fun base64_ref :: "byte list \<Rightarrow> byte list" where
  "base64_ref [] = []"
| "base64_ref [a] = take 2 (b64_digits (unat a * 256 ^ 2)) @ [PAD, PAD]"
| "base64_ref [a, b] = take 3 (b64_digits (unat a * 256 ^ 2 + unat b * 256)) @ [PAD]"
| "base64_ref (a # b # c # r) = b64_digits (unat a * 256 ^ 2 + unat b * 256 + unat c) @ base64_ref r"

section \<open>Bytes and digits\<close>

lemma byte_masks: "(a :: byte) AND 3 = take_bit 2 a" "a AND 15 = take_bit 4 a" "a AND 63 = take_bit 6 a"
  by (simp_all add: take_bit_eq_mask mask_eq_exp_minus_1)

text \<open>The indices the encoder computes, as numbers.\<close>

lemma unat_digits:
  "unat (drop_bit 2 (a :: byte)) = unat a div 4"
  "unat (push_bit 4 (a AND 3) OR drop_bit 4 b) = (unat a mod 4) * 16 + unat b div 16"
  "unat (push_bit 2 (b AND 15) OR drop_bit 6 c) = (unat b mod 16) * 4 + unat c div 64"
  "unat (c AND 63) = unat c mod 64"
  "unat (push_bit 4 (a AND 3)) = (unat a mod 4) * 16"
  "unat (push_bit 2 (b AND 15)) = (unat b mod 16) * 4"
proof -
  have d: "unat b div 16 < 16" "unat c div 64 < 4" using byte_unat_less [of b] byte_unat_less [of c] by (simp_all add: div_less_iff_less_mult del: byte_unat_less)
  show "unat (drop_bit 2 a) = unat a div 4" using unat_drop [of 2 a] by simp
  show "unat (c AND 63) = unat c mod 64" using unat_take [of 6 c] by (simp add: byte_masks)
  show "unat (push_bit 4 (a AND 3) OR drop_bit 4 b) = (unat a mod 4) * 16 + unat b div 16"
    using unat_push_or [of "drop_bit 4 b" 4 "take_bit 2 a"] d unat_take [of 2 a] unat_drop [of 4 b] by (simp add: byte_masks)
  show "unat (push_bit 2 (b AND 15) OR drop_bit 6 c) = (unat b mod 16) * 4 + unat c div 64"
    using unat_push_or [of "drop_bit 6 c" 2 "take_bit 4 b"] d unat_take [of 4 b] unat_drop [of 6 c] by (simp add: byte_masks)
  show "unat (push_bit 4 (a AND 3)) = (unat a mod 4) * 16"
    using unat_push [of 4 "take_bit 2 a"] unat_take [of 2 a] by (simp add: byte_masks)
  show "unat (push_bit 2 (b AND 15)) = (unat b mod 16) * 4"
    using unat_push [of 2 "take_bit 4 b"] unat_take [of 4 b] by (simp add: byte_masks)
qed


lemma radix_step: "(d :: nat) < 64 \<Longrightarrow> (q * 64 + d) div 64 = q" "d < 64 \<Longrightarrow> (q * 64 + d) mod 64 = d"
  by simp_all

lemma radix_digits:
  fixes a b c :: nat
  assumes "b < 256" "c < 256"
  shows "(a * 256 ^ 2 + b * 256 + c) div 64 ^ 3 = a div 4"
    "(a * 256 ^ 2 + b * 256 + c) div 64 ^ 2 mod 64 = (a mod 4) * 16 + b div 16"
    "(a * 256 ^ 2 + b * 256 + c) div 64 mod 64 = (b mod 16) * 4 + c div 64"
    "(a * 256 ^ 2 + b * 256 + c) mod 64 = c mod 64"
proof -
  define n where "n = a * 256 ^ 2 + b * 256 + c"
  define d1 d2 where "d1 = (a mod 4) * 16 + b div 16" "d2 = (b mod 16) * 4 + c div 64"
  have "b div 16 < 16" "c div 64 < 4" "a mod 4 < 4" "b mod 16 < 16" using assms by simp_all
  then have small: "d1 < 64" "d2 < 64" "c mod 64 < 64" unfolding d1_d2_def by linarith+
  have pow: "(256 :: nat) ^ 2 = 65536" by simp
  have group: "(4 * a1 + a0) * 65536 + (16 * b1 + b0) * 256 + (64 * c1 + c0) = ((a1 * 64 + (a0 * 16 + b1)) * 64 + (b0 * 4 + c1)) * 64 + c0"
    for a1 a0 b1 b0 c1 c0 :: nat by simp
  have n: "n = ((a div 4 * 64 + d1) * 64 + d2) * 64 + c mod 64"
    using group [of "a div 4" "a mod 4" "b div 16" "b mod 16" "c div 64" "c mod 64"]
    by (simp only: mult_div_mod_eq n_def d1_d2_def pow)
  have "n mod 64 = c mod 64" "n div 64 = (a div 4 * 64 + d1) * 64 + d2" unfolding n by (simp_all only: radix_step small)
  then have "n mod 64 = c mod 64" "n div 64 mod 64 = d2" "n div 64 div 64 = a div 4 * 64 + d1" by (simp_all only: radix_step small)
  then have "n mod 64 = c mod 64" "n div 64 mod 64 = d2" "n div 64 div 64 mod 64 = d1" "n div 64 div 64 div 64 = a div 4"
    by (simp_all only: radix_step small)
  moreover have "n div 64 ^ 2 = n div 64 div 64" "n div 64 ^ 3 = n div 64 div 64 div 64"
    by (simp_all add: div_mult2_eq [symmetric])
  ultimately show "(a * 256 ^ 2 + b * 256 + c) div 64 ^ 3 = a div 4"
    "(a * 256 ^ 2 + b * 256 + c) div 64 ^ 2 mod 64 = (a mod 4) * 16 + b div 16"
    "(a * 256 ^ 2 + b * 256 + c) div 64 mod 64 = (b mod 16) * 4 + c div 64"
    "(a * 256 ^ 2 + b * 256 + c) mod 64 = c mod 64"
    unfolding n_def d1_d2_def by simp_all
qed

text \<open>The characters of one group, as the code looks them up.\<close>

lemma index_bounds:
  fixes x y :: nat
  assumes "x < 256" "y < 256"
  shows "x mod 4 * 16 + y div 16 < 64" "x mod 16 * 4 + y div 64 < 64" "x div 4 < 64" "x mod 4 * 16 < 64" "x mod 16 * 4 < 64"
proof -
  have "x mod 4 < 4" "x mod 16 < 16" "y div 16 < 16" "y div 64 < 4" "x div 4 < 64" using assms by simp_all
  then show "x mod 4 * 16 + y div 16 < 64" "x mod 16 * 4 + y div 64 < 64" "x div 4 < 64" "x mod 4 * 16 < 64" "x mod 16 * 4 < 64"
    by linarith+
qed

lemma b64_lookup_digits: "list_all (\<lambda>i. unat i < 64) is \<Longrightarrow> map unat is = ds \<Longrightarrow> b64_lookup is = Inr (map b64_char ds)"
  using b64_lookup_ok [of "is"] by (auto simp: b64_char_def)

lemma enc_group:
  "b64_lookup [drop_bit 2 a, push_bit 4 (a AND 3) OR drop_bit 4 b, push_bit 2 (b AND 15) OR drop_bit 6 c, c AND 63] =
     Inr (b64_digits (unat a * 256 ^ 2 + unat b * 256 + unat c))" (is "b64_lookup ?three = _")
  "b64_lookup [drop_bit 2 a, push_bit 4 (a AND 3) OR drop_bit 4 b, push_bit 2 (b AND 15)] =
     Inr (take 3 (b64_digits (unat a * 256 ^ 2 + unat b * 256)))" (is "b64_lookup ?two = _")
  "b64_lookup [drop_bit 2 a, push_bit 4 (a AND 3)] = Inr (take 2 (b64_digits (unat a * 256 ^ 2)))" (is "b64_lookup ?one = _")
proof -
  note bounds = index_bounds [OF byte_unat_less byte_unat_less]
  have "list_all (\<lambda>i. unat i < 64) ?three" "list_all (\<lambda>i. unat i < 64) ?two" "list_all (\<lambda>i. unat i < 64) ?one"
    by (simp_all only: list.pred_inject unat_digits bounds) simp_all
  note lookups = this [THEN b64_lookup_digits, OF refl]
  have digits: "b64_digits (unat a * 256 ^ 2 + unat b * 256 + k) = map b64_char
      [unat a div 4, unat a mod 4 * 16 + unat b div 16, unat b mod 16 * 4 + k div 64, k mod 64]" if "k < 256" for k
    by (simp only: b64_digits_def radix_digits [OF byte_unat_less that])
  have digits1: "b64_digits (unat a * 256 ^ 2) = map b64_char [unat a div 4, unat a mod 4 * 16, 0, 0]"
    using radix_digits [of 0 0 "unat a"] by (simp add: b64_digits_def)
  show "b64_lookup ?three = Inr (b64_digits (unat a * 256 ^ 2 + unat b * 256 + unat c))"
    by (simp only: lookups digits byte_unat_less list.map unat_digits)
  show "b64_lookup ?two = Inr (take 3 (b64_digits (unat a * 256 ^ 2 + unat b * 256)))"
    using digits [of 0] by (simp only: lookups list.map unat_digits) simp
  show "b64_lookup ?one = Inr (take 2 (b64_digits (unat a * 256 ^ 2)))"
    by (simp only: lookups digits1 list.map unat_digits) simp
qed


section \<open>The encoder computes the reference encoding\<close>

lemma b64_digits_length [simp]: "length (b64_digits n) = 4"
  by (simp add: b64_digits_def)

lemma base64_ref_length: "length (base64_ref src) = 4 * ((length src + 2) div 3)"
proof (induction src rule: base64_ref.induct)
  case (4 a b c r)
  then show ?case using div_add_self2 [of 3 "length r + 2"] by (simp add: add.commute)
qed simp_all

lemma b64_olen_enough: "len < 2 ^ 62 \<Longrightarrow> 4 * ((len + 2) div 3) + 2 \<le> b64_olen len"
proof -
  assume "len < 2 ^ 62"
  then have "b64_olen len \<ge> len * 4 div 3 + 5" by (simp add: b64_olen_def Let_def)
  then show ?thesis by linarith
qed

lemma b64_enc_tail_ref:
  "b64_enc_tail [] pos out ll = Inr (pos, out, ll)"
  "b64_enc_tail [a] pos out ll = run_bind (puts out pos (base64_ref [a])) (\<lambda>out. Inr (pos + 4, out, ll + 4))"
  "b64_enc_tail [a, b] pos out ll = run_bind (puts out pos (base64_ref [a, b])) (\<lambda>out. Inr (pos + 4, out, ll + 4))"
  by (simp_all only: b64_enc_tail_def list.case enc_group run_bind_Inr base64_ref.simps append_assoc append.simps)

lemma b64_enc_spec:
  "pos + length (base64_ref src) \<le> length out \<Longrightarrow>
     run_bind (b64_enc_loop src pos out ll) (\<lambda>(inp, pos, out, ll). b64_enc_tail inp pos out ll) =
     Inr (pos + length (base64_ref src), take pos out @ base64_ref src @ drop (pos + length (base64_ref src)) out,
          ll + int (length (base64_ref src)))"
proof (induction src arbitrary: pos out ll rule: base64_ref.induct)
  case (4 a b c r)
  let ?g = "b64_digits (unat a * 256 ^ 2 + unat b * 256 + unat c)"
  define out1 where "out1 = take pos out @ ?g @ drop (pos + 4) out"
  have room: "pos + 4 + length (base64_ref r) \<le> length out1" using 4(2) by (simp add: out1_def)
  have "puts out pos ?g = Inr out1" using 4(2) puts_ok [of pos ?g out] by (simp add: out1_def)
  then have "b64_enc_loop (a # b # c # r) pos out ll = b64_enc_loop r (pos + 4) out1 (ll + 4)"
    by (simp only: b64_enc_loop.simps enc_group run_bind_Inr)
  moreover have "take (pos + 4) out1 = take pos out @ ?g" "drop (pos + 4 + k) out1 = drop (pos + 4 + k) out" for k
    using 4(2) by (simp_all add: out1_def add.commute)
  ultimately show ?case using 4(1) [OF room, of "ll + 4"] by (simp add: add.assoc)
qed (simp_all add: b64_enc_tail_ref base64_ref_length base64_ref.simps(1) puts_ok del: base64_ref.simps(2-4))


lemma base64_encode_ok:
  assumes "mem_alloc_ok alloc" "alloc (b64_olen (length src)) = Some heap" "src \<noteq> []" "length src < 2 ^ 62"
  shows "\<exists>out. base64_encode alloc True src = Inr (Some (out, length (base64_ref src) + 1)) \<and>
    take (length (base64_ref src) + 1) out = base64_ref src @ [0] \<and> length out = length heap"
proof -
  let ?r = "base64_ref src"
  have len: "length heap = b64_olen (length src)" using assms(1,2) by (rule mem_alloc_okD)
  have room: "length ?r + 2 \<le> length heap" using b64_olen_enough [OF assms(4)] by (simp add: base64_ref_length len)
  define out where "out = ?r @ drop (length ?r) heap"
  have enc: "run_bind (b64_enc_loop src 0 heap 0) (\<lambda>(inp, pos, out, ll). b64_enc_tail inp pos out ll) =
      Inr (length ?r, out, int (length ?r))"
    using b64_enc_spec [of 0 src heap 0] room by (simp add: out_def)
  have "length ?r \<noteq> 0" using assms(3) by (cases src) (simp_all add: base64_ref_length)
  moreover have "length ?r < length out" "Suc (length ?r) < length out" using room by (simp_all add: out_def)
  moreover obtain inp pos out' ll where "b64_enc_loop src 0 heap 0 = Inr (inp, pos, out', ll)"
      "b64_enc_tail inp pos out' ll = Inr (length ?r, out, int (length ?r))"
    using enc by (auto simp: run_bind_eq_Inr)
  ultimately have "base64_encode alloc True src =
      Inr (Some (out[length ?r := 10, Suc (length ?r) := 0, length ?r := 0], length ?r + 1))"
    by (simp add: base64_encode_def assms(2))
  moreover have "take (length ?r + 1) (out[length ?r := 10, Suc (length ?r) := 0, length ?r := 0]) = ?r @ [0]"
    using room by (simp add: take_Suc_conv_app_nth out_def)
  moreover have "length out = length heap" using room by (simp add: out_def)
  ultimately show ?thesis by auto
qed


lemma base64_encode_null:
  assumes "alloc (b64_olen (length src)) = Some heap" "length (base64_ref src) + 2 \<le> length heap"
  shows "base64_encode alloc False src = Inl NullDeref"
proof -
  let ?r = "base64_ref src"
  obtain inp pos out' ll out where "b64_enc_loop src 0 heap 0 = Inr (inp, pos, out', ll)"
      "b64_enc_tail inp pos out' ll = Inr (length ?r, out, int (length ?r))" "length out = length heap"
    using b64_enc_spec [of 0 src heap 0] assms(2) by (auto simp: run_bind_eq_Inr)
  moreover from this(3) assms(2) have "0 < length out" "length ?r < length out" "Suc (length ?r) < length out" by linarith+
  ultimately show ?thesis using assms(1) by (simp add: base64_encode_def)
qed

section \<open>The decoder\<close>

definition b64_valid :: "byte \<Rightarrow> bool" where
  "b64_valid c \<longleftrightarrow> dtable ! unat c \<noteq> 0x80"

definition dec4 :: "byte \<Rightarrow> byte \<Rightarrow> byte \<Rightarrow> byte \<Rightarrow> byte list" where
  "dec4 b0 b1 b2 b3 = [push_bit 2 b0 OR drop_bit 4 b1, push_bit 4 b1 OR drop_bit 2 b2, push_bit 6 b2 OR b3]"

fun dec_groups :: "byte list \<Rightarrow> byte list" where
  "dec_groups (c0 # c1 # c2 # c3 # r) =
     dec4 (dtable ! unat c0) (dtable ! unat c1) (dtable ! unat c2) (dtable ! unat c3) @ dec_groups r"
| "dec_groups _ = []"

lemma b64_valid_abs: "b64_valid = (\<lambda>c. dtable ! unat c \<noteq> 0x80)"
  by (rule ext) (rule b64_valid_def)

lemma b64_dec_loop_valid: "b64_dec_loop src st = b64_dec_loop (filter b64_valid src) st"
proof (induction src arbitrary: st)
  case (Cons c src)
  then show ?case by (cases st) (simp add: b64_valid_def Let_def cong: if_cong)
qed simp

lemma list_of_four: "length xs = 4 \<longleftrightarrow> (\<exists>a b c d. xs = [a, b, c, d])"
  by (auto simp: length_Suc_conv eval_nat_numeral)

lemma b64_dec_loop_group:
  assumes "b64_valid c0" "b64_valid c1" "b64_valid c2" "b64_valid c3" "length inb = 4" "length block = 4" "pos + 3 \<le> length out"
  defines "ds \<equiv> map (\<lambda>c. dtable ! unat c) [c0, c1, c2, c3]"
  shows "b64_dec_loop (c0 # c1 # c2 # c3 # r) (inb, block, 0, out, pos) =
    b64_dec_loop r ([c0, c1, c2, c3], ds, 0, take pos out @ dec_groups [c0, c1, c2, c3] @ drop (pos + 3) out, pos + 3)"
proof -
  obtain i0 i1 i2 i3 where inb: "inb = [i0, i1, i2, i3]" using assms(5) by (auto simp: list_of_four)
  obtain b0 b1 b2 b3 where block: "block = [b0, b1, b2, b3]" using assms(6) by (auto simp: list_of_four)
  define g where "g = dec4 (dtable ! unat c0) (dtable ! unat c1) (dtable ! unat c2) (dtable ! unat c3)"
  have "length g = 3" by (simp add: g_def dec4_def)
  with assms(7) have "puts out pos g = Inr (take pos out @ g @ drop (pos + 3) out)" by (simp add: puts_ok)
  then show ?thesis using assms(1-4)
    by (simp add: inb block b64_valid_def Let_def g_def dec4_def [symmetric] ds_def wr_def)
qed


lemma b64_dec_loop_groups:
  assumes "list_all b64_valid cs" "4 dvd length cs" "length inb = 4" "length block = 4"
    "pos + length (dec_groups cs) \<le> length out"
  shows "\<exists>inb' block'. b64_dec_loop cs (inb, block, 0, out, pos) =
      Inr (inb', block', 0, take pos out @ dec_groups cs @ drop (pos + length (dec_groups cs)) out, pos + length (dec_groups cs)) \<and>
    inb' = (if cs = [] then inb else drop (length cs - 4) cs)"
  using assms
proof (induction cs arbitrary: inb block out pos rule: dec_groups.induct)
  case (1 c0 c1 c2 c3 r)
  let ?ds = "map (\<lambda>c. dtable ! unat c) [c0, c1, c2, c3]"
  let ?g = "dec_groups [c0, c1, c2, c3]"
  define out1 where "out1 = take pos out @ ?g @ drop (pos + 3) out"
  have g: "length ?g = 3" "dec_groups (c0 # c1 # c2 # c3 # r) = ?g @ dec_groups r" by (simp_all add: dec4_def)
  have "4 dvd length r" using 1(3) by (simp add: dvd_def) presburger
  moreover have "pos + 3 + length (dec_groups r) \<le> length out1" using 1(6) g by (simp add: out1_def)
  ultimately obtain inb' block' where IH: "b64_dec_loop r ([c0, c1, c2, c3], ?ds, 0, out1, pos + 3) =
      Inr (inb', block', 0, take (pos + 3) out1 @ dec_groups r @ drop (pos + 3 + length (dec_groups r)) out1, pos + 3 + length (dec_groups r))"
    "inb' = (if r = [] then [c0, c1, c2, c3] else drop (length r - 4) r)"
    using 1(1) [of "[c0, c1, c2, c3]" ?ds "pos + 3" out1] 1(2) by auto
  have "take (pos + 3) out1 = take pos out @ ?g" "drop (pos + 3 + k) out1 = drop (pos + 3 + k) out" for k
    using 1(6) g by (simp_all add: out1_def add.commute)
  moreover have "b64_dec_loop (c0 # c1 # c2 # c3 # r) (inb, block, 0, out, pos) = b64_dec_loop r ([c0, c1, c2, c3], ?ds, 0, out1, pos + 3)"
    unfolding out1_def by (rule b64_dec_loop_group) (use 1(2-6) g in simp_all)
  moreover have "inb' = drop (length (c0 # c1 # c2 # c3 # r) - 4) (c0 # c1 # c2 # c3 # r)"
  proof (cases "r = []")
    case False
    with \<open>4 dvd length r\<close> have "4 \<le> length r" by (auto dest: dvd_imp_le)
    then obtain n where "length r = n + 4" using le_iff_add by (metis add.commute)
    with IH(2) False show ?thesis by (simp add: eval_nat_numeral)
  qed (simp add: IH(2))
  ultimately show ?case using IH(1) g by (simp add: add.assoc)
qed (auto dest!: dvd_imp_le)


text \<open>What a whole group decodes to.\<close>

lemma dec4_digits:
  fixes a b c :: byte
  shows "dec4 (of_nat (unat a div 4)) (of_nat (unat a mod 4 * 16 + unat b div 16)) (of_nat (unat b mod 16 * 4 + unat c div 64))
    (of_nat (unat c mod 64)) = [a, b, c]"
proof -
  note bounds = index_bounds [OF byte_unat_less byte_unat_less]
  define d0 d1 d2 d3 where d: "d0 = unat a div 4" "d1 = unat a mod 4 * 16 + unat b div 16" "d2 = unat b mod 16 * 4 + unat c div 64" "d3 = unat c mod 64"
  have small: "d0 < 64" "d1 < 64" "d2 < 64" "d3 < 64" unfolding d using bounds by simp_all
  have or: "unat (push_bit k (of_nat x) OR y :: byte) = x * 2 ^ k mod 256 + unat y" if "unat y < 2 ^ k" "k \<le> 8" "x < 64" for k x y
    using unat_push_or [OF that(1,2), of "of_nat x"] that(3) by simp
  have drop: "unat (drop_bit k (of_nat x) :: byte) = x div 2 ^ k" if "x < 64" for k x
    using that by (simp add: unat_drop del: drop_bit_of_nat)
  have hi: "unat b div 16 < 16" "unat c div 64 < 4" using byte_unat_less [of b] byte_unat_less [of c] by (simp_all add: div_less_iff_less_mult del: byte_unat_less)
  have wrap: "(p * 16 + q) * 16 mod 256 = q * 16" "(p * 4 + r) * 64 mod 256 = r * 64" if "q < 16" "r < 4" for p q r :: nat
  proof -
    have "(p * 16 + q) * 16 = q * 16 + p * 256" "(p * 4 + r) * 64 = r * 64 + p * 256" by simp_all
    with that show "(p * 16 + q) * 16 mod 256 = q * 16" "(p * 4 + r) * 64 mod 256 = r * 64" by (simp_all only: mod_mult_self1) simp_all
  qed
  have parts: "d1 div 16 = unat a mod 4" "d1 * 16 mod 256 = unat b div 16 * 16" "d2 div 4 = unat b mod 16" "d2 * 64 mod 256 = unat c div 64 * 64"
    "d0 * 4 mod 256 = unat a div 4 * 4" "d1 div 16 < 4" "d2 div 4 < 16"
    unfolding d using hi small(1) wrap by (simp_all add: d)
  have t1: "unat (drop_bit 4 (of_nat d1) :: byte) = unat a mod 4" using drop [OF small(2), of 4] parts(1) by simp
  have t2: "unat (drop_bit 2 (of_nat d2) :: byte) = unat b mod 16" using drop [OF small(3), of 2] parts(3) by simp
  have t3: "unat (of_nat d3 :: byte) = unat c mod 64" using small(4) by (simp add: d(4))
  have "unat (push_bit 2 (of_nat d0) OR drop_bit 4 (of_nat d1) :: byte) = unat a div 4 * 4 + unat a mod 4"
    using or [of "drop_bit 4 (of_nat d1)" 2 d0, unfolded t1] parts(5) small(1) by simp
  then have "push_bit 2 (of_nat d0) OR drop_bit 4 (of_nat d1) = a" by (intro byte_eqI) simp
  moreover have "unat (push_bit 4 (of_nat d1) OR drop_bit 2 (of_nat d2) :: byte) = unat b div 16 * 16 + unat b mod 16"
    using or [of "drop_bit 2 (of_nat d2)" 4 d1, unfolded t2] parts(2) small(2) by simp
  then have "push_bit 4 (of_nat d1) OR drop_bit 2 (of_nat d2) = b" by (intro byte_eqI) simp
  moreover have "unat (push_bit 6 (of_nat d2) OR of_nat d3 :: byte) = unat c div 64 * 64 + unat c mod 64"
    using or [of "of_nat d3" 6 d2, unfolded t3] parts(4) small(3) by simp
  then have "push_bit 6 (of_nat d2) OR of_nat d3 = c" by (intro byte_eqI) simp
  ultimately show ?thesis unfolding dec4_def d [symmetric] by (simp only:)
qed


lemma dtable_chars: "list_all (\<lambda>d. dtable ! unat (b64_char d) = of_nat d \<and> b64_char d \<noteq> PAD) [0..<64]"
  by code_simp

lemma dtable_char:
  assumes "d < 64"
  shows "dtable ! unat (b64_char d) = of_nat d" "b64_char d \<noteq> PAD" "b64_valid (b64_char d)"
proof -
  show d: "dtable ! unat (b64_char d) = of_nat d" and "b64_char d \<noteq> PAD" using assms dtable_chars by (auto simp: list_all_iff)
  have "unat (of_nat d :: byte) \<noteq> unat (0x80 :: byte)" using byte_of_nat [of d] assms by simp
  then have "(of_nat d :: byte) \<noteq> 0x80" by metis
  with d show "b64_valid (b64_char d)" by (simp add: b64_valid_def)
qed

lemma dtable_special: "dtable ! unat PAD = 0" "\<not> b64_valid 0"
proof -
  have "dtable ! unat PAD = 0 \<and> \<not> b64_valid 0" by code_simp
  then show "dtable ! unat PAD = 0" "\<not> b64_valid 0" by simp_all
qed

lemma b64_valid_pad [simp]: "b64_valid PAD"
  unfolding b64_valid_def dtable_special(1) by simp

lemma fold_update_other: "k \<notin> f ` set is \<Longrightarrow> fold (\<lambda>i d. d[f i := g i]) is d ! k = d ! k"
  by (induction "is" arbitrary: d) auto

lemma b64_valid_iff: "b64_valid c \<longleftrightarrow> c = PAD \<or> c \<in> set base64_table"
proof (cases "c = PAD \<or> c \<in> set base64_table")
  case True
  then show ?thesis
  proof
    assume "c \<in> set base64_table"
    then obtain d where "d < 64" "c = b64_char d" by (auto simp: in_set_conv_nth b64_char_def)
    with dtable_char(3) show ?thesis using True by simp
  qed simp
next
  case False
  let ?f = "\<lambda>i. unat (base64_table ! i)"
  have "unat c \<noteq> ?f i" if "i < 64" for i
    using False that nth_mem [of i base64_table] by (metis base64_table_length unsigned_word_eqI)
  then have "unat c \<notin> ?f ` set [0..<64]" unfolding image_iff by (metis atLeastLessThan_iff set_upt)
  then have "fold (\<lambda>i d. d[?f i := of_nat i]) [0..<64] (replicate 256 (0x80 :: byte)) ! unat c = replicate 256 0x80 ! unat c"
    by (rule fold_update_other)
  moreover have "unat PAD \<noteq> unat c" using False byte_eqI [of PAD c] by metis
  ultimately have "dtable ! unat c = replicate 256 0x80 ! unat c" unfolding dtable_def by (simp only: nth_list_update_neq not_False_eq_True)
  then have "\<not> b64_valid c" by (simp add: b64_valid_def)
  with False show ?thesis by simp
qed

text \<open>The characters of one group and the bytes they stand for.\<close>

lemma ref_group:
  fixes a b c :: byte
  defines "g \<equiv> b64_digits (unat a * 256 ^ 2 + unat b * 256 + unat c)"
  shows "dec_groups (g @ r) = a # b # c # dec_groups r" "list_all b64_valid g" "PAD \<notin> set g"
    "\<exists>c0 c1 c2 c3. g = [c0, c1, c2, c3] \<and> (c = 0 \<longrightarrow> dtable ! unat c3 = 0) \<and> (b = 0 \<and> c = 0 \<longrightarrow> dtable ! unat c2 = 0)"
proof -
  note bounds = index_bounds [OF byte_unat_less byte_unat_less]
  let ?ds = "[unat a div 4, unat a mod 4 * 16 + unat b div 16, unat b mod 16 * 4 + unat c div 64, unat c mod 64]"
  have g: "g = map b64_char ?ds"
    unfolding g_def by (simp only: b64_digits_def radix_digits [OF byte_unat_less byte_unat_less])
  have small: "list_all (\<lambda>d. d < 64) ?ds" using bounds by simp
  then have dt: "\<forall>d \<in> set ?ds. dtable ! unat (b64_char d) = of_nat d \<and> b64_char d \<noteq> PAD \<and> b64_valid (b64_char d)"
    using dtable_char by (simp only: list_all_iff) blast
  then show "list_all b64_valid g" "PAD \<notin> set g" unfolding g by auto
  show "dec_groups (g @ r) = a # b # c # dec_groups r"
    unfolding g using dt dec4_digits [of a b c] by simp
  show "\<exists>c0 c1 c2 c3. g = [c0, c1, c2, c3] \<and> (c = 0 \<longrightarrow> dtable ! unat c3 = 0) \<and> (b = 0 \<and> c = 0 \<longrightarrow> dtable ! unat c2 = 0)"
    unfolding g using dtable_char(1) [of 0] by simp
qed

definition b64_pads :: "byte list \<Rightarrow> nat" where
  "b64_pads src = (if length src mod 3 = 0 then 0 else 3 - length src mod 3)"

lemma base64_ref_decodes:
  "dec_groups (base64_ref src) = src @ replicate (b64_pads src) 0"
  "list_all b64_valid (base64_ref src)"
  "src \<noteq> [] \<Longrightarrow> length (base64_ref src) \<ge> 4 \<and>
     (base64_ref src ! (length (base64_ref src) - 2) = PAD \<longleftrightarrow> b64_pads src = 2) \<and>
     (base64_ref src ! (length (base64_ref src) - 1) = PAD \<longleftrightarrow> b64_pads src > 0)"
proof (induction src rule: base64_ref.induct)
  case (2 a)
  obtain c0 c1 c2 c3 where g: "b64_digits (unat a * 256 ^ 2) = [c0, c1, c2, c3]" "dtable ! unat c2 = 0" "dtable ! unat c3 = 0"
    using ref_group(4) [of a 0 0] by auto
  have pads: "replicate (b64_pads [a]) (0 :: byte) = [0, 0]" by (simp add: b64_pads_def numeral_2_eq_2)
  have ref: "base64_ref [a] = [c0, c1, PAD, PAD]" using g by (simp add: numeral_2_eq_2)
  show "dec_groups (base64_ref [a]) = [a] @ replicate (b64_pads [a]) 0"
    unfolding pads ref using ref_group(1) [of a 0 0 "[]"] g dtable_special by simp
  show "list_all b64_valid (base64_ref [a])" using ref_group(2) [of a 0 0] g by simp
  show "length (base64_ref [a]) \<ge> 4 \<and> (base64_ref [a] ! (length (base64_ref [a]) - 2) = PAD \<longleftrightarrow> b64_pads [a] = 2) \<and>
     (base64_ref [a] ! (length (base64_ref [a]) - 1) = PAD \<longleftrightarrow> b64_pads [a] > 0)"
    using g by (simp add: b64_pads_def)
next
  case (3 a b)
  obtain c0 c1 c2 c3 where g: "b64_digits (unat a * 256 ^ 2 + unat b * 256) = [c0, c1, c2, c3]" "dtable ! unat c3 = 0"
    using ref_group(4) [of a b 0] by auto
  show "dec_groups (base64_ref [a, b]) = [a, b] @ replicate (b64_pads [a, b]) 0"
    using ref_group(1) [of a b 0 "[]"] g dtable_special by (simp add: b64_pads_def)
  show "list_all b64_valid (base64_ref [a, b])" using ref_group(2) [of a b 0] g by simp
  show "length (base64_ref [a, b]) \<ge> 4 \<and> (base64_ref [a, b] ! (length (base64_ref [a, b]) - 2) = PAD \<longleftrightarrow> b64_pads [a, b] = 2) \<and>
     (base64_ref [a, b] ! (length (base64_ref [a, b]) - 1) = PAD \<longleftrightarrow> b64_pads [a, b] > 0)"
    using g ref_group(3) [of a b 0] by (simp add: b64_pads_def)
next
  case (4 a b c r)
  define g where "g = b64_digits (unat a * 256 ^ 2 + unat b * 256 + unat c)"
  note group = ref_group [of a b c, folded g_def]
  obtain c0 c1 c2 c3 where g: "g = [c0, c1, c2, c3]" using group(4) by blast
  have "length (a # b # c # r) = length r + 3" by simp
  then have pads: "b64_pads (a # b # c # r) = b64_pads r" by (simp only: b64_pads_def mod_add_self2)
  have ref: "base64_ref (a # b # c # r) = g @ base64_ref r" by (simp add: g_def)
  show "dec_groups (base64_ref (a # b # c # r)) = (a # b # c # r) @ replicate (b64_pads (a # b # c # r)) 0"
    unfolding ref pads using group(1) 4(1) by simp
  show "list_all b64_valid (base64_ref (a # b # c # r))" unfolding ref using group(2) 4(2) by simp
  show "length (base64_ref (a # b # c # r)) \<ge> 4 \<and>
     (base64_ref (a # b # c # r) ! (length (base64_ref (a # b # c # r)) - 2) = PAD \<longleftrightarrow> b64_pads (a # b # c # r) = 2) \<and>
     (base64_ref (a # b # c # r) ! (length (base64_ref (a # b # c # r)) - 1) = PAD \<longleftrightarrow> b64_pads (a # b # c # r) > 0)"
  proof (cases "r = []")
    case True
    with group(3) g show ?thesis unfolding ref pads by (simp add: b64_pads_def)
  next
    case False
    then have "4 \<le> length (base64_ref r)" using 4(3) by simp
    then have "length (g @ base64_ref r) - 2 = length g + (length (base64_ref r) - 2)"
      "length (g @ base64_ref r) - 1 = length g + (length (base64_ref r) - 1)" by simp_all
    then show ?thesis unfolding ref pads using 4(3) [OF False] by (simp only: nth_append_length_plus) simp
  qed
qed (simp_all add: b64_pads_def)


lemma dec_groups_length: "length (dec_groups cs) = 3 * (length cs div 4)"
  by (induction cs rule: dec_groups.induct) (simp_all add: dec4_def div_add_self1)

text \<open>The number of bytes the decoder drops at the end.\<close>

definition b64_trim :: "byte list \<Rightarrow> nat" where
  "b64_trim v = (if v = [] then 0 else if v ! (length v - 2) = PAD then 2 else if v ! (length v - 1) = PAD then 1 else 0)"

lemma base64_decode_ok:
  fixes src :: "byte list"
  assumes "mem_alloc_ok alloc"
  defines "v \<equiv> filter b64_valid src"
  assumes "length v mod 4 = 0" "alloc (length v) = Some heap"
  shows "\<exists>out. base64_decode alloc g src = Inr (Some (out, length (dec_groups v) - b64_trim v)) \<and>
    take (length (dec_groups v)) out = dec_groups v"
proof -
  let ?n = "length (dec_groups v)"
  have room: "0 + ?n \<le> length heap" using mem_alloc_okD [OF assms(1,4)] by (simp add: dec_groups_length)
  have dvd: "4 dvd length v" using assms(3) by (simp add: dvd_eq_mod_eq_0)
  have "list_all b64_valid v" by (simp add: v_def list_all_iff)
  then obtain inb' block' where loop: "b64_dec_loop v (replicate 4 g, replicate 4 g, 0, heap, 0) =
      Inr (inb', block', 0, dec_groups v @ drop ?n heap, ?n)" "inb' = (if v = [] then replicate 4 g else drop (length v - 4) v)"
    using b64_dec_loop_groups [OF _ dvd _ _ room, of "replicate 4 g" "replicate 4 g"] by auto
  have cnt: "filter (\<lambda>c. dtable ! unat c \<noteq> 0x80) src = v" by (simp only: v_def b64_valid_abs)
  have "(if ?n > 0 then (if inb' ! 2 = PAD then ?n - 2 else if inb' ! 3 = PAD then ?n - 1 else ?n) else ?n) = ?n - b64_trim v"
  proof (cases "v = []")
    case False
    with dvd have "4 \<le> length v" by (auto dest: dvd_imp_le)
    moreover from this have "?n > 0" by (simp add: dec_groups_length)
    moreover have "length v - 4 + 2 = length v - 2" "length v - 4 + 3 = length v - 1" using \<open>4 \<le> length v\<close> by simp_all
    ultimately show ?thesis using False by (simp add: loop(2) b64_trim_def)
  qed (simp add: b64_trim_def)
  then have "base64_decode alloc g src = Inr (Some (dec_groups v @ drop ?n heap, ?n - b64_trim v))"
    unfolding base64_decode_def Let_def cnt b64_dec_loop_valid [of src] v_def [symmetric]
    by (simp add: assms(3,4) loop(1))
  then show ?thesis by simp
qed

section \<open>Properties\<close>





text \<open>
  What the decoder does with arbitrary input: bytes outside the alphabet and the padding
  character are ignored; when the number of the others is a multiple of four they are decoded
  group by group inside the allocated buffer and one or two bytes are dropped when the last group
  ends in padding; otherwise, or when the allocation fails, the result is \<open>NULL\<close>.
\<close>

theorem base64_decode_total:
  assumes "mem_alloc_ok alloc"
  shows "let v = filter (\<lambda>c. c = PAD \<or> c \<in> set base64_table) src in
    (length v mod 4 \<noteq> 0 \<or> alloc (length v) = None \<longrightarrow> base64_decode alloc g src = Inr None) \<and>
    (length v mod 4 = 0 \<and> alloc (length v) \<noteq> None \<longrightarrow>
       (\<exists>out. base64_decode alloc g src = Inr (Some (out, 3 * (length v div 4) - b64_trim v)) \<and>
         take (3 * (length v div 4)) out = dec_groups v))"
proof -
  have v: "filter (\<lambda>c. c = PAD \<or> c \<in> set base64_table) src = filter b64_valid src"
    by (simp only: b64_valid_iff [abs_def])
  have "base64_decode alloc g src = Inr None" if "length (filter b64_valid src) mod 4 \<noteq> 0 \<or> alloc (length (filter b64_valid src)) = None"
    using that unfolding b64_valid_abs by (auto simp: base64_decode_def Let_def)
  moreover have "\<exists>out. base64_decode alloc g src = Inr (Some (out, 3 * (length (filter b64_valid src) div 4) - b64_trim (filter b64_valid src))) \<and>
      take (3 * (length (filter b64_valid src) div 4)) out = dec_groups (filter b64_valid src)"
    if m: "length (filter b64_valid src) mod 4 = 0" and a: "alloc (length (filter b64_valid src)) = Some heap" for heap
    using base64_decode_ok [OF assms m a, of g] unfolding dec_groups_length .
  ultimately show ?thesis unfolding v Let_def not_None_eq by (intro conjI impI) (simp, elim conjE exE, simp)
qed

theorem base64_decode_total_witness:
  "base64_decode mem_alloc_ref 0 [0x54, 0x57, 0x45] = Inr None \<and>
   (\<exists>out. base64_decode mem_alloc_ref 0 [0x54, 10, 0x57, 0x45, 0x3D] = Inr (Some (out, 2)) \<and> take 3 out = [0x4D, 0x61, 0])"
proof -
  have "filter (\<lambda>c. c = PAD \<or> c \<in> set base64_table) [0x54, 0x57, 0x45] = [0x54, 0x57, 0x45]"
    "filter (\<lambda>c. c = PAD \<or> c \<in> set base64_table) [0x54, 10, 0x57, 0x45, 0x3D] = [0x54, 0x57, 0x45, 0x3D]"
    "dec_groups [0x54, 0x57, 0x45, 0x3D] = [0x4D, 0x61, 0]" "b64_trim [0x54, 0x57, 0x45, 0x3D] = 1"
    by code_simp+
  then show ?thesis
    using base64_decode_total [of mem_alloc_ref "[0x54, 0x57, 0x45]" 0] base64_decode_total [of mem_alloc_ref "[0x54, 10, 0x57, 0x45, 0x3D]" 0]
    by (simp add: mem_alloc_ref_def Let_def)
qed

end
