(* ===== verification/Duda_Cjson_Text.thy ===== *)
theory Duda_Cjson_Text
  imports Complex_Main Duda_Prelude
begin

text \<open>
  The texts of numbers and strings in \<open>packages/json/cJSON.c\<close>: \<open>parse_number\<close>, \<open>print_number\<close>,
  \<open>parse_string\<close>, \<open>print_string_ptr\<close> and \<open>skip\<close>. A text is C memory: the list of the bytes from the
  pointer on, with its terminating zero byte. An allocation is numbered in the order the program
  asks for it, and \<open>ok\<close> says which ones succeed.
\<close>

unbundle bit_operations_syntax

section \<open>Doubles\<close>

text \<open>
  A double is a rational number, an infinity or not a number. How results are rounded, the values
  of \<open>pow(10, k)\<close>, the conversion to \<open>int\<close> of a value it cannot hold and the formats \<open>%e\<close> and \<open>%f\<close> are
  left to the implementation.
\<close>

datatype dbl = Fin rat | PInf | NInf | NaN

record fenv =
  fl_rnd :: "rat \<Rightarrow> dbl"
  fl_pow10 :: "int \<Rightarrow> dbl"
  fl_to_int :: "dbl \<Rightarrow> int"
  fl_fmt_e :: "dbl \<Rightarrow> string"
  fl_fmt_f :: "dbl \<Rightarrow> string"

fun dneg :: "dbl \<Rightarrow> dbl" where
  "dneg (Fin a) = Fin (- a)"
| "dneg PInf = NInf"
| "dneg NInf = PInf"
| "dneg NaN = NaN"

fun dadd :: "fenv \<Rightarrow> dbl \<Rightarrow> dbl \<Rightarrow> dbl" where
  "dadd fe (Fin a) (Fin b) = fl_rnd fe (a + b)"
| "dadd fe NaN b = NaN"
| "dadd fe a NaN = NaN"
| "dadd fe PInf NInf = NaN"
| "dadd fe NInf PInf = NaN"
| "dadd fe PInf b = PInf"
| "dadd fe NInf b = NInf"
| "dadd fe a b = b"

definition dinf :: "bool \<Rightarrow> dbl" where
  "dinf pos = (if pos then PInf else NInf)"

fun dmul :: "fenv \<Rightarrow> dbl \<Rightarrow> dbl \<Rightarrow> dbl" where
  "dmul fe (Fin a) (Fin b) = fl_rnd fe (a * b)"
| "dmul fe NaN b = NaN"
| "dmul fe a NaN = NaN"
| "dmul fe (Fin a) b = (if a = 0 then NaN else dinf ((a > 0) = (b = PInf)))"
| "dmul fe a (Fin b) = (if b = 0 then NaN else dinf ((b > 0) = (a = PInf)))"
| "dmul fe a b = dinf (a = b)"

definition dsub :: "fenv \<Rightarrow> dbl \<Rightarrow> dbl \<Rightarrow> dbl" where
  "dsub fe a b = dadd fe a (dneg b)"

fun dle :: "dbl \<Rightarrow> dbl \<Rightarrow> bool" where
  "dle (Fin a) (Fin b) \<longleftrightarrow> a \<le> b"
| "dle NaN b \<longleftrightarrow> False"
| "dle a NaN \<longleftrightarrow> False"
| "dle NInf b \<longleftrightarrow> True"
| "dle a PInf \<longleftrightarrow> True"
| "dle a b \<longleftrightarrow> False"

fun dfabs :: "dbl \<Rightarrow> dbl" where
  "dfabs (Fin a) = Fin \<bar>a\<bar>"
| "dfabs NInf = PInf"
| "dfabs a = a"

fun dfloor :: "dbl \<Rightarrow> dbl" where
  "dfloor (Fin a) = Fin (of_int \<lfloor>a\<rfloor>)"
| "dfloor a = a"

definition DBL_EPSILON :: dbl where "DBL_EPSILON = Fin (1 / 2 ^ 52)"
definition INT_MAX :: int where "INT_MAX = 2 ^ 31 - 1"
definition INT_MIN :: int where "INT_MIN = - (2 ^ 31)"

section \<open>Numbers\<close>

definition is_digit :: "char \<Rightarrow> bool" where
  "is_digit c \<longleftrightarrow> of_char c \<in> {48 .. 57 :: nat}"

definition digit_val :: "char \<Rightarrow> nat" where
  "digit_val c = of_char c - 48"

definition dbl_digits :: "fenv \<Rightarrow> string \<Rightarrow> dbl \<Rightarrow> dbl" where
  "dbl_digits fe ds n = fold (\<lambda>c n. dadd fe (dmul fe n (Fin 10)) (Fin (of_nat (digit_val c)))) ds n"

text \<open>The exponent is accumulated in an \<open>int\<close>, which wraps around.\<close>

definition wrap32 :: "int \<Rightarrow> int" where
  "wrap32 i = sint (word_of_int i :: 32 word)"

definition int_digits :: "string \<Rightarrow> int" where
  "int_digits ds = fold (\<lambda>c n. wrap32 (wrap32 (n * 10) + int (digit_val c))) ds 0"

text \<open>Each step of \<open>parse_number\<close> begins by reading the byte at \<open>num\<close>.\<close>

definition num_sign :: "string \<Rightarrow> (bool \<times> string) run" where
  "num_sign num = run_bind (rd num 0) (\<lambda>c. Inr (if c = CHR ''-'' then (True, tl num) else (False, num)))"

definition num_zero :: "string \<Rightarrow> string run" where
  "num_zero num = run_bind (rd num 0) (\<lambda>c. Inr (if c = CHR ''0'' then tl num else num))"

definition num_int :: "fenv \<Rightarrow> string \<Rightarrow> (dbl \<times> string) run" where
  "num_int fe num =
     run_bind (rd num 0) (\<lambda>c.
       Inr (if is_digit c \<and> c \<noteq> CHR ''0'' then (dbl_digits fe (takeWhile is_digit num) (Fin 0), dropWhile is_digit num)
            else (Fin 0, num)))"

definition num_frac :: "fenv \<Rightarrow> dbl \<Rightarrow> string \<Rightarrow> (dbl \<times> int \<times> string) run" where
  "num_frac fe n num =
     run_bind (rd num 0) (\<lambda>c.
       if c = CHR ''.'' then run_bind (rd num 1) (\<lambda>d.
         Inr (if is_digit d
              then (let ds = takeWhile is_digit (tl num)
                    in (dbl_digits fe ds n, - int (length ds), dropWhile is_digit (tl num)))
              else (n, 0, num)))
       else Inr (n, 0, num))"

definition num_exp :: "string \<Rightarrow> (int \<times> string) run" where
  "num_exp num =
     run_bind (rd num 0) (\<lambda>c.
       if c = CHR ''e'' \<or> c = CHR ''E'' then
         run_bind (rd num 1) (\<lambda>s.
           (let num = (if s = CHR ''+'' \<or> s = CHR ''-'' then tl (tl num) else tl num);
                subscale = int_digits (takeWhile is_digit num)
            in Inr (if s = CHR ''-'' then wrap32 (- subscale) else subscale, dropWhile is_digit num)))
       else Inr (0, num))"

definition parse_number :: "fenv \<Rightarrow> string \<Rightarrow> (dbl \<times> int \<times> string) run" where
  "parse_number fe num =
     run_bind (num_sign num) (\<lambda>(neg, num).
     run_bind (num_zero num) (\<lambda>num.
     run_bind (num_int fe num) (\<lambda>(n, num).
     run_bind (num_frac fe n num) (\<lambda>(n, scale, num).
     run_bind (num_exp num) (\<lambda>(subscale, num).
       (let n = dmul fe (dmul fe (Fin (if neg then -1 else 1)) n) (fl_pow10 fe (scale + subscale))
        in Inr (n, fl_to_int fe n, num)))))))"

text \<open>
  The text is written to a block of 21 or 64 bytes. \<open>%.0f\<close> is only reached with values that are
  integers up to the tolerance.
\<close>

definition fmt_0f :: "dbl \<Rightarrow> string" where
  "fmt_0f d = (case d of Fin a \<Rightarrow> dec_int (round a) | PInf \<Rightarrow> ''inf'' | NInf \<Rightarrow> ''-inf'' | NaN \<Rightarrow> ''nan'')"

definition sprintf_block :: "nat \<Rightarrow> string \<Rightarrow> string run" where
  "sprintf_block sz t = (if length t < sz then Inr t else Inl OutOfBounds)"

definition print_number :: "fenv \<Rightarrow> (nat \<Rightarrow> bool) \<Rightarrow> dbl \<Rightarrow> int \<Rightarrow> nat \<Rightarrow> (string option \<times> nat) run" where
  "print_number fe ok d valueint n =
     (if dle (dfabs (dsub fe (Fin (of_int valueint)) d)) DBL_EPSILON \<and> dle d (Fin (of_int INT_MAX)) \<and> dle (Fin (of_int INT_MIN)) d
      then if ok n then run_bind (sprintf_block 21 (dec_int valueint)) (\<lambda>t. Inr (Some t, Suc n)) else Inr (None, Suc n)
      else if ok n then
        run_bind (sprintf_block 64
            (if dle (dfabs (dsub fe (dfloor d) d)) DBL_EPSILON then fmt_0f d
             else if \<not> dle (fl_rnd fe (1 / 10 ^ 6)) (dfabs d) \<and> d \<noteq> NaN \<or> \<not> dle (dfabs d) (Fin (10 ^ 9)) \<and> d \<noteq> NaN then fl_fmt_e fe d
             else fl_fmt_f fe d)) (\<lambda>t. Inr (Some t, Suc n))
      else Inr (None, Suc n))"

section \<open>Strings\<close>

definition skip :: "string \<Rightarrow> string" where
  "skip s = dropWhile (\<lambda>c. c \<noteq> NUL \<and> (of_char c :: nat) \<le> 32) s"

text \<open>The loop that counts how long the string can get.\<close>

fun str_count :: "string \<Rightarrow> nat run" where
  "str_count [] = Inl OutOfBounds"
| "str_count (c # cs) =
     (if c = CHR 0x22 \<or> c = NUL then Inr 0
      else if c = CHR 0x5C then (case cs of [] \<Rightarrow> Inl OutOfBounds | _ # cs' \<Rightarrow> map_sum id Suc (str_count cs'))
      else map_sum id Suc (str_count cs))"

text \<open>
  \<open>sscanf(s, "%4x", &uc)\<close>: white space, then at most four characters of a hexadecimal number with an
  optional sign and an optional prefix. \<open>None\<close>: nothing is assigned.
\<close>

definition is_space :: "char \<Rightarrow> bool" where
  "is_space c \<longleftrightarrow> of_char c \<in> insert 32 {9 .. 13 :: nat}"

definition hex_val :: "char \<Rightarrow> nat option" where
  "hex_val c =
     (let v = of_char c :: nat
      in if 48 \<le> v \<and> v \<le> 57 then Some (v - 48)
         else if 97 \<le> v \<and> v \<le> 102 then Some (v - 87)
         else if 65 \<le> v \<and> v \<le> 70 then Some (v - 55) else None)"

definition hex_num :: "string \<Rightarrow> nat option" where
  "hex_num s =
     (let ds = takeWhile (\<lambda>c. hex_val c \<noteq> None) s
      in if ds = [] then None else Some (foldl (\<lambda>n c. 16 * n + the (hex_val c)) 0 ds))"

definition sscanf_4x :: "string \<Rightarrow> 32 word option run" where
  "sscanf_4x s =
     (let s = dropWhile is_space s
      in if s = [] then Inl OutOfBounds
         else
           (let t = take 4 s; neg = (hd t = CHR ''-''); t = (if neg \<or> hd t = CHR ''+'' then tl t else t);
                t = (if length t \<ge> 2 \<and> t ! 0 = CHR ''0'' \<and> (t ! 1 = CHR ''x'' \<or> t ! 1 = CHR ''X'') then drop 2 t else t)
            in Inr (map_option (\<lambda>v. if neg then - of_nat v else of_nat v) (hex_num t))))"

definition firstByteMark :: "nat \<Rightarrow> 32 word" where
  "firstByteMark len = [0x00, 0x00, 0xC0, 0xE0, 0xF0, 0xF8, 0xFC] ! len"

definition utf8_len :: "32 word \<Rightarrow> nat" where
  "utf8_len uc = (if uc < 0x80 then 1 else if uc < 0x800 then 2 else if uc < 0x10000 then 3 else 4)"

definition byte_of :: "32 word \<Rightarrow> char" where
  "byte_of w = char_of (unat w)"

text \<open>The switch that falls through: \<open>k\<close> bytes are still to be written, the last one first.\<close>

fun utf8_write :: "nat \<Rightarrow> nat \<Rightarrow> 32 word \<Rightarrow> string \<Rightarrow> string \<times> 32 word" where
  "utf8_write len 0 uc bs = (bs, uc)"
| "utf8_write len (Suc 0) uc bs = (byte_of (uc OR firstByteMark len) # bs, uc)"
| "utf8_write len (Suc (Suc k)) uc bs = utf8_write len (Suc k) (drop_bit 6 uc) (byte_of ((uc OR 0x80) AND 0xBF) # bs)"

text \<open>
  The escape \<open>\u\<close>, from the byte after it: the bytes it stores, the variables \<open>uc\<close> and \<open>uc2\<close>, and how
  many bytes it goes on by.
\<close>

type_synonym uvar = "32 word option"

definition parse_unicode2 :: "32 word \<Rightarrow> uvar \<Rightarrow> string \<Rightarrow> (string \<times> uvar \<times> uvar \<times> nat) run" where
  "parse_unicode2 uc uc2 s =
     run_bind (rd s 4) (\<lambda>c1.
       if c1 \<noteq> CHR 0x5C then Inr ([], Some uc, uc2, 4)
       else run_bind (rd s 5) (\<lambda>c2.
         if c2 \<noteq> CHR ''u'' then Inr ([], Some uc, uc2, 4)
         else run_bind (sscanf_4x (drop 6 s)) (\<lambda>v.
           case (case v of None \<Rightarrow> uc2 | Some x \<Rightarrow> Some x) of None \<Rightarrow> Inl Uninit
           | Some w \<Rightarrow>
               if w < 0xDC00 \<or> w > 0xDFFF then Inr ([], Some uc, Some w, 10)
               else
                 (let uc = 0x10000 OR push_bit 10 (uc AND 0x3FF) OR (w AND 0x3FF);
                      (bs, uc') = utf8_write (utf8_len uc) (utf8_len uc) uc []
                  in Inr (bs, Some uc', Some w, 10)))))"

definition parse_unicode :: "uvar \<Rightarrow> uvar \<Rightarrow> string \<Rightarrow> (string \<times> uvar \<times> uvar \<times> nat) run" where
  "parse_unicode uc uc2 s =
     run_bind (sscanf_4x s) (\<lambda>v.
       case (case v of None \<Rightarrow> uc | Some x \<Rightarrow> Some x) of None \<Rightarrow> Inl Uninit
       | Some w \<Rightarrow>
           if 0xDC00 \<le> w \<and> w \<le> 0xDFFF \<or> w = 0 then Inr ([], Some w, uc2, 4)
           else if 0xD800 \<le> w \<and> w \<le> 0xDBFF then parse_unicode2 w uc2 s
           else (let (bs, uc') = utf8_write (utf8_len w) (utf8_len w) w [] in Inr (bs, Some uc', uc2, 4)))"

definition unescape :: "char \<Rightarrow> char" where
  "unescape c =
     (if c = CHR ''b'' then CHR 0x08 else if c = CHR ''f'' then CHR 0x0C else if c = CHR ''n'' then CHR 0x0A
      else if c = CHR ''r'' then CHR 0x0D else if c = CHR ''t'' then CHR 0x09 else c)"

text \<open>The loop that fills the block of \<open>cap\<close> bytes.\<close>

function str_loop :: "nat \<Rightarrow> uvar \<Rightarrow> uvar \<Rightarrow> string \<Rightarrow> string \<Rightarrow> (string \<times> string) run" where
  "str_loop cap uc uc2 out [] = Inl OutOfBounds"
| "str_loop cap uc uc2 out (c # cs) =
     (if c = CHR 0x22 \<or> c = NUL then Inr (out, c # cs)
      else if c \<noteq> CHR 0x5C then
        if length out < cap then str_loop cap uc uc2 (out @ [c]) cs else Inl OutOfBounds
      else
        (case cs of [] \<Rightarrow> Inl OutOfBounds
         | e # es \<Rightarrow>
             if e = CHR ''u'' then
               (case parse_unicode uc uc2 es of Inl f \<Rightarrow> Inl f
                | Inr (bs, uc', uc2', k) \<Rightarrow>
                    if length out + length bs \<le> cap then str_loop cap uc' uc2' (out @ bs) (drop k es) else Inl OutOfBounds)
             else if length out < cap then str_loop cap uc uc2 (out @ [unescape e]) es else Inl OutOfBounds))"
  by pat_completeness auto
termination
  by (relation "measure (\<lambda>(cap, uc, uc2, out, s). length s)") auto

declare str_loop.simps [simp del]

text \<open>
  The outcome of a parser: out of fuel, a fault, an error (with \<open>ep\<close>, \<open>None\<close> when it is left unset),
  or a value with the text that follows. Errors and values come with the number of allocations.
\<close>

datatype 'a jres = JFuel | JFault fault | JErr "string option" nat | JOk 'a string nat

definition jbind :: "'a jres \<Rightarrow> ('a \<Rightarrow> string \<Rightarrow> nat \<Rightarrow> 'b jres) \<Rightarrow> 'b jres" where
  "jbind r k = (case r of JFuel \<Rightarrow> JFuel | JFault f \<Rightarrow> JFault f | JErr e n \<Rightarrow> JErr e n | JOk x s n \<Rightarrow> k x s n)"

lemma jbind_simps [simp]:
  "jbind JFuel k = JFuel" "jbind (JFault f) k = JFault f" "jbind (JErr e n) k = JErr e n" "jbind (JOk x s n) k = k x s n"
  by (simp_all add: jbind_def)

definition jlift :: "'a run \<Rightarrow> ('a \<Rightarrow> 'b jres) \<Rightarrow> 'b jres" where
  "jlift r k = (case r of Inl f \<Rightarrow> JFault f | Inr x \<Rightarrow> k x)"

lemma jlift_simps [simp]: "jlift (Inl f) k = JFault f" "jlift (Inr x) k = k x"
  by (simp_all add: jlift_def)

definition parse_string :: "(nat \<Rightarrow> bool) \<Rightarrow> string \<Rightarrow> nat \<Rightarrow> string jres" where
  "parse_string ok str n =
     jlift (rd str 0) (\<lambda>c.
       if c \<noteq> CHR 0x22 then JErr (Some str) n
       else jlift (str_count (tl str)) (\<lambda>len.
         if \<not> ok n then JErr None (Suc n)
         else jlift (str_loop (len + 1) None None [] (tl str)) (\<lambda>(out, rest).
           if length out < len + 1
           then JOk (cstr_text out) (if hd rest = CHR 0x22 then tl rest else rest) (Suc n)
           else JFault OutOfBounds)))"

definition print_len :: "char \<Rightarrow> nat" where
  "print_len c =
     (if c \<in> {CHR 0x22, CHR 0x5C, CHR 0x08, CHR 0x0C, CHR 0x0A, CHR 0x0D, CHR 0x09} then 2
      else if (of_char c :: nat) < 32 then 6 else 1)"

definition hexc :: "nat \<Rightarrow> char" where
  "hexc d = char_of (if d < 10 then 48 + d else 87 + d)"

definition hex4 :: "nat \<Rightarrow> string" where
  "hex4 v = [hexc (v div 4096 mod 16), hexc (v div 256 mod 16), hexc (v div 16 mod 16), hexc (v mod 16)]"

definition print_char :: "char \<Rightarrow> string" where
  "print_char c =
     (if (of_char c :: nat) > 31 \<and> c \<noteq> CHR 0x22 \<and> c \<noteq> CHR 0x5C then [c]
      else CHR 0x5C #
        (if c = CHR 0x5C then [CHR 0x5C] else if c = CHR 0x22 then [CHR 0x22]
         else if c = CHR 0x08 then ''b'' else if c = CHR 0x0C then ''f'' else if c = CHR 0x0A then ''n''
         else if c = CHR 0x0D then ''r'' else if c = CHR 0x09 then ''t''
         else ''u'' @ hex4 (of_char c)))"

text \<open>\<open>str\<close> is the text of the C string; \<open>sprintf\<close> writes one byte more than the escape has.\<close>

primrec print_chars :: "nat \<Rightarrow> string \<Rightarrow> string \<Rightarrow> string run" where
  "print_chars cap out [] = Inr out"
| "print_chars cap out (c # cs) =
     (let b = print_char c
      in if length out + length b + (if length b = 6 then 1 else 0) \<le> cap then print_chars cap (out @ b) cs else Inl OutOfBounds)"

definition print_string_ptr :: "(nat \<Rightarrow> bool) \<Rightarrow> string option \<Rightarrow> nat \<Rightarrow> (string option \<times> nat) run" where
  "print_string_ptr ok str n =
     (case str of None \<Rightarrow> Inr (if ok n then Some [] else None, Suc n)
      | Some s \<Rightarrow>
          (let cap = sum_list (map print_len s) + 3
           in if \<not> ok n then Inr (None, Suc n)
              else run_bind (print_chars cap [CHR 0x22] s) (\<lambda>out.
                     if length out + 2 \<le> cap then Inr (Some (out @ [CHR 0x22]), Suc n) else Inl OutOfBounds)))"

section \<open>Strings that were printed\<close>

lemma hexc_chars: "map hexc [0, 1, 2, 3, 4, 5, 6, 7, 8, 9, 10, 11, 12, 13, 14, 15] = ''0123456789abcdef''"
  by code_simp

lemma hex_val_chars: "map hex_val ''0123456789abcdef'' = map Some [0, 1, 2, 3, 4, 5, 6, 7, 8, 9, 10, 11, 12, 13, 14, 15]"
  by (simp add: hex_val_def)

lemma hexc_digit: "d < 16 \<Longrightarrow> hex_val (hexc d) = Some d"
proof -
  assume "d < 16"
  then have "d = 0 \<or> d = 1 \<or> d = 2 \<or> d = 3 \<or> d = 4 \<or> d = 5 \<or> d = 6 \<or> d = 7 \<or> d = 8 \<or> d = 9 \<or> d = 10 \<or> d = 11 \<or> d = 12 \<or>
    d = 13 \<or> d = 14 \<or> d = 15" by arith
  then show ?thesis using hexc_chars hex_val_chars by (elim disjE) simp_all
qed

lemma hexc_val: "hex_val (hexc (v mod 16)) = Some (v mod 16)"
  by (rule hexc_digit) simp

lemma hex4_length [simp]: "length (hex4 v) = 4"
  by (simp add: hex4_def)

lemma hex4_hex: "c \<in> set (hex4 v) \<Longrightarrow> hex_val c \<noteq> None"
  by (auto simp: hex4_def hexc_val)

lemma hex_num_hex4: "v < 65536 \<Longrightarrow> hex_num (hex4 v) = Some v"
proof -
  assume v: "v < 65536"
  have "takeWhile (\<lambda>c. hex_val c \<noteq> None) (hex4 v) = hex4 v" using hex4_hex by (simp add: takeWhile_eq_all_conv del: not_None_eq)
  then have "hex_num (hex4 v) = Some (foldl (\<lambda>n c. 16 * n + the (hex_val c)) 0 (hex4 v))"
    unfolding hex_num_def Let_def by (simp add: hex4_def)
  also have "foldl (\<lambda>n c. 16 * n + the (hex_val c)) 0 (hex4 v) =
      16 * (16 * (16 * (v div 4096 mod 16) + v div 256 mod 16) + v div 16 mod 16) + v mod 16"
    unfolding hex4_def by (simp only: foldl.simps hexc_val option.sel mult_0_right add_0)
  also have "\<dots> = v"
  proof -
    have "v div 256 = v div 16 div 16" "v div 4096 = v div 16 div 16 div 16" by (simp_all add: div_mult2_eq [symmetric])
    moreover have "v div 4096 < 16" using v by (simp add: less_mult_imp_div_less)
    ultimately show ?thesis
      using mult_div_mod_eq [of 16 v] mult_div_mod_eq [of 16 "v div 16"] mult_div_mod_eq [of 16 "v div 16 div 16"] by simp
  qed
  finally show ?thesis .
qed

lemma hex_val_range: "hex_val c \<noteq> None \<Longrightarrow> \<not> is_space c \<and> c \<noteq> CHR ''-'' \<and> c \<noteq> CHR ''+'' \<and> c \<noteq> CHR ''x'' \<and> c \<noteq> CHR ''X'' \<and> c \<noteq> CHR 0x22 \<and> c \<noteq> CHR 0x5C \<and> c \<noteq> NUL"
  by (auto simp: hex_val_def is_space_def Let_def split: if_splits)

lemma sscanf_hex4:
  assumes "v < 65536"
  shows "sscanf_4x (hex4 v @ r) = Inr (Some (of_nat v))"
proof -
  obtain a b c d where h: "hex4 v = [a, b, c, d]" unfolding hex4_def by simp
  have "\<not> is_space a" "a \<noteq> CHR ''-''" "a \<noteq> CHR ''+''" "b \<noteq> CHR ''x''" "b \<noteq> CHR ''X''"
    using hex4_hex [of a v] hex4_hex [of b v] hex_val_range [of a] hex_val_range [of b] unfolding h by auto
  then have "sscanf_4x (hex4 v @ r) = Inr (map_option of_nat (hex_num (hex4 v)))"
    unfolding h by (simp add: sscanf_4x_def Let_def)
  then show ?thesis by (simp add: hex_num_hex4 assms)
qed

lemma parse_unicode_ascii:
  assumes "0 < v" "v < 128"
  shows "\<exists>uc'. parse_unicode uc uc2 (hex4 v @ r) = Inr ([char_of v], Some uc', uc2, 4)"
proof -
  let ?w = "of_nat v :: 32 word"
  have v: "unat ?w = v" using assms by (simp add: unat_of_nat)
  have "?w < 0x80" "?w \<noteq> 0" "\<not> 0xDC00 \<le> ?w" "\<not> 0xD800 \<le> ?w" using assms v by (simp_all add: word_less_nat_alt word_le_nat_alt word_unat_eq_iff)
  then show ?thesis using assms v by (simp add: parse_unicode_def sscanf_hex4 utf8_len_def byte_of_def firstByteMark_def)
qed

text \<open>A printed character is read back by one round of the loop.\<close>

lemma print_char_cases:
  assumes "c \<noteq> NUL"
  obtains (plain) "print_char c = [c]" "c \<noteq> CHR 0x22" "c \<noteq> CHR 0x5C"
  | (short) e where "print_char c = [CHR 0x5C, e]" "e \<noteq> CHR ''u''" "unescape e = c"
  | (unicode) "print_char c = [CHR 0x5C, CHR ''u''] @ hex4 (of_char c)" "0 < (of_char c :: nat)" "(of_char c :: nat) < 32"
proof (cases "(of_char c :: nat) > 31 \<and> c \<noteq> CHR 0x22 \<and> c \<noteq> CHR 0x5C")
  case True
  then show ?thesis using plain by (simp add: print_char_def)
next
  case False
  show ?thesis
  proof (cases "c \<in> {CHR 0x5C, CHR 0x22, CHR 0x08, CHR 0x0C, CHR 0x0A, CHR 0x0D, CHR 0x09}")
    case True
    then show ?thesis using short by (auto simp: print_char_def unescape_def)
  next
    case f: False
    moreover have "(of_char c :: nat) \<noteq> of_char NUL" using assms by (simp only: of_char_eq_iff not_False_eq_True)
    ultimately show ?thesis using False unicode by (simp add: print_char_def)
  qed
qed

abbreviation print_text :: "string \<Rightarrow> string" where
  "print_text s \<equiv> concat (map print_char s)"

lemma print_char_length: "c \<noteq> NUL \<Longrightarrow> length (print_char c) = print_len c"
  by (auto simp: print_char_def print_len_def)

lemma print_chars_ok:
  "no_nul s \<Longrightarrow> length out + sum_list (map print_len s) + 2 \<le> cap \<Longrightarrow> print_chars cap out s = Inr (out @ print_text s)"
proof (induction s arbitrary: out)
  case (Cons c s)
  then have l: "length (print_char c) = print_len c" by (simp add: print_char_length)
  with Cons.prems have "print_chars cap (out @ print_char c) s = Inr ((out @ print_char c) @ print_text s)" by (intro Cons.IH) simp_all
  with l Cons.prems show ?case by (simp add: Let_def)
qed simp

lemma print_text_length: "no_nul s \<Longrightarrow> length (print_text s) = sum_list (map print_len s)"
  by (induction s) (simp_all add: print_char_length)

text \<open>A string prints as its escaped characters between quotes, within the block.\<close>

lemma print_string_ptr_text:
  "no_nul s \<Longrightarrow> ok n \<Longrightarrow> print_string_ptr ok (Some s) n = Inr (Some (CHR 0x22 # print_text s @ [CHR 0x22]), Suc n)"
  using print_chars_ok [of s "[CHR 0x22]" "sum_list (map print_len s) + 3"]
  by (simp add: print_string_ptr_def Let_def print_text_length)

lemma str_count_plain:
  "(\<And>c. c \<in> set t \<Longrightarrow> c \<noteq> CHR 0x22 \<and> c \<noteq> CHR 0x5C \<and> c \<noteq> NUL) \<Longrightarrow> str_count r = Inr k \<Longrightarrow> str_count (t @ r) = Inr (length t + k)"
  by (induction t) auto

lemma str_count_print: "no_nul s \<Longrightarrow> \<exists>k \<ge> length s. str_count (print_text s @ CHR 0x22 # r) = Inr k"
proof (induction s)
  case (Cons c s)
  then obtain k where k: "length s \<le> k" "str_count (print_text s @ CHR 0x22 # r) = Inr k" by auto
  from Cons.prems have "c \<noteq> NUL" by simp
  then show ?case
  proof (cases rule: print_char_cases)
    case plain
    with k \<open>c \<noteq> NUL\<close> show ?thesis by simp
  next
    case (short e)
    with k show ?thesis by simp
  next
    case unicode
    have "c' \<noteq> CHR 0x22 \<and> c' \<noteq> CHR 0x5C \<and> c' \<noteq> NUL" if "c' \<in> set (hex4 (of_char c))" for c'
      using hex_val_range [OF hex4_hex [OF that]] by blast
    from str_count_plain [OF this k(2)] have "str_count (hex4 (of_char c) @ print_text s @ CHR 0x22 # r) = Inr (4 + k)" by simp
    with unicode k(1) show ?thesis by simp
  qed
qed simp

lemma str_loop_print:
  "no_nul s \<Longrightarrow> length out + length s \<le> cap \<Longrightarrow> str_loop cap uc uc2 out (print_text s @ CHR 0x22 # r) = Inr (out @ s, CHR 0x22 # r)"
proof (induction s arbitrary: out uc)
  case Nil
  then show ?case by (simp add: str_loop.simps)
next
  case (Cons c s)
  from Cons.prems have "c \<noteq> NUL" by simp
  have IH: "str_loop cap uc' uc2 (out @ [c]) (print_text s @ CHR 0x22 # r) = Inr (out @ c # s, CHR 0x22 # r)" for uc'
    using Cons.IH [of "out @ [c]" uc'] Cons.prems by simp
  from \<open>c \<noteq> NUL\<close> show ?case
  proof (cases rule: print_char_cases)
    case plain
    with IH [of uc] \<open>c \<noteq> NUL\<close> Cons.prems show ?thesis by (simp add: str_loop.simps)
  next
    case (short e)
    with IH [of uc] Cons.prems show ?thesis by (simp add: str_loop.simps)
  next
    case unicode
    then have "(of_char c :: nat) < 128" by simp
    from parse_unicode_ascii [OF unicode(2) this, of uc uc2 "print_text s @ CHR 0x22 # r"] obtain uc' where
      "parse_unicode uc uc2 (hex4 (of_char c) @ print_text s @ CHR 0x22 # r) = Inr ([c], Some uc', uc2, 4)" by auto
    with unicode IH [of "Some uc'"] Cons.prems show ?thesis by (simp add: str_loop.simps)
  qed
qed

lemma cstr_text_no_nul: "no_nul s \<Longrightarrow> cstr_text s = s"
  by (induction s) auto

text \<open>What was printed is read back.\<close>

lemma parse_string_print:
  assumes "no_nul s" "ok n"
  shows "parse_string ok (CHR 0x22 # print_text s @ CHR 0x22 # r) n = JOk s r (Suc n)"
proof -
  from str_count_print [OF assms(1), of r] obtain k where k: "length s \<le> k" "str_count (print_text s @ CHR 0x22 # r) = Inr k" by auto
  with str_loop_print [OF assms(1), of "[]" "k + 1" None None r] assms show ?thesis
    by (simp add: parse_string_def cstr_text_no_nul)
qed

section \<open>Numbers that were printed\<close>

text \<open>
  What is relied on of doubles: integers up to \<open>2 ^ 53\<close> are exact, the power 0 is 1, and an integer an
  \<open>int\<close> can hold is converted to itself.
\<close>

definition fenv_ok :: "fenv \<Rightarrow> bool" where
  "fenv_ok fe \<longleftrightarrow>
     (\<forall>z. \<bar>z\<bar> \<le> 2 ^ 53 \<longrightarrow> fl_rnd fe (of_int z) = Fin (of_int z)) \<and> fl_pow10 fe 0 = Fin 1 \<and>
     (\<forall>z. INT_MIN \<le> z \<and> z \<le> INT_MAX \<longrightarrow> fl_to_int fe (Fin (of_int z)) = z)"

lemma rnd_nat: "fenv_ok fe \<Longrightarrow> n \<le> 2 ^ 53 \<Longrightarrow> fl_rnd fe (of_nat n) = Fin (of_nat n)"
  unfolding fenv_ok_def by (metis abs_of_nat of_int_of_nat_eq of_nat_le_iff of_nat_numeral of_nat_power)

lemma digit_chars: "map (\<lambda>d. char_of (48 + d :: nat)) [0, 1, 2, 3, 4, 5, 6, 7, 8, 9] = ''0123456789''"
  by code_simp

lemma dec_digit: "d < 10 \<Longrightarrow> is_digit (char_of (48 + d)) \<and> digit_val (char_of (48 + d)) = d \<and> (0 < d \<longrightarrow> char_of (48 + d) \<noteq> CHR ''0'')"
proof -
  assume "d < 10"
  then have "d = 0 \<or> d = 1 \<or> d = 2 \<or> d = 3 \<or> d = 4 \<or> d = 5 \<or> d = 6 \<or> d = 7 \<or> d = 8 \<or> d = 9" by arith
  then show ?thesis using digit_chars by (elim disjE) (simp_all add: is_digit_def digit_val_def)
qed

lemma dec_nat_digits: "c \<in> set (dec_nat n) \<Longrightarrow> is_digit c"
proof (induction n rule: dec_nat.induct)
  case (1 n)
  show ?case
  proof (cases "n < 10")
    case True
    with 1(2) dec_digit [of n] show ?thesis by (subst (asm) dec_nat.simps) simp
  next
    case False
    with 1 dec_digit [of "n mod 10"] show ?thesis by (subst (asm) (2) dec_nat.simps) auto
  qed
qed

lemma dec_nat_hd: "0 < n \<Longrightarrow> \<exists>c ds. dec_nat n = c # ds \<and> c \<noteq> CHR ''0''"
proof (induction n rule: dec_nat.induct)
  case (1 n)
  show ?case
  proof (cases "n < 10")
    case True
    with 1 dec_digit [of n] show ?thesis by (subst dec_nat.simps) simp
  next
    case False
    then have "0 < n div 10" by simp
    with 1(1) [OF False] False show ?thesis by (subst dec_nat.simps) auto
  qed
qed

lemma dbl_digits_dec:
  assumes "fenv_ok fe"
  shows "n \<le> 2 ^ 53 \<Longrightarrow> dbl_digits fe (dec_nat n) (Fin 0) = Fin (of_nat n)"
proof (induction n rule: dec_nat.induct)
  case (1 n)
  have r: "fl_rnd fe (of_nat k) = Fin (of_nat k)" if "k \<le> n" for k using rnd_nat [OF assms, of k] that 1(2) by simp
  show ?case
  proof (cases "n < 10")
    case True
    with dec_digit [of n] r [of n] r [of 0] show ?thesis by (subst dec_nat.simps) (simp add: dbl_digits_def)
  next
    case False
    then have IH: "dbl_digits fe (dec_nat (n div 10)) (Fin 0) = Fin (of_nat (n div 10))" using 1 by simp
    have "fl_rnd fe (of_nat (n div 10 * 10)) = Fin (of_nat (n div 10 * 10))" by (rule r) simp
    moreover have "(of_nat (n div 10) :: rat) * 10 + of_nat (n mod 10) = of_nat n"
      by (metis of_nat_add of_nat_mult of_nat_numeral div_mult_mod_eq)
    ultimately show ?thesis using IH dec_digit [of "n mod 10"] r [of n] False
      by (subst dec_nat.simps) (simp add: dbl_digits_def)
  qed
qed

text \<open>The byte after a number ends it.\<close>

definition ends_number :: "string \<Rightarrow> bool" where
  "ends_number r \<longleftrightarrow> r \<noteq> [] \<and> \<not> is_digit (hd r) \<and> hd r \<notin> set ''.eE''"

lemma ends_number_rest:
  "ends_number r \<Longrightarrow> num_frac fe n r = Inr (n, 0, r)" "ends_number r \<Longrightarrow> num_exp r = Inr (0, r)"
  by (auto simp: ends_number_def num_frac_def num_exp_def hd_conv_nth)

lemma num_nat_dec:
  assumes "fenv_ok fe" "n \<le> 2 ^ 53" "ends_number r"
  shows "\<exists>num. num_zero (dec_nat n @ r) = Inr num \<and> num_int fe num = Inr (Fin (of_nat n), r)"
proof (cases n)
  case 0
  have "dec_nat 0 = ''0''" using digit_chars by (subst dec_nat.simps) simp
  with 0 assms(3) show ?thesis by (auto simp: num_zero_def num_int_def ends_number_def hd_conv_nth)
next
  case (Suc m)
  then have "0 < n" by simp
  from dec_nat_hd [OF this] obtain c ds where c: "dec_nat n = c # ds" "c \<noteq> CHR ''0''" by blast
  then have d: "is_digit c" using dec_nat_digits [of c n] by simp
  have all: "\<forall>x \<in> set (dec_nat n). is_digit x" using dec_nat_digits by blast
  then have tw: "takeWhile is_digit (dec_nat n @ r) = dec_nat n" "dropWhile is_digit (dec_nat n @ r) = r"
    using assms(3) by (cases r; simp add: ends_number_def takeWhile_append2 dropWhile_append2)+
  have "num_int fe (dec_nat n @ r) = Inr (dbl_digits fe (dec_nat n) (Fin 0), r)"
    unfolding num_int_def tw using c d by simp
  moreover have "num_zero (dec_nat n @ r) = Inr (dec_nat n @ r)" using c by (simp add: num_zero_def)
  ultimately show ?thesis using dbl_digits_dec [OF assms(1,2)] by simp
qed

lemma rnd_int: "fenv_ok fe \<Longrightarrow> \<bar>z\<bar> \<le> 2 ^ 53 \<Longrightarrow> fl_rnd fe (of_int z) = Fin (of_int z)"
  by (simp add: fenv_ok_def)

lemma parse_number_dec:
  assumes "fenv_ok fe" "INT_MIN \<le> i" "i \<le> INT_MAX" "ends_number r"
  shows "parse_number fe (dec_int i @ r) = Inr (Fin (of_int i), i, r)"
proof -
  define n where "n = nat \<bar>i\<bar>"
  have n: "n \<le> 2 ^ 53" using assms(2,3) by (simp add: n_def INT_MIN_def INT_MAX_def)
  have sgn: "num_sign (dec_int i @ r) = Inr (i < 0, dec_nat n @ r)"
  proof (cases "i < 0")
    case True
    then show ?thesis by (simp add: num_sign_def dec_int_def n_def)
  next
    case False
    have "dec_nat n \<noteq> []" by (subst dec_nat.simps) simp
    then obtain c ds where c: "dec_nat n = c # ds" by (cases "dec_nat n") auto
    with dec_nat_digits [of c n] have "c \<noteq> CHR ''-''" by (auto simp: is_digit_def)
    with c False show ?thesis by (simp add: num_sign_def dec_int_def n_def)
  qed
  from num_nat_dec [OF assms(1) n assms(4)] obtain num where
    num: "num_zero (dec_nat n @ r) = Inr num" "num_int fe num = Inr (Fin (of_nat n), r)" by blast
  have i: "(if i < 0 then -1 else 1) * of_nat n = (of_int i :: rat)" by (simp add: n_def)
  have "\<bar>i\<bar> \<le> 2 ^ 53" using assms(2,3) by (simp add: INT_MIN_def INT_MAX_def)
  from rnd_int [OF assms(1) this] have "dmul fe (dmul fe (Fin (if i < 0 then -1 else 1)) (Fin (of_nat n))) (Fin 1) = Fin (of_int i)"
    using i by simp
  moreover have "fl_pow10 fe 0 = Fin 1" "fl_to_int fe (Fin (of_int i)) = i" using assms(1-3) by (simp_all add: fenv_ok_def)
  ultimately show ?thesis unfolding parse_number_def sgn
    by (simp only: run_bind_Inr prod.case num ends_number_rest [OF assms(4)] add_0_left add_0_right Let_def)
qed

lemma print_number_int:
  assumes "fenv_ok fe" "INT_MIN \<le> i" "i \<le> INT_MAX" "ok n"
  shows "print_number fe ok (Fin (of_int i)) i n = Inr (Some (dec_int i), Suc n)"
proof -
  have "fl_rnd fe (of_int 0) = Fin (of_int 0)" by (rule rnd_int [OF assms(1)]) simp
  then have "dle (dfabs (dsub fe (Fin (of_int i)) (Fin (of_int i)))) DBL_EPSILON" by (simp add: dsub_def DBL_EPSILON_def)
  moreover have "length (dec_nat (nat \<bar>i\<bar>)) \<le> Suc 9"
    by (rule dec_nat_length) (use assms(2,3) in \<open>simp add: INT_MIN_def INT_MAX_def\<close>)
  then have "length (dec_int i) < 21" by (auto simp: dec_int_def)
  moreover have "dle (Fin (of_int i)) (Fin (of_int INT_MAX))" "dle (Fin (of_int INT_MIN)) (Fin (of_int i))"
    using assms(2,3) by (simp_all del: of_int_power of_int_diff)
  ultimately show ?thesis using assms(4) unfolding print_number_def sprintf_block_def by simp
qed

text \<open>
  A number outside the range of an \<open>int\<close> is printed with all its digits into a block of 64 bytes: it
  overflows the block as soon as the text has 64 characters.
\<close>

lemma print_number_overflow:
  assumes "fenv_ok fe" "INT_MAX < i" "ok n"
  shows "print_number fe ok (Fin (of_int i)) v n = Inl OutOfBounds \<longleftrightarrow> 64 \<le> length (dec_int i)"
proof -
  have "fl_rnd fe (of_int 0) = Fin (of_int 0)" by (rule rnd_int [OF assms(1)]) simp
  then have "dle (dfabs (dsub fe (dfloor (Fin (of_int i))) (Fin (of_int i)))) DBL_EPSILON" by (simp add: dsub_def DBL_EPSILON_def)
  moreover have "\<not> dle (Fin (of_int i)) (Fin (of_int INT_MAX))" using assms(2) by simp
  ultimately show ?thesis using assms(3) unfolding print_number_def sprintf_block_def fmt_0f_def
    by (auto simp: run_bind_eq_Inl)
qed

end
