(* ===== verification/Duda_Cjson.thy ===== *)
theory Duda_Cjson
  imports Duda_Cjson_Text
begin

text \<open>
  The parser and the printer of \<open>packages/json/cJSON.c\<close>. A \<open>cJSON\<close> structure is a tree: the chain of
  its children, linked by \<open>next\<close> and \<open>prev\<close> in the code, is a list.
\<close>

datatype cjson = CJ (cj_type: int) (cj_vstr: "string option") (cj_vint: int) (cj_vdbl: dbl) (cj_name: "string option") (cj_child: "cjson list")

definition cJSON_False :: int where "cJSON_False = 0"
definition cJSON_True :: int where "cJSON_True = 1"
definition cJSON_NULL :: int where "cJSON_NULL = 2"
definition cJSON_Number :: int where "cJSON_Number = 3"
definition cJSON_String :: int where "cJSON_String = 4"
definition cJSON_Array :: int where "cJSON_Array = 5"
definition cJSON_Object :: int where "cJSON_Object = 6"

lemmas cJSON_types = cJSON_False_def cJSON_True_def cJSON_NULL_def cJSON_Number_def cJSON_String_def cJSON_Array_def cJSON_Object_def

text \<open>The structure \<open>cJSON_New_Item\<close> returns, and assignments to its fields.\<close>

definition new_item :: cjson where
  "new_item = CJ 0 None 0 (Fin 0) None []"

primrec set_type :: "int \<Rightarrow> cjson \<Rightarrow> cjson" where
  "set_type t (CJ ty vs vi vd nm ch) = CJ t vs vi vd nm ch"

primrec set_vint :: "int \<Rightarrow> cjson \<Rightarrow> cjson" where
  "set_vint i (CJ ty vs vi vd nm ch) = CJ ty vs i vd nm ch"

primrec set_number :: "dbl \<Rightarrow> int \<Rightarrow> cjson \<Rightarrow> cjson" where
  "set_number d i (CJ ty vs vi vd nm ch) = CJ cJSON_Number vs i d nm ch"

primrec set_string :: "string \<Rightarrow> cjson \<Rightarrow> cjson" where
  "set_string s (CJ ty vs vi vd nm ch) = CJ cJSON_String (Some s) vi vd nm ch"

primrec set_child :: "cjson list \<Rightarrow> cjson \<Rightarrow> cjson" where
  "set_child cs (CJ ty vs vi vd nm ch) = CJ ty vs vi vd nm cs"

text \<open>\<open>child->string=child->valuestring;child->valuestring=0\<close>\<close>

primrec string_to_name :: "cjson \<Rightarrow> cjson" where
  "string_to_name (CJ ty vs vi vd nm ch) = CJ ty None vi vd vs ch"

section \<open>The parser\<close>

text \<open>
  The loops of \<open>parse_array\<close> and \<open>parse_object\<close> read the elements with the parser they are given;
  \<open>acc\<close> are the children so far. The fuel bounds the rounds of the loops and the depth of the
  recursion: \<open>parse_value_enough\<close> below shows that the length of the text is enough.
\<close>

primrec array_loop :: "(string \<Rightarrow> nat \<Rightarrow> cjson jres) \<Rightarrow> (nat \<Rightarrow> bool) \<Rightarrow> nat \<Rightarrow> cjson list \<Rightarrow> string \<Rightarrow> nat \<Rightarrow> cjson list jres" where
  "array_loop p ok 0 acc s n = JFuel"
| "array_loop p ok (Suc f) acc s n =
     jlift (rd s 0) (\<lambda>c.
       if c = CHR '','' then
         if \<not> ok n then JErr None (Suc n)
         else jbind (p (skip (tl s)) (Suc n)) (\<lambda>item s n. array_loop p ok f (acc @ [item]) (skip s) n)
       else if c = CHR '']'' then JOk acc (tl s) n
       else JErr (Some s) n)"

definition parse_array :: "(string \<Rightarrow> nat \<Rightarrow> cjson jres) \<Rightarrow> (nat \<Rightarrow> bool) \<Rightarrow> nat \<Rightarrow> string \<Rightarrow> nat \<Rightarrow> cjson list jres" where
  "parse_array p ok f str n =
     jlift (rd str 0) (\<lambda>c0.
       if c0 \<noteq> CHR ''['' then JErr (Some str) n
       else
         (let s = skip (tl str)
          in jlift (rd s 0) (\<lambda>c.
               if c = CHR '']'' then JOk [] (tl s) n
               else if \<not> ok n then JErr None (Suc n)
               else jbind (p (skip s) (Suc n)) (\<lambda>item s n. array_loop p ok f [item] (skip s) n))))"

text \<open>A name, a colon and a value, after the structure for it has been allocated.\<close>

definition parse_member :: "(cjson \<Rightarrow> string \<Rightarrow> nat \<Rightarrow> cjson jres) \<Rightarrow> (nat \<Rightarrow> bool) \<Rightarrow> string \<Rightarrow> nat \<Rightarrow> cjson jres" where
  "parse_member p ok str n =
     jbind (parse_string ok (skip str) n) (\<lambda>nm s n.
       (let child = string_to_name (set_string nm new_item); s = skip s
        in jlift (rd s 0) (\<lambda>c.
             if c \<noteq> CHR '':'' then JErr (Some s) n
             else p child (skip (tl s)) n)))"

primrec object_loop :: "(cjson \<Rightarrow> string \<Rightarrow> nat \<Rightarrow> cjson jres) \<Rightarrow> (nat \<Rightarrow> bool) \<Rightarrow> nat \<Rightarrow> cjson list \<Rightarrow> string \<Rightarrow> nat \<Rightarrow> cjson list jres" where
  "object_loop p ok 0 acc s n = JFuel"
| "object_loop p ok (Suc f) acc s n =
     jlift (rd s 0) (\<lambda>c.
       if c = CHR '','' then
         if \<not> ok n then JErr None (Suc n)
         else jbind (parse_member p ok (tl s) (Suc n)) (\<lambda>item s n. object_loop p ok f (acc @ [item]) (skip s) n)
       else if c = CHR ''}'' then JOk acc (tl s) n
       else JErr (Some s) n)"

definition parse_object :: "(cjson \<Rightarrow> string \<Rightarrow> nat \<Rightarrow> cjson jres) \<Rightarrow> (nat \<Rightarrow> bool) \<Rightarrow> nat \<Rightarrow> string \<Rightarrow> nat \<Rightarrow> cjson list jres" where
  "parse_object p ok f str n =
     jlift (rd str 0) (\<lambda>c0.
       if c0 \<noteq> CHR ''{'' then JErr (Some str) n
       else
         (let s = skip (tl str)
          in jlift (rd s 0) (\<lambda>c.
               if c = CHR ''}'' then JOk [] (tl s) n
               else if \<not> ok n then JErr None (Suc n)
               else jbind (parse_member p ok s (Suc n)) (\<lambda>item s n. object_loop p ok f [item] (skip s) n))))"

primrec parse_value :: "fenv \<Rightarrow> (nat \<Rightarrow> bool) \<Rightarrow> nat \<Rightarrow> cjson \<Rightarrow> string \<Rightarrow> nat \<Rightarrow> cjson jres" where
  "parse_value fe ok 0 item str n = JFuel"
| "parse_value fe ok (Suc f) item str n =
     jlift (strncmp_eq str (cstr ''null'') 4) (\<lambda>eq. if eq then JOk (set_type cJSON_NULL item) (drop 4 str) n else
     jlift (strncmp_eq str (cstr ''false'') 5) (\<lambda>eq. if eq then JOk (set_type cJSON_False item) (drop 5 str) n else
     jlift (strncmp_eq str (cstr ''true'') 4) (\<lambda>eq. if eq then JOk (set_vint 1 (set_type cJSON_True item)) (drop 4 str) n else
     jlift (rd str 0) (\<lambda>c.
       if c = CHR 0x22 then jbind (parse_string ok str n) (\<lambda>s r n. JOk (set_string s item) r n)
       else if c = CHR ''-'' \<or> is_digit c then jlift (parse_number fe str) (\<lambda>(d, i, r). JOk (set_number d i item) r n)
       else if c = CHR ''['' then
         jbind (parse_array (parse_value fe ok f new_item) ok f str n) (\<lambda>cs r n. JOk (set_child cs (set_type cJSON_Array item)) r n)
       else if c = CHR ''{'' then
         jbind (parse_object (parse_value fe ok f) ok f str n) (\<lambda>cs r n. JOk (set_child cs (set_type cJSON_Object item)) r n)
       else JErr (Some str) n))))"

text \<open>
  \<open>cJSON_Parse\<close>: the tree, or \<open>NULL\<close> with the error pointer. The length of the text is given as fuel.
\<close>

definition cJSON_Parse :: "fenv \<Rightarrow> (nat \<Rightarrow> bool) \<Rightarrow> string option \<Rightarrow> nat \<Rightarrow> cjson jres" where
  "cJSON_Parse fe ok str n =
     (if \<not> ok n then JErr None (Suc n)
      else (case str of None \<Rightarrow> JErr None (Suc n)
            | Some s \<Rightarrow> parse_value fe ok (Suc (length s)) new_item (skip s) (Suc n)))"

section \<open>The printer\<close>

definition cJSON_strdup :: "(nat \<Rightarrow> bool) \<Rightarrow> string \<Rightarrow> nat \<Rightarrow> (string option \<times> nat) run" where
  "cJSON_strdup ok t n = Inr (if ok n then Some t else None, Suc n)"

definition join :: "string \<Rightarrow> string list \<Rightarrow> string" where
  "join sep ts = (case ts of [] \<Rightarrow> [] | t # ts \<Rightarrow> t @ concat (map (\<lambda>t. sep @ t) ts))"

text \<open>The composition of the output, in a block of the length computed before.\<close>

definition array_text :: "bool \<Rightarrow> string list \<Rightarrow> string" where
  "array_text fmt ts = ''['' @ join (if fmt then '', '' else '','') ts @ '']''"

definition array_size :: "bool \<Rightarrow> string list \<Rightarrow> nat" where
  "array_size fmt ts = 5 + sum_list (map (\<lambda>t. length t + 2 + (if fmt then 1 else 0)) ts)"

definition TAB :: char where "TAB = CHR 0x09"
definition NL :: char where "NL = CHR 0x0A"

definition member_text :: "bool \<Rightarrow> nat \<Rightarrow> string \<times> string \<Rightarrow> string" where
  "member_text fmt depth = (\<lambda>(nm, t).
     (if fmt then replicate depth TAB else []) @ nm @ '':'' @ (if fmt then [TAB] else []) @ t)"

definition object_text :: "bool \<Rightarrow> nat \<Rightarrow> (string \<times> string) list \<Rightarrow> string" where
  "object_text fmt depth ms =
     ''{'' @ (if fmt then [NL] else []) @ join (if fmt then [CHR '','', NL] else '','') (map (member_text fmt depth) ms) @
     (if fmt \<and> ms \<noteq> [] then [NL] else []) @ (if fmt then replicate (depth - 1) TAB else []) @ ''}''"

definition object_size :: "bool \<Rightarrow> nat \<Rightarrow> (string \<times> string) list \<Rightarrow> nat" where
  "object_size fmt depth ms =
     7 + (if fmt then depth else 0) + sum_list (map (\<lambda>(nm, t). length t + length nm + 2 + (if fmt then 2 + depth else 0)) ms)"

definition compose :: "(nat \<Rightarrow> bool) \<Rightarrow> nat \<Rightarrow> string \<Rightarrow> nat \<Rightarrow> (string option \<times> nat) run" where
  "compose ok sz t n =
     (if \<not> ok n then Inr (None, Suc n) else if length t < sz then Inr (Some t, Suc n) else Inl OutOfBounds)"

fun print_value :: "fenv \<Rightarrow> (nat \<Rightarrow> bool) \<Rightarrow> bool \<Rightarrow> cjson \<Rightarrow> nat \<Rightarrow> nat \<Rightarrow> (string option \<times> nat) run"
  and print_elems :: "fenv \<Rightarrow> (nat \<Rightarrow> bool) \<Rightarrow> bool \<Rightarrow> cjson list \<Rightarrow> nat \<Rightarrow> nat \<Rightarrow> (string list option \<times> nat) run"
  and print_members :: "fenv \<Rightarrow> (nat \<Rightarrow> bool) \<Rightarrow> bool \<Rightarrow> cjson list \<Rightarrow> nat \<Rightarrow> nat \<Rightarrow> ((string \<times> string) list option \<times> nat) run" where
  "print_value fe ok fmt (CJ ty vs vi vd nm ch) depth n =
     (if ty mod 256 = cJSON_NULL then cJSON_strdup ok ''null'' n
      else if ty mod 256 = cJSON_False then cJSON_strdup ok ''false'' n
      else if ty mod 256 = cJSON_True then cJSON_strdup ok ''true'' n
      else if ty mod 256 = cJSON_Number then print_number fe ok vd vi n
      else if ty mod 256 = cJSON_String then print_string_ptr ok vs n
      else if ty mod 256 = cJSON_Array then
        if \<not> ok n then Inr (None, Suc n)
        else run_bind (print_elems fe ok fmt ch (depth + 1) (Suc n)) (\<lambda>(ts, n).
               case ts of None \<Rightarrow> Inr (None, n) | Some ts \<Rightarrow> compose ok (array_size fmt ts) (array_text fmt ts) n)
      else if ty mod 256 = cJSON_Object then
        if \<not> ok n then Inr (None, Suc n)
        else if \<not> ok (Suc n) then Inr (None, Suc (Suc n))
        else run_bind (print_members fe ok fmt ch (depth + 1) (Suc (Suc n))) (\<lambda>(ms, n).
               case ms of None \<Rightarrow> Inr (None, n) | Some ms \<Rightarrow> compose ok (object_size fmt (depth + 1) ms) (object_text fmt (depth + 1) ms) n)
      else Inr (None, n))"
| "print_elems fe ok fmt [] depth n = Inr (Some [], n)"
| "print_elems fe ok fmt (c # cs) depth n =
     run_bind (print_value fe ok fmt c depth n) (\<lambda>(t, n).
       case t of None \<Rightarrow> Inr (None, n)
       | Some t \<Rightarrow> run_bind (print_elems fe ok fmt cs depth n) (\<lambda>(ts, n). Inr (map_option (Cons t) ts, n)))"
| "print_members fe ok fmt [] depth n = Inr (Some [], n)"
| "print_members fe ok fmt (c # cs) depth n =
     run_bind (print_string_ptr ok (cj_name c) n) (\<lambda>(nm, n).
     run_bind (print_value fe ok fmt c depth n) (\<lambda>(t, n).
     run_bind (print_members fe ok fmt cs depth n) (\<lambda>(ms, n).
       Inr (case (nm, t) of (Some nm, Some t) \<Rightarrow> map_option (Cons (nm, t)) ms | _ \<Rightarrow> None, n))))"

definition cJSON_Print :: "fenv \<Rightarrow> (nat \<Rightarrow> bool) \<Rightarrow> cjson option \<Rightarrow> nat \<Rightarrow> (string option \<times> nat) run" where
  "cJSON_Print fe ok item n = (case item of None \<Rightarrow> Inr (None, n) | Some c \<Rightarrow> print_value fe ok True c 0 n)"

definition cJSON_PrintUnformatted :: "fenv \<Rightarrow> (nat \<Rightarrow> bool) \<Rightarrow> cjson option \<Rightarrow> nat \<Rightarrow> (string option \<times> nat) run" where
  "cJSON_PrintUnformatted fe ok item n = (case item of None \<Rightarrow> Inr (None, n) | Some c \<Rightarrow> print_value fe ok False c 0 n)"

section \<open>The fuel is enough\<close>

lemma skip_length: "length (skip s) \<le> length s"
  by (simp add: skip_def length_dropWhile_le)

lemma jlift_eq_JOk: "jlift r k = JOk x s n \<longleftrightarrow> (\<exists>y. r = Inr y \<and> k y = JOk x s n)"
  by (cases r) auto

lemma jbind_eq_JOk: "jbind r k = JOk x s n \<longleftrightarrow> (\<exists>y t m. r = JOk y t m \<and> k y t m = JOk x s n)"
  by (cases r) auto

lemma jlift_eq_JFuel: "jlift r k = JFuel \<longleftrightarrow> (\<exists>y. r = Inr y \<and> k y = JFuel)"
  by (cases r) auto

lemma jbind_eq_JFuel: "jbind r k = JFuel \<longleftrightarrow> r = JFuel \<or> (\<exists>y t m. r = JOk y t m \<and> k y t m = JFuel)"
  by (cases r) auto

lemma str_loop_rest: "str_loop cap uc uc2 out s = Inr (out', r) \<Longrightarrow> length r \<le> length s"
proof (induction s arbitrary: uc uc2 out rule: length_induct)
  case (1 s)
  have IH: "length r \<le> length t" if "str_loop cap u v o1 t = Inr (out', r)" "length t < length s" for u v o1 t
    using 1(1) that by blast
  show ?case
  proof (cases s)
    case Nil
    with 1(2) show ?thesis by (simp add: str_loop.simps)
  next
    case (Cons c cs)
    note l = 1(2) [unfolded Cons str_loop.simps]
    show ?thesis
    proof (cases "c = CHR 0x5C")
      case True
      with l obtain e es where es: "cs = e # es" by (cases cs) auto
      from l True es obtain u v o1 k where d: "str_loop cap u v o1 (drop k es) = Inr (out', r)"
        by (auto split: if_splits sum.splits prod.splits) (metis drop0)
      have "length (drop k es) < length s" using Cons es by simp
      from IH [OF d this] this show ?thesis by simp
    next
      case False
      with l have "r = c # cs \<or> str_loop cap uc uc2 (out @ [c]) cs = Inr (out', r)" by (auto split: if_splits)
      with IH [of uc uc2 "out @ [c]" cs] Cons show ?thesis by auto
    qed
  qed
qed

lemma parse_string_shorter: "parse_string ok s n = JOk x r m \<Longrightarrow> length r < length s"
proof -
  assume "parse_string ok s n = JOk x r m"
  then obtain cap out rest where l: "str_loop cap None None [] (tl s) = Inr (out, rest)" "r = (if hd rest = CHR 0x22 then tl rest else rest)" "s \<noteq> []"
    by (auto simp: parse_string_def jlift_eq_JOk rd_def split: if_splits)
  from str_loop_rest [OF l(1)] l(2,3) show ?thesis by (cases s) auto
qed

lemma parse_string_no_fuel [simp]: "parse_string ok s n \<noteq> JFuel"
  by (auto simp: parse_string_def jlift_eq_JFuel)

lemma num_rests:
  "num_sign s = Inr (b, r) \<Longrightarrow> length r \<le> length s"
  "num_zero s = Inr r \<Longrightarrow> length r \<le> length s"
  "num_int fe s = Inr (d, r) \<Longrightarrow> length r \<le> length s"
  "num_frac fe d s = Inr (d', k, r) \<Longrightarrow> length r \<le> length s"
  "num_exp s = Inr (k, r) \<Longrightarrow> length r \<le> length s"
proof -
  have t: "length (dropWhile is_digit (tl s)) \<le> length s" "length (dropWhile is_digit (tl (tl s))) \<le> length s" "length (dropWhile is_digit s) \<le> length s"
    using length_dropWhile_le [of is_digit "tl s"] length_dropWhile_le [of is_digit "tl (tl s)"] length_dropWhile_le [of is_digit s] by simp_all
  show "num_sign s = Inr (b, r) \<Longrightarrow> length r \<le> length s" by (auto simp: num_sign_def run_bind_eq_Inr split: if_splits)
  show "num_zero s = Inr r \<Longrightarrow> length r \<le> length s" by (auto simp: num_zero_def run_bind_eq_Inr split: if_splits)
  show "num_int fe s = Inr (d, r) \<Longrightarrow> length r \<le> length s" using t by (auto simp: num_int_def run_bind_eq_Inr split: if_splits)
  show "num_frac fe d s = Inr (d', k, r) \<Longrightarrow> length r \<le> length s"
    using t by (auto simp: num_frac_def run_bind_eq_Inr Let_def split: if_splits)
  show "num_exp s = Inr (k, r) \<Longrightarrow> length r \<le> length s"
    using t by (auto simp: num_exp_def run_bind_eq_Inr Let_def split: if_splits)
qed

lemma parse_number_shorter:
  assumes "parse_number fe (c # s) = Inr (d, i, r)" "c = CHR ''-'' \<or> is_digit c"
  shows "length r < length (c # s)"
proof -
  from assms(1) obtain b s1 s2 d1 s3 d2 k s4 k2 where n:
    "num_sign (c # s) = Inr (b, s1)" "num_zero s1 = Inr s2" "num_int fe s2 = Inr (d1, s3)" "num_frac fe d1 s3 = Inr (d2, k, s4)" "num_exp s4 = Inr (k2, r)"
    by (auto simp: parse_number_def run_bind_eq_Inr Let_def)
  have le: "length r \<le> length s3" using num_rests(4) [OF n(4)] num_rests(5) [OF n(5)] by simp
  show ?thesis
  proof (cases "c = CHR ''-''")
    case True
    then have "s1 = s" using n(1) by (simp add: num_sign_def)
    then show ?thesis using le num_rests(2) [OF n(2)] num_rests(3) [OF n(3)] by simp
  next
    case False
    then have s1: "s1 = c # s" using n(1) by (simp add: num_sign_def)
    show ?thesis
    proof (cases "c = CHR ''0''")
      case True
      then have "s2 = s" using s1 n(2) by (simp add: num_zero_def)
      then show ?thesis using le num_rests(3) [OF n(3)] by simp
    next
      case f: False
      then have "s2 = c # s" using s1 n(2) by (simp add: num_zero_def)
      then have "s3 = dropWhile is_digit s" using n(3) f False assms(2) by (simp add: num_int_def)
      then show ?thesis using le length_dropWhile_le [of is_digit s] by simp
    qed
  qed
qed

lemma strncmp_eq_take: "strncmp_eq s (cstr t) (length t) = Inr True \<Longrightarrow> no_nul t \<Longrightarrow> length t \<le> length s"
proof (induction t arbitrary: s)
  case (Cons c t)
  then show ?case by (cases s) (auto simp: cstr_def split: if_splits)
qed simp

text \<open>A parser of elements that uses up text and has enough fuel for texts shorter than \<open>k\<close>.\<close>

definition shrinks :: "(string \<Rightarrow> nat \<Rightarrow> 'a jres) \<Rightarrow> bool" where
  "shrinks p \<longleftrightarrow> (\<forall>s n x r m. p s n = JOk x r m \<longrightarrow> length r < length s)"

definition fuelled :: "nat \<Rightarrow> (string \<Rightarrow> nat \<Rightarrow> 'a jres) \<Rightarrow> bool" where
  "fuelled k p \<longleftrightarrow> (\<forall>s n. length s < k \<longrightarrow> p s n \<noteq> JFuel)"

lemma shrinksD: "shrinks p \<Longrightarrow> p s n = JOk x r m \<Longrightarrow> length r < length s"
  unfolding shrinks_def by blast

lemma parse_member_shrinks:
  assumes "\<And>item. shrinks (p item)"
  shows "shrinks (parse_member p ok)"
  unfolding shrinks_def
proof (intro allI impI)
  fix s n x r m
  assume "parse_member p ok s n = JOk x r m"
  then obtain nm s1 n1 where a: "parse_string ok (skip s) n = JOk nm s1 n1" "p (string_to_name (set_string nm new_item)) (skip (tl (skip s1))) n1 = JOk x r m"
    by (auto simp: parse_member_def jbind_eq_JOk jlift_eq_JOk Let_def split: if_splits)
  from shrinksD [OF assms a(2)] parse_string_shorter [OF a(1)] skip_length [of s] skip_length [of "tl (skip s1)"] skip_length [of s1]
  show "length r < length s" by simp
qed

lemma parse_member_fuelled:
  assumes "\<And>item. fuelled k (p item)"
  shows "fuelled k (parse_member p ok)"
  unfolding fuelled_def
proof (intro allI impI notI)
  fix s n
  assume "length s < k" "parse_member p ok s n = JFuel"
  then obtain nm s1 n1 where a: "parse_string ok (skip s) n = JOk nm s1 n1" "p (string_to_name (set_string nm new_item)) (skip (tl (skip s1))) n1 = JFuel"
    by (auto simp: parse_member_def jbind_eq_JFuel jlift_eq_JFuel Let_def split: if_splits)
  have "length (skip (tl (skip s1))) < k"
    using parse_string_shorter [OF a(1)] skip_length [of s] skip_length [of "tl (skip s1)"] skip_length [of s1] \<open>length s < k\<close> by simp
  with assms a(2) show False by (auto simp: fuelled_def)
qed

lemma array_loop_shorter:
  assumes "shrinks p"
  shows "array_loop p ok f acc s n = JOk x r m \<Longrightarrow> length r < length s"
proof (induction f arbitrary: acc s n)
  case (Suc f)
  then have ne: "s \<noteq> []" by (auto simp: rd_def)
  show ?case
  proof (cases "s ! 0 = CHR '',''")
    case True
    with Suc.prems ne obtain y t k where t: "p (skip (tl s)) (Suc n) = JOk y t k" "array_loop p ok f (acc @ [y]) (skip t) k = JOk x r m"
      by (auto simp: jbind_eq_JOk split: if_splits)
    from shrinksD [OF assms t(1)] Suc.IH [OF t(2)] skip_length [of "tl s"] skip_length [of t] ne show ?thesis by simp
  next
    case False
    with Suc.prems ne show ?thesis by (auto split: if_splits)
  qed
qed simp

lemma object_loop_shorter:
  assumes "shrinks (parse_member p ok)"
  shows "object_loop p ok f acc s n = JOk x r m \<Longrightarrow> length r < length s"
proof (induction f arbitrary: acc s n)
  case (Suc f)
  then have ne: "s \<noteq> []" by (auto simp: rd_def)
  show ?case
  proof (cases "s ! 0 = CHR '',''")
    case True
    with Suc.prems ne obtain y t k where t: "parse_member p ok (tl s) (Suc n) = JOk y t k" "object_loop p ok f (acc @ [y]) (skip t) k = JOk x r m"
      by (auto simp: jbind_eq_JOk split: if_splits)
    from shrinksD [OF assms t(1)] Suc.IH [OF t(2)] skip_length [of t] ne show ?thesis by simp
  next
    case False
    with Suc.prems ne show ?thesis by (auto split: if_splits)
  qed
qed simp

lemma array_loop_fuelled:
  assumes "shrinks p" "fuelled k p"
  shows "length s < f \<Longrightarrow> length s \<le> k \<Longrightarrow> array_loop p ok f acc s n \<noteq> JFuel"
proof (induction f arbitrary: acc s n)
  case (Suc f)
  show ?case
  proof
    assume J: "array_loop p ok (Suc f) acc s n = JFuel"
    then have ne: "s \<noteq> []" by (auto simp: rd_def)
    with J have c: "p (skip (tl s)) (Suc n) = JFuel \<or> (\<exists>y t m. p (skip (tl s)) (Suc n) = JOk y t m \<and> array_loop p ok f (acc @ [y]) (skip t) m = JFuel)"
      by (auto simp: jbind_eq_JFuel split: if_splits)
    have "length (skip (tl s)) < k" using skip_length [of "tl s"] ne Suc.prems by (cases s) auto
    with assms(2) c obtain y t m where t: "p (skip (tl s)) (Suc n) = JOk y t m" "array_loop p ok f (acc @ [y]) (skip t) m = JFuel"
      unfolding fuelled_def by blast
    have "length (skip t) < length s" using shrinksD [OF assms(1) t(1)] skip_length [of "tl s"] skip_length [of t] ne by simp
    then show False using Suc.IH [of "skip t" "acc @ [y]" m] t(2) Suc.prems by simp
  qed
qed simp

lemma object_loop_fuelled:
  assumes "shrinks (parse_member p ok)" "fuelled k (parse_member p ok)"
  shows "length s < f \<Longrightarrow> length s \<le> k \<Longrightarrow> object_loop p ok f acc s n \<noteq> JFuel"
proof (induction f arbitrary: acc s n)
  case (Suc f)
  show ?case
  proof
    assume J: "object_loop p ok (Suc f) acc s n = JFuel"
    then have ne: "s \<noteq> []" by (auto simp: rd_def)
    with J have c: "parse_member p ok (tl s) (Suc n) = JFuel \<or> (\<exists>y t m. parse_member p ok (tl s) (Suc n) = JOk y t m \<and> object_loop p ok f (acc @ [y]) (skip t) m = JFuel)"
      by (auto simp: jbind_eq_JFuel split: if_splits)
    have "length (tl s) < k" using ne Suc.prems by (cases s) auto
    with assms(2) c obtain y t m where t: "parse_member p ok (tl s) (Suc n) = JOk y t m" "object_loop p ok f (acc @ [y]) (skip t) m = JFuel"
      unfolding fuelled_def by blast
    have "length (skip t) < length s" using shrinksD [OF assms(1) t(1)] skip_length [of t] ne by simp
    then show False using Suc.IH [of "skip t" "acc @ [y]" m] t(2) Suc.prems by simp
  qed
qed simp

lemma parse_array_shorter:
  assumes "shrinks p" "parse_array p ok f s n = JOk x r m"
  shows "length r < length s"
proof -
  have ne: "s \<noteq> []" using assms(2) by (auto simp: parse_array_def rd_def)
  let ?t = "skip (tl s)"
  have "r = tl ?t \<or> (\<exists>y t k. p (skip ?t) (Suc n) = JOk y t k \<and> array_loop p ok f [y] (skip t) k = JOk x r m)"
    using assms(2) by (auto simp: parse_array_def jlift_eq_JOk jbind_eq_JOk Let_def split: if_splits)
  then show ?thesis
  proof
    assume "r = tl ?t"
    then show ?thesis using skip_length [of "tl s"] ne by (cases s) auto
  next
    assume "\<exists>y t k. p (skip ?t) (Suc n) = JOk y t k \<and> array_loop p ok f [y] (skip t) k = JOk x r m"
    then obtain y t k where t: "p (skip ?t) (Suc n) = JOk y t k" "array_loop p ok f [y] (skip t) k = JOk x r m" by blast
    from shrinksD [OF assms(1) t(1)] array_loop_shorter [OF assms(1) t(2)] skip_length [of ?t] skip_length [of "tl s"] skip_length [of t] ne
    show ?thesis by (cases s) auto
  qed
qed

lemma parse_object_shorter:
  assumes "shrinks (parse_member p ok)" "parse_object p ok f s n = JOk x r m"
  shows "length r < length s"
proof -
  have ne: "s \<noteq> []" using assms(2) by (auto simp: parse_object_def rd_def)
  let ?t = "skip (tl s)"
  have "r = tl ?t \<or> (\<exists>y t k. parse_member p ok ?t (Suc n) = JOk y t k \<and> object_loop p ok f [y] (skip t) k = JOk x r m)"
    using assms(2) by (auto simp: parse_object_def jlift_eq_JOk jbind_eq_JOk Let_def split: if_splits)
  then show ?thesis
  proof
    assume "r = tl ?t"
    then show ?thesis using skip_length [of "tl s"] ne by (cases s) auto
  next
    assume "\<exists>y t k. parse_member p ok ?t (Suc n) = JOk y t k \<and> object_loop p ok f [y] (skip t) k = JOk x r m"
    then obtain y t k where t: "parse_member p ok ?t (Suc n) = JOk y t k" "object_loop p ok f [y] (skip t) k = JOk x r m" by blast
    from shrinksD [OF assms(1) t(1)] object_loop_shorter [OF assms(1) t(2)] skip_length [of "tl s"] skip_length [of t] ne
    show ?thesis by (cases s) auto
  qed
qed

lemma strncmp_eq_Nil: "0 < n \<Longrightarrow> strncmp_eq [] b n = Inl OutOfBounds"
  by (cases n) auto

lemma parse_value_shrinks: "shrinks (parse_value fe ok f item)"
proof (induction f arbitrary: item)
  case 0
  show ?case by (simp add: shrinks_def)
next
  case (Suc f)
  show ?case unfolding shrinks_def
  proof (intro allI impI)
    fix s n x r m
    assume v: "parse_value fe ok (Suc f) item s n = JOk x r m"
    then have ne: "s \<noteq> []" by (auto simp: strncmp_eq_Nil)
    then have "(r = drop 4 s \<or> r = drop 5 s) \<or> (\<exists>y k. parse_string ok s n = JOk y r k) \<or>
        (\<exists>d i. parse_number fe s = Inr (d, i, r) \<and> (hd s = CHR ''-'' \<or> is_digit (hd s))) \<or>
        (\<exists>y k. parse_array (parse_value fe ok f new_item) ok f s n = JOk y r k) \<or>
        (\<exists>y k. parse_object (parse_value fe ok f) ok f s n = JOk y r k)"
      using v by (auto simp: jlift_eq_JOk jbind_eq_JOk hd_conv_nth split: if_splits)
    moreover have num: "length r < length s" if "parse_number fe s = Inr (d, i, r)" "hd s = CHR ''-'' \<or> is_digit (hd s)" for d i
      using parse_number_shorter [of fe "hd s" "tl s" d i r] that ne by simp
    ultimately show "length r < length s"
    proof (elim disjE exE conjE)
      fix y k
      assume "parse_string ok s n = JOk y r k"
      then show ?thesis by (rule parse_string_shorter)
    next
      fix y k
      assume "parse_array (parse_value fe ok f new_item) ok f s n = JOk y r k"
      then show ?thesis by (rule parse_array_shorter [OF Suc])
    next
      fix y k
      assume "parse_object (parse_value fe ok f) ok f s n = JOk y r k"
      then show ?thesis by (rule parse_object_shorter [OF parse_member_shrinks [OF Suc]])
    qed (use ne num in auto)
  qed
qed

lemma parse_array_fuelled:
  assumes "shrinks p" "fuelled k p" "length s \<le> k" "length s \<le> f"
  shows "parse_array p ok f s n \<noteq> JFuel"
proof
  let ?t = "skip (tl s)"
  assume J: "parse_array p ok f s n = JFuel"
  then have ne: "s \<noteq> []" by (auto simp: parse_array_def rd_def)
  from J have c: "p (skip ?t) (Suc n) = JFuel \<or> (\<exists>y t m. p (skip ?t) (Suc n) = JOk y t m \<and> array_loop p ok f [y] (skip t) m = JFuel)"
    by (auto simp: parse_array_def jlift_eq_JFuel jbind_eq_JFuel Let_def split: if_splits)
  have l: "length (skip ?t) < length s" using skip_length [of ?t] skip_length [of "tl s"] ne by (cases s) auto
  with assms(2,3) c obtain y t m where t: "p (skip ?t) (Suc n) = JOk y t m" "array_loop p ok f [y] (skip t) m = JFuel"
    unfolding fuelled_def by (meson order_less_le_trans)
  have "length (skip t) < length s" using shrinksD [OF assms(1) t(1)] l skip_length [of t] by simp
  then show False using array_loop_fuelled [OF assms(1,2), of "skip t" f ok "[y]" m] t(2) assms(3,4) by simp
qed

lemma parse_object_fuelled:
  assumes "shrinks (parse_member p ok)" "fuelled k (parse_member p ok)" "length s \<le> k" "length s \<le> f"
  shows "parse_object p ok f s n \<noteq> JFuel"
proof
  let ?t = "skip (tl s)"
  assume J: "parse_object p ok f s n = JFuel"
  then have ne: "s \<noteq> []" by (auto simp: parse_object_def rd_def)
  from J have c: "parse_member p ok ?t (Suc n) = JFuel \<or> (\<exists>y t m. parse_member p ok ?t (Suc n) = JOk y t m \<and> object_loop p ok f [y] (skip t) m = JFuel)"
    by (auto simp: parse_object_def jlift_eq_JFuel jbind_eq_JFuel Let_def split: if_splits)
  have l: "length ?t < length s" using skip_length [of "tl s"] ne by (cases s) auto
  with assms(2,3) c obtain y t m where t: "parse_member p ok ?t (Suc n) = JOk y t m" "object_loop p ok f [y] (skip t) m = JFuel"
    unfolding fuelled_def by (meson order_less_le_trans)
  have "length (skip t) < length s" using shrinksD [OF assms(1) t(1)] l skip_length [of t] by simp
  then show False using object_loop_fuelled [OF assms(1,2), of "skip t" f "[y]" m] t(2) assms(3,4) by simp
qed

text \<open>More fuel than the text has bytes is enough.\<close>

lemma parse_value_enough: "fuelled f (parse_value fe ok f item)"
proof (induction f arbitrary: item)
  case 0
  show ?case by (simp add: fuelled_def)
next
  case (Suc f)
  show ?case unfolding fuelled_def
  proof (intro allI impI notI)
    fix s n
    assume l: "length s < Suc f" and "parse_value fe ok (Suc f) item s n = JFuel"
    then have "parse_array (parse_value fe ok f new_item) ok f s n = JFuel \<or> parse_object (parse_value fe ok f) ok f s n = JFuel"
      by (auto simp: jlift_eq_JFuel jbind_eq_JFuel split: if_splits)
    moreover have "parse_array (parse_value fe ok f new_item) ok f s n \<noteq> JFuel"
      by (rule parse_array_fuelled [OF parse_value_shrinks Suc]) (use l in simp_all)
    moreover have "parse_object (parse_value fe ok f) ok f s n \<noteq> JFuel"
      by (rule parse_object_fuelled [OF parse_member_shrinks [OF parse_value_shrinks] parse_member_fuelled [OF Suc]]) (use l in simp_all)
    ultimately show False by blast
  qed
qed

end
