(* ===== verification/Duda_Cjson_Items.thy ===== *)
theory Duda_Cjson_Items
  imports Duda_Cjson_Text
begin

text \<open>
  The operations of \<open>packages/json/cJSON.c\<close> on the items of arrays and objects. Here the structures
  are nodes of a heap with their pointers: the children of a node are a chain of nodes linked by
  \<open>next\<close> and \<open>prev\<close>. A loop along a chain ends only if the chain does, so its result is an option;
  reading or writing a node that is not allocated is a fault.
\<close>

unbundle bit_operations_syntax

record jnode =
  jn_next :: "nat option"
  jn_prev :: "nat option"
  jn_child :: "nat option"
  jn_type :: int
  jn_vstr :: "string option"
  jn_vint :: int
  jn_vdbl :: dbl
  jn_name :: "string option"

type_synonym jheap = "nat \<rightharpoonup> jnode"

definition nd :: "jheap \<Rightarrow> nat \<Rightarrow> jnode run" where
  "nd h a = (case h a of None \<Rightarrow> Inl OutOfBounds | Some n \<Rightarrow> Inr n)"

definition upd :: "jheap \<Rightarrow> nat \<Rightarrow> (jnode \<Rightarrow> jnode) \<Rightarrow> jheap run" where
  "upd h a f = (case h a of None \<Rightarrow> Inl OutOfBounds | Some n \<Rightarrow> Inr (h(a \<mapsto> f n)))"

lemma nd_ok [simp]: "h a = Some n \<Longrightarrow> nd h a = Inr n"
  by (simp add: nd_def)

lemma upd_ok [simp]: "h a = Some n \<Longrightarrow> upd h a f = Inr (h(a \<mapsto> f n))"
  by (simp add: upd_def)

text \<open>The bind of a loop that may not end.\<close>

definition lbind :: "'a run option \<Rightarrow> ('a \<Rightarrow> 'b run option) \<Rightarrow> 'b run option" where
  "lbind m k = (case m of None \<Rightarrow> None | Some (Inl e) \<Rightarrow> Some (Inl e) | Some (Inr x) \<Rightarrow> k x)"

lemma lbind_simps [simp]: "lbind None k = None" "lbind (Some (Inl e)) k = Some (Inl e)" "lbind (Some (Inr x)) k = k x"
  by (simp_all add: lbind_def)

section \<open>Creation\<close>

text \<open>\<open>alloc\<close> is the allocator: the address of a new block, or \<open>None\<close>.\<close>

definition zero_node :: jnode where
  "zero_node = \<lparr>jn_next = None, jn_prev = None, jn_child = None, jn_type = 0, jn_vstr = None, jn_vint = 0, jn_vdbl = Fin 0, jn_name = None\<rparr>"

definition cJSON_New_Item :: "(jheap \<Rightarrow> nat option) \<Rightarrow> jheap \<Rightarrow> nat option \<times> jheap" where
  "cJSON_New_Item alloc h = (case alloc h of None \<Rightarrow> (None, h) | Some a \<Rightarrow> (Some a, h(a \<mapsto> zero_node)))"

definition create_with :: "(jheap \<Rightarrow> nat option) \<Rightarrow> (jnode \<Rightarrow> jnode) \<Rightarrow> jheap \<Rightarrow> nat option \<times> jheap" where
  "create_with alloc f h =
     (let (item, h) = cJSON_New_Item alloc h
      in case item of None \<Rightarrow> (None, h) | Some a \<Rightarrow> (Some a, h(a \<mapsto> f zero_node)))"

definition cJSON_CreateNull :: "(jheap \<Rightarrow> nat option) \<Rightarrow> jheap \<Rightarrow> nat option \<times> jheap" where
  "cJSON_CreateNull alloc = create_with alloc (\<lambda>n. n\<lparr>jn_type := 2\<rparr>)"

definition cJSON_CreateTrue :: "(jheap \<Rightarrow> nat option) \<Rightarrow> jheap \<Rightarrow> nat option \<times> jheap" where
  "cJSON_CreateTrue alloc = create_with alloc (\<lambda>n. n\<lparr>jn_type := 1\<rparr>)"

definition cJSON_CreateFalse :: "(jheap \<Rightarrow> nat option) \<Rightarrow> jheap \<Rightarrow> nat option \<times> jheap" where
  "cJSON_CreateFalse alloc = create_with alloc (\<lambda>n. n\<lparr>jn_type := 0\<rparr>)"

definition cJSON_CreateBool :: "(jheap \<Rightarrow> nat option) \<Rightarrow> int \<Rightarrow> jheap \<Rightarrow> nat option \<times> jheap" where
  "cJSON_CreateBool alloc b = create_with alloc (\<lambda>n. n\<lparr>jn_type := if b \<noteq> 0 then 1 else 0\<rparr>)"

definition cJSON_CreateNumber :: "(jheap \<Rightarrow> nat option) \<Rightarrow> fenv \<Rightarrow> dbl \<Rightarrow> jheap \<Rightarrow> nat option \<times> jheap" where
  "cJSON_CreateNumber alloc fe num = create_with alloc (\<lambda>n. n\<lparr>jn_type := 3, jn_vdbl := num, jn_vint := fl_to_int fe num\<rparr>)"

text \<open>\<open>dup\<close> is what \<open>cJSON_strdup\<close> returns: the text, or \<open>None\<close> if memory is short.\<close>

definition cJSON_CreateString :: "(jheap \<Rightarrow> nat option) \<Rightarrow> (string \<Rightarrow> string option) \<Rightarrow> string \<Rightarrow> jheap \<Rightarrow> nat option \<times> jheap" where
  "cJSON_CreateString alloc dup s = create_with alloc (\<lambda>n. n\<lparr>jn_type := 4, jn_vstr := dup s\<rparr>)"

definition cJSON_CreateArray :: "(jheap \<Rightarrow> nat option) \<Rightarrow> jheap \<Rightarrow> nat option \<times> jheap" where
  "cJSON_CreateArray alloc = create_with alloc (\<lambda>n. n\<lparr>jn_type := 5\<rparr>)"

definition cJSON_CreateObject :: "(jheap \<Rightarrow> nat option) \<Rightarrow> jheap \<Rightarrow> nat option \<times> jheap" where
  "cJSON_CreateObject alloc = create_with alloc (\<lambda>n. n\<lparr>jn_type := 6\<rparr>)"

definition suffix_object :: "jheap \<Rightarrow> nat option \<Rightarrow> nat option \<Rightarrow> jheap run" where
  "suffix_object h prev item =
     (case prev of None \<Rightarrow> Inl NullDeref
      | Some p \<Rightarrow> run_bind (upd h p (\<lambda>n. n\<lparr>jn_next := item\<rparr>)) (\<lambda>h.
          case item of None \<Rightarrow> Inl NullDeref | Some i \<Rightarrow> upd h i (\<lambda>n. n\<lparr>jn_prev := Some p\<rparr>)))"

text \<open>
  \<open>cJSON_CreateIntArray\<close>, \<open>FloatArray\<close>, \<open>DoubleArray\<close> and \<open>StringArray\<close> differ in the function that
  creates an element; \<open>p\<close> is the previous element, \<open>i\<close> the index.
\<close>

primrec create_elems :: "('e \<Rightarrow> jheap \<Rightarrow> nat option \<times> jheap) \<Rightarrow> nat \<Rightarrow> 'e list \<Rightarrow> nat \<Rightarrow> nat option \<Rightarrow> jheap \<Rightarrow> jheap run" where
  "create_elems mk a [] i p h = Inr h"
| "create_elems mk a (e # es) i p h =
     (let (n, h) = mk e h
      in run_bind (if i = 0 then upd h a (\<lambda>nd. nd\<lparr>jn_child := n\<rparr>) else suffix_object h p n) (\<lambda>h.
           create_elems mk a es (Suc i) n h))"

definition create_array_of :: "(jheap \<Rightarrow> nat option) \<Rightarrow> ('e \<Rightarrow> jheap \<Rightarrow> nat option \<times> jheap) \<Rightarrow> 'e list \<Rightarrow> jheap \<Rightarrow> (nat option \<times> jheap) run" where
  "create_array_of alloc mk es h =
     (let (a, h) = cJSON_CreateArray alloc h
      in case a of None \<Rightarrow> Inr (None, h) | Some a \<Rightarrow> run_bind (create_elems mk a es 0 None h) (\<lambda>h. Inr (Some a, h)))"

definition cJSON_CreateIntArray :: "(jheap \<Rightarrow> nat option) \<Rightarrow> fenv \<Rightarrow> int list \<Rightarrow> jheap \<Rightarrow> (nat option \<times> jheap) run" where
  "cJSON_CreateIntArray alloc fe numbers = create_array_of alloc (\<lambda>i. cJSON_CreateNumber alloc fe (Fin (of_int i))) numbers"

definition cJSON_CreateDoubleArray :: "(jheap \<Rightarrow> nat option) \<Rightarrow> fenv \<Rightarrow> dbl list \<Rightarrow> jheap \<Rightarrow> (nat option \<times> jheap) run" where
  "cJSON_CreateDoubleArray alloc fe numbers = create_array_of alloc (cJSON_CreateNumber alloc fe) numbers"

text \<open>A float is converted to the double of the same value.\<close>

definition cJSON_CreateFloatArray :: "(jheap \<Rightarrow> nat option) \<Rightarrow> fenv \<Rightarrow> dbl list \<Rightarrow> jheap \<Rightarrow> (nat option \<times> jheap) run" where
  "cJSON_CreateFloatArray alloc fe numbers = create_array_of alloc (cJSON_CreateNumber alloc fe) numbers"

definition cJSON_CreateStringArray :: "(jheap \<Rightarrow> nat option) \<Rightarrow> (string \<Rightarrow> string option) \<Rightarrow> string list \<Rightarrow> jheap \<Rightarrow> (nat option \<times> jheap) run" where
  "cJSON_CreateStringArray alloc dup strings = create_array_of alloc (cJSON_CreateString alloc dup) strings"

section \<open>Lookup\<close>

partial_function (option) count_nodes :: "jheap \<Rightarrow> nat option \<Rightarrow> nat \<Rightarrow> nat run option" where
  "count_nodes h c i =
     (case c of None \<Rightarrow> Some (Inr i)
      | Some a \<Rightarrow> (case h a of None \<Rightarrow> Some (Inl OutOfBounds) | Some n \<Rightarrow> count_nodes h (jn_next n) (Suc i)))"

definition cJSON_GetArraySize :: "jheap \<Rightarrow> nat \<Rightarrow> nat run option" where
  "cJSON_GetArraySize h array = lbind (Some (nd h array)) (\<lambda>n. count_nodes h (jn_child n) 0)"

primrec nth_node :: "nat \<Rightarrow> jheap \<Rightarrow> nat option \<Rightarrow> nat option run" where
  "nth_node 0 h c = Inr c"
| "nth_node (Suc k) h c = (case c of None \<Rightarrow> Inr None | Some a \<Rightarrow> run_bind (nd h a) (\<lambda>n. nth_node k h (jn_next n)))"

definition cJSON_GetArrayItem :: "jheap \<Rightarrow> nat \<Rightarrow> int \<Rightarrow> nat option run" where
  "cJSON_GetArrayItem h array item = run_bind (nd h array) (\<lambda>n. nth_node (nat item) h (jn_child n))"

definition tolower :: "char \<Rightarrow> nat" where
  "tolower c = (let v = of_char c in if 65 \<le> v \<and> v \<le> 90 then v + 32 else v)"

fun strcase_loop :: "string \<Rightarrow> string \<Rightarrow> int run" where
  "strcase_loop (x # a) (y # b) =
     (if tolower x = tolower y then if x = NUL then Inr 0 else strcase_loop a b
      else Inr (int (tolower x) - int (tolower y)))"
| "strcase_loop _ _ = Inl OutOfBounds"

text \<open>The strings are given by their texts.\<close>

definition cJSON_strcasecmp :: "string option \<Rightarrow> string option \<Rightarrow> int run" where
  "cJSON_strcasecmp s1 s2 =
     (case s1 of None \<Rightarrow> Inr (if s2 = None then 0 else 1)
      | Some a \<Rightarrow> (case s2 of None \<Rightarrow> Inr 1 | Some b \<Rightarrow> strcase_loop (cstr a) (cstr b)))"

text \<open>The loop over the names counts the nodes it passes.\<close>

partial_function (option) find_name :: "jheap \<Rightarrow> nat option \<Rightarrow> string \<Rightarrow> nat \<Rightarrow> (nat option \<times> nat) run option" where
  "find_name h c s i =
     (case c of None \<Rightarrow> Some (Inr (None, i))
      | Some a \<Rightarrow>
          (case h a of None \<Rightarrow> Some (Inl OutOfBounds)
           | Some n \<Rightarrow>
               (case cJSON_strcasecmp (jn_name n) (Some s) of Inl e \<Rightarrow> Some (Inl e)
                | Inr d \<Rightarrow> if d = 0 then Some (Inr (Some a, i)) else find_name h (jn_next n) s (Suc i))))"

definition cJSON_GetObjectItem :: "jheap \<Rightarrow> nat \<Rightarrow> string \<Rightarrow> nat option run option" where
  "cJSON_GetObjectItem h object s =
     lbind (Some (nd h object)) (\<lambda>n. lbind (find_name h (jn_child n) s 0) (\<lambda>(c, i). Some (Inr c)))"

section \<open>Changes\<close>

partial_function (option) last_node :: "jheap \<Rightarrow> nat \<Rightarrow> nat run option" where
  "last_node h c =
     (case h c of None \<Rightarrow> Some (Inl OutOfBounds)
      | Some n \<Rightarrow> (case jn_next n of None \<Rightarrow> Some (Inr c) | Some d \<Rightarrow> last_node h d))"

definition cJSON_AddItemToArray :: "jheap \<Rightarrow> nat \<Rightarrow> nat option \<Rightarrow> jheap run option" where
  "cJSON_AddItemToArray h array item =
     lbind (Some (nd h array)) (\<lambda>n.
       if item = None then Some (Inr h)
       else (case jn_child n of
               None \<Rightarrow> Some (upd h array (\<lambda>n. n\<lparr>jn_child := item\<rparr>))
             | Some c \<Rightarrow> lbind (last_node h c) (\<lambda>l. Some (suffix_object h (Some l) item))))"

definition cJSON_AddItemToObject :: "(string \<Rightarrow> string option) \<Rightarrow> jheap \<Rightarrow> nat \<Rightarrow> string \<Rightarrow> nat option \<Rightarrow> jheap run option" where
  "cJSON_AddItemToObject dup h object s item =
     (case item of None \<Rightarrow> Some (Inr h)
      | Some i \<Rightarrow> lbind (Some (upd h i (\<lambda>n. n\<lparr>jn_name := dup s\<rparr>))) (\<lambda>h. cJSON_AddItemToArray h object (Some i)))"

definition cJSON_IsReference :: int where "cJSON_IsReference = 256"

definition create_reference :: "(jheap \<Rightarrow> nat option) \<Rightarrow> jheap \<Rightarrow> nat \<Rightarrow> (nat option \<times> jheap) run" where
  "create_reference alloc h item =
     (case cJSON_New_Item alloc h of (None, h) \<Rightarrow> Inr (None, h)
      | (Some r, h) \<Rightarrow>
          run_bind (nd h item) (\<lambda>n.
            Inr (Some r, h(r \<mapsto> n\<lparr>jn_name := None, jn_type := jn_type n OR cJSON_IsReference, jn_next := None, jn_prev := None\<rparr>))))"

definition cJSON_AddItemReferenceToArray :: "(jheap \<Rightarrow> nat option) \<Rightarrow> jheap \<Rightarrow> nat \<Rightarrow> nat \<Rightarrow> jheap run option" where
  "cJSON_AddItemReferenceToArray alloc h array item =
     lbind (Some (create_reference alloc h item)) (\<lambda>(r, h). cJSON_AddItemToArray h array r)"

definition cJSON_AddItemReferenceToObject :: "(jheap \<Rightarrow> nat option) \<Rightarrow> (string \<Rightarrow> string option) \<Rightarrow> jheap \<Rightarrow> nat \<Rightarrow> string \<Rightarrow> nat \<Rightarrow> jheap run option" where
  "cJSON_AddItemReferenceToObject alloc dup h object s item =
     lbind (Some (create_reference alloc h item)) (\<lambda>(r, h). cJSON_AddItemToObject dup h object s r)"

text \<open>The pointer assignments of \<open>cJSON_DetachItemFromArray\<close>, one per condition.\<close>

definition upd_opt :: "jheap \<Rightarrow> nat option \<Rightarrow> (jnode \<Rightarrow> jnode) \<Rightarrow> jheap run" where
  "upd_opt h p f = (case p of None \<Rightarrow> Inr h | Some a \<Rightarrow> upd h a f)"

definition cJSON_DetachItemFromArray :: "jheap \<Rightarrow> nat \<Rightarrow> int \<Rightarrow> (nat option \<times> jheap) run" where
  "cJSON_DetachItemFromArray h array which =
     run_bind (nd h array) (\<lambda>an.
     run_bind (nth_node (nat which) h (jn_child an)) (\<lambda>c.
       case c of None \<Rightarrow> Inr (None, h)
       | Some c \<Rightarrow>
           run_bind (nd h c) (\<lambda>n.
           run_bind (upd_opt h (jn_prev n) (\<lambda>m. m\<lparr>jn_next := jn_next n\<rparr>)) (\<lambda>h.
           run_bind (upd_opt h (jn_next n) (\<lambda>m. m\<lparr>jn_prev := jn_prev n\<rparr>)) (\<lambda>h.
           run_bind (if jn_child an = Some c then upd h array (\<lambda>m. m\<lparr>jn_child := jn_next n\<rparr>) else Inr h) (\<lambda>h.
           run_bind (upd h c (\<lambda>m. m\<lparr>jn_prev := None, jn_next := None\<rparr>)) (\<lambda>h. Inr (Some c, h))))))))"

definition cJSON_DetachItemFromObject :: "jheap \<Rightarrow> nat \<Rightarrow> string \<Rightarrow> (nat option \<times> jheap) run option" where
  "cJSON_DetachItemFromObject h object s =
     lbind (Some (nd h object)) (\<lambda>n.
     lbind (find_name h (jn_child n) s 0) (\<lambda>(c, i).
       if c \<noteq> None then Some (cJSON_DetachItemFromArray h object (int i)) else Some (Inr (None, h))))"

text \<open>Freeing a node takes it out of the heap; what a reference shares is not freed.\<close>

definition is_ref :: "jnode \<Rightarrow> bool" where
  "is_ref n \<longleftrightarrow> jn_type n AND cJSON_IsReference \<noteq> 0"

partial_function (option) cJSON_Delete :: "jheap \<Rightarrow> nat option \<Rightarrow> jheap run option" where
  "cJSON_Delete h c =
     (case c of None \<Rightarrow> Some (Inr h)
      | Some a \<Rightarrow>
          (case h a of None \<Rightarrow> Some (Inl OutOfBounds)
           | Some n \<Rightarrow>
               Option.bind (if \<not> is_ref n \<and> jn_child n \<noteq> None then cJSON_Delete h (jn_child n) else Some (Inr h)) (\<lambda>r.
                 case r of Inl e \<Rightarrow> Some (Inl e)
                 | Inr h \<Rightarrow> if h a = None then Some (Inl OutOfBounds) else cJSON_Delete (h(a := None)) (jn_next n))))"

definition cJSON_DeleteItemFromArray :: "jheap \<Rightarrow> nat \<Rightarrow> int \<Rightarrow> jheap run option" where
  "cJSON_DeleteItemFromArray h array which = lbind (Some (cJSON_DetachItemFromArray h array which)) (\<lambda>(c, h). cJSON_Delete h c)"

definition cJSON_DeleteItemFromObject :: "jheap \<Rightarrow> nat \<Rightarrow> string \<Rightarrow> jheap run option" where
  "cJSON_DeleteItemFromObject h object s = lbind (cJSON_DetachItemFromObject h object s) (\<lambda>(c, h). cJSON_Delete h c)"

definition cJSON_ReplaceItemInArray :: "jheap \<Rightarrow> nat \<Rightarrow> int \<Rightarrow> nat \<Rightarrow> jheap run option" where
  "cJSON_ReplaceItemInArray h array which newitem =
     lbind (Some (run_bind (nd h array) (\<lambda>an.
       run_bind (nth_node (nat which) h (jn_child an)) (\<lambda>c.
         case c of None \<Rightarrow> Inr (None, h)
         | Some c \<Rightarrow>
             run_bind (nd h c) (\<lambda>n.
             run_bind (upd h newitem (\<lambda>m. m\<lparr>jn_next := jn_next n, jn_prev := jn_prev n\<rparr>)) (\<lambda>h.
             run_bind (upd_opt h (jn_next n) (\<lambda>m. m\<lparr>jn_prev := Some newitem\<rparr>)) (\<lambda>h.
             run_bind (if jn_child an = Some c then upd h array (\<lambda>m. m\<lparr>jn_child := Some newitem\<rparr>)
                       else case jn_prev n of None \<Rightarrow> Inl NullDeref | Some p \<Rightarrow> upd h p (\<lambda>m. m\<lparr>jn_next := Some newitem\<rparr>)) (\<lambda>h.
             run_bind (upd h c (\<lambda>m. m\<lparr>jn_next := None, jn_prev := None\<rparr>)) (\<lambda>h. Inr (Some c, h)))))))))) (\<lambda>(c, h). cJSON_Delete h c)"

definition cJSON_ReplaceItemInObject :: "(string \<Rightarrow> string option) \<Rightarrow> jheap \<Rightarrow> nat \<Rightarrow> string \<Rightarrow> nat \<Rightarrow> jheap run option" where
  "cJSON_ReplaceItemInObject dup h object s newitem =
     lbind (Some (nd h object)) (\<lambda>n.
     lbind (find_name h (jn_child n) s 0) (\<lambda>(c, i).
       if c \<noteq> None then
         lbind (Some (upd h newitem (\<lambda>m. m\<lparr>jn_name := dup s\<rparr>))) (\<lambda>h. cJSON_ReplaceItemInArray h object (int i) newitem)
       else Some (Inr h)))"

section \<open>Chains\<close>

text \<open>
  The nodes \<open>xs\<close> from \<open>p\<close> on, linked in both directions and followed by \<open>q\<close>; \<open>pv\<close> is what \<open>prev\<close> of the
  first one holds.
\<close>

fun lseg :: "jheap \<Rightarrow> nat option \<Rightarrow> nat option \<Rightarrow> nat list \<Rightarrow> nat option \<Rightarrow> bool" where
  "lseg h pv p [] q \<longleftrightarrow> p = q"
| "lseg h pv p (x # xs) q \<longleftrightarrow> p = Some x \<and> (\<exists>n. h x = Some n \<and> jn_prev n = pv \<and> lseg h (Some x) (jn_next n) xs q)"

definition end_of :: "nat option \<Rightarrow> nat list \<Rightarrow> nat option" where
  "end_of pv xs = (if xs = [] then pv else Some (last xs))"

lemma end_of_simps [simp]: "end_of pv [] = pv" "end_of pv (x # xs) = end_of (Some x) xs" "end_of pv (xs @ [x]) = Some x"
  by (auto simp: end_of_def)

lemma lseg_append: "lseg h pv p (xs @ ys) q \<longleftrightarrow> (\<exists>m. lseg h pv p xs m \<and> lseg h (end_of pv xs) m ys q)"
  by (induction xs arbitrary: pv p) auto

lemma lseg_frame [simp]: "a \<notin> set xs \<Longrightarrow> lseg (h(a := v)) pv p xs q \<longleftrightarrow> lseg h pv p xs q"
  by (induction xs arbitrary: pv p) auto

text \<open>The array at \<open>a\<close> has the items \<open>xs\<close>.\<close>

definition items :: "jheap \<Rightarrow> nat \<Rightarrow> nat list \<Rightarrow> bool" where
  "items h a xs \<longleftrightarrow> distinct (a # xs) \<and> (\<exists>n. h a = Some n \<and> lseg h None (jn_child n) xs None)"

lemma itemsE:
  assumes "items h a xs"
  obtains n where "h a = Some n" "lseg h None (jn_child n) xs None" "distinct xs" "a \<notin> set xs"
  using assms by (auto simp: items_def)

lemma last_node_seg: "lseg h pv (Some x) (x # xs) None \<Longrightarrow> last_node h x = Some (Inr (last (x # xs)))"
proof (induction xs arbitrary: pv x)
  case Nil
  then show ?case by (subst last_node.simps) auto
next
  case (Cons y ys)
  then obtain n where n: "h x = Some n" "jn_next n = Some y" "lseg h (Some x) (Some y) (y # ys) None" by auto
  with Cons.IH [OF n(3)] show ?case by (subst last_node.simps) simp
qed

lemma count_nodes_seg: "lseg h pv p xs None \<Longrightarrow> count_nodes h p i = Some (Inr (i + length xs))"
proof (induction xs arbitrary: pv p i)
  case Nil
  then show ?case by (subst count_nodes.simps) simp
next
  case (Cons x xs)
  then show ?case by (subst count_nodes.simps) auto
qed

lemma nth_node_seg:
  "lseg h pv p xs None \<Longrightarrow> nth_node k h p = Inr (if k < length xs then Some (xs ! k) else None)"
proof (induction k arbitrary: pv p xs)
  case 0
  then show ?case by (cases xs) auto
next
  case (Suc k)
  show ?case
  proof (cases xs)
    case Nil
    with Suc.prems show ?thesis by simp
  next
    case (Cons x ys)
    with Suc.prems obtain n where n: "p = Some x" "h x = Some n" "lseg h (Some x) (jn_next n) ys None" by auto
    with Suc.IH [OF n(3)] Cons show ?thesis by simp
  qed
qed

text \<open>The list operations.\<close>

lemma cJSON_GetArraySize_items: "items h a xs \<Longrightarrow> cJSON_GetArraySize h a = Some (Inr (length xs))"
  by (elim itemsE) (simp add: cJSON_GetArraySize_def count_nodes_seg)

lemma cJSON_GetArrayItem_items: "items h a xs \<Longrightarrow> cJSON_GetArrayItem h a i = Inr (if nat i < length xs then Some (xs ! nat i) else None)"
  by (elim itemsE) (simp add: cJSON_GetArrayItem_def nth_node_seg)

lemma lseg_set_next:
  assumes "lseg h pv p (xs @ [l]) q" "distinct (xs @ [l])" "h l = Some n"
  shows "lseg (h(l \<mapsto> n\<lparr>jn_next := q'\<rparr>)) pv p (xs @ [l]) q'"
  using assms by (auto simp: lseg_append)

lemma lseg_set_prev:
  assumes "lseg h pv p (x # xs) q" "distinct (x # xs)" "h x = Some n"
  shows "lseg (h(x \<mapsto> n\<lparr>jn_prev := pv'\<rparr>)) pv' p (x # xs) q"
  using assms by auto

lemma cJSON_AddItemToArray_items:
  assumes "items h a xs" "h i = Some n" "jn_next n = None" "jn_prev n = None" "i \<noteq> a" "i \<notin> set xs"
  shows "\<exists>h'. cJSON_AddItemToArray h a (Some i) = Some (Inr h') \<and> items h' a (xs @ [i])"
proof -
  from assms(1) obtain an where a: "h a = Some an" "lseg h None (jn_child an) xs None" "distinct xs" "a \<notin> set xs" by (rule itemsE)
  show ?thesis
  proof (cases xs rule: rev_cases)
    case Nil
    then have c: "jn_child an = None" using a(2) by simp
    have "items (h(a \<mapsto> an\<lparr>jn_child := Some i\<rparr>)) a [i]" using assms by (auto simp: items_def)
    with a c Nil show ?thesis by (simp add: cJSON_AddItemToArray_def)
  next
    case (snoc ys l)
    then have "xs \<noteq> []" by simp
    then obtain x zs where xz: "xs = x # zs" by (meson neq_Nil_conv)
    then have c: "jn_child an = Some x" using a(2) by simp
    from a(2) [unfolded snoc lseg_append] obtain ln where l: "h l = Some ln" "jn_next ln = None" by auto
    have last: "last_node h x = Some (Inr l)" using last_node_seg [of h None x zs] a(2) c xz snoc by (metis last_snoc)
    have il: "i \<noteq> l" "l \<noteq> a" using assms(6) a(4) snoc by auto
    let ?h = "h(l \<mapsto> ln\<lparr>jn_next := Some i\<rparr>, i \<mapsto> n\<lparr>jn_prev := Some l\<rparr>)"
    have run: "cJSON_AddItemToArray h a (Some i) = Some (Inr ?h)"
      using a(1) c last l(1) assms(2) il by (simp add: cJSON_AddItemToArray_def suffix_object_def)
    have "lseg (h(l \<mapsto> ln\<lparr>jn_next := Some i\<rparr>)) None (jn_child an) (ys @ [l]) (Some i)"
      by (rule lseg_set_next) (use a(2,3) l(1) snoc in simp_all)
    then have "lseg ?h None (jn_child an) (ys @ [l]) (Some i)" using assms(6) snoc by simp
    moreover have "lseg ?h (Some l) (Some i) [i] None" using assms(3) by simp
    ultimately have "lseg ?h None (jn_child an) (xs @ [i]) None" unfolding snoc lseg_append [of _ _ _ "ys @ [l]"] by auto
    with a assms il have "items ?h a (xs @ [i])" by (auto simp: items_def)
    with run show ?thesis by blast
  qed
qed

lemma lseg_same: "(\<And>x. x \<in> set xs \<Longrightarrow> h' x = h x) \<Longrightarrow> lseg h' pv p xs q \<longleftrightarrow> lseg h pv p xs q"
  by (induction xs arbitrary: pv p) auto

text \<open>Setting \<open>next\<close> of the last node of the part before, and \<open>prev\<close> of the first node of the part behind.\<close>

lemma seg_retarget:
  assumes "lseg h None p xs m" "distinct xs"
  shows "\<exists>h'. upd_opt h (end_of None xs) (\<lambda>n. n\<lparr>jn_next := q\<rparr>) = Inr h' \<and> lseg h' None (if xs = [] then q else p) xs q \<and> (\<forall>x. x \<notin> set xs \<longrightarrow> h' x = h x)"
proof (cases xs rule: rev_cases)
  case Nil
  with assms show ?thesis by (simp add: upd_opt_def)
next
  case (snoc ys l)
  with assms(1) obtain ln where l: "h l = Some ln" by (auto simp: lseg_append)
  have "lseg (h(l \<mapsto> ln\<lparr>jn_next := q\<rparr>)) None p (ys @ [l]) q" by (rule lseg_set_next) (use assms l snoc in auto)
  with l snoc show ?thesis by (auto simp: upd_opt_def)
qed

lemma seg_reprev:
  assumes "lseg h pv q xs None" "distinct xs"
  shows "\<exists>h'. upd_opt h q (\<lambda>n. n\<lparr>jn_prev := pv'\<rparr>) = Inr h' \<and> lseg h' pv' q xs None \<and> (\<forall>x. x \<notin> set xs \<longrightarrow> h' x = h x)"
proof (cases xs)
  case Nil
  with assms show ?thesis by (simp add: upd_opt_def)
next
  case (Cons x ys)
  with assms(1) obtain n where n: "q = Some x" "h x = Some n" by auto
  have "lseg (h(x \<mapsto> n\<lparr>jn_prev := pv'\<rparr>)) pv' q (x # ys) None" by (rule lseg_set_prev) (use assms n Cons in auto)
  with n Cons show ?thesis by (auto simp: upd_opt_def)
qed

text \<open>The node at position \<open>length xs\<close> of a chain.\<close>

lemma lseg_split:
  assumes "lseg h None p (xs @ c # ys) None"
  obtains n where "h c = Some n" "jn_prev n = end_of None xs" "lseg h None p xs (Some c)" "lseg h (Some c) (jn_next n) ys None"
    "nth_node (length xs) h p = Inr (Some c)"
  using assms nth_node_seg [OF assms, of "length xs"] by (auto simp: lseg_append)

lemma cJSON_Detach_items:
  assumes "items h a (xs @ c # ys)"
  shows "\<exists>h' n. cJSON_DetachItemFromArray h a (int (length xs)) = Inr (Some c, h') \<and> items h' a (xs @ ys) \<and> h c = Some n \<and>
    h' c = Some (n\<lparr>jn_next := None, jn_prev := None\<rparr>) \<and> (\<forall>x. x \<notin> set (a # xs @ c # ys) \<longrightarrow> h' x = h x)"
proof -
  from assms obtain an where a: "h a = Some an" "lseg h None (jn_child an) (xs @ c # ys) None" "distinct (xs @ c # ys)" "a \<notin> set (xs @ c # ys)" by (rule itemsE)
  from a(2) obtain n where n: "h c = Some n" "jn_prev n = end_of None xs" "lseg h None (jn_child an) xs (Some c)" "lseg h (Some c) (jn_next n) ys None"
    "nth_node (length xs) h (jn_child an) = Inr (Some c)" by (rule lseg_split)
  from seg_retarget [OF n(3), of "jn_next n"] a(3) obtain h1 where
    h1: "upd_opt h (jn_prev n) (\<lambda>m. m\<lparr>jn_next := jn_next n\<rparr>) = Inr h1" "lseg h1 None (if xs = [] then jn_next n else jn_child an) xs (jn_next n)"
      "\<And>x. x \<notin> set xs \<Longrightarrow> h1 x = h x" unfolding n(2) by auto
  have e1: "h1 x = h x" if "x \<in> set ys" for x using h1(3) a(3) that by auto
  have "lseg h1 (Some c) (jn_next n) ys None" using n(4) lseg_same [of ys h1 h, OF e1] by simp
  from seg_reprev [OF this, of "jn_prev n"] a(3) obtain h2 where
    h2: "upd_opt h1 (jn_next n) (\<lambda>m. m\<lparr>jn_prev := jn_prev n\<rparr>) = Inr h2" "lseg h2 (end_of None xs) (jn_next n) ys None" "\<And>x. x \<notin> set ys \<Longrightarrow> h2 x = h1 x"
    unfolding n(2) by auto
  have e2: "h2 x = h1 x" if "x \<in> set xs" for x using h2(3) a(3) that by auto
  have s2: "lseg h2 None (if xs = [] then jn_next n else jn_child an) (xs @ ys) None"
    using h1(2) h2(2) lseg_same [of xs h2 h1, OF e2] by (auto simp: lseg_append)
  have same: "h2 x = h x" if "x \<notin> set xs \<union> set ys" for x using h1(3) h2(3) that by simp
  have out: "h2 a = Some an" "h2 c = Some n" using same [of a] same [of c] a n(1) by auto
  have first: "jn_child an = Some c \<longleftrightarrow> xs = []" using n(3) a(3) by (cases xs) auto
  define h3 where "h3 = (if xs = [] then h2(a \<mapsto> an\<lparr>jn_child := jn_next n\<rparr>) else h2)"
  have r3: "(if jn_child an = Some c then upd h2 a (\<lambda>m. m\<lparr>jn_child := jn_next n\<rparr>) else Inr h2) = Inr h3" using first out by (simp add: h3_def)
  have c3: "h3 c = Some n" using out a(4) by (simp add: h3_def)
  let ?h = "h3(c \<mapsto> n\<lparr>jn_prev := None, jn_next := None\<rparr>)"
  have run: "cJSON_DetachItemFromArray h a (int (length xs)) = Inr (Some c, ?h)"
    unfolding cJSON_DetachItemFromArray_def using a(1) n(1,5) h1(1) h2(1) r3 c3 by simp
  have "items ?h a (xs @ ys)" using s2 out a(3,4) by (auto simp: items_def h3_def)
  with run n(1) same show ?thesis by (auto simp: h3_def)
qed

section \<open>Release\<close>

text \<open>A tree of nodes: address, whether it is a reference, and the children it owns.\<close>

datatype jshape = Sh nat bool "jshape list"

fun forest :: "jheap \<Rightarrow> nat option \<Rightarrow> jshape list \<Rightarrow> bool" where
  "forest h p [] \<longleftrightarrow> p = None"
| "forest h p (Sh a r ts # us) \<longleftrightarrow> p = Some a \<and>
     (\<exists>n. h a = Some n \<and> (r \<longleftrightarrow> is_ref n) \<and> (if r then ts = [] else forest h (jn_child n) ts) \<and> forest h (jn_next n) us)"

fun addrs :: "jshape list \<Rightarrow> nat list" where
  "addrs [] = []"
| "addrs (Sh a r ts # us) = a # addrs ts @ addrs us"

lemma forest_same: "(\<And>x. x \<in> set (addrs ts) \<Longrightarrow> h' x = h x) \<Longrightarrow> forest h' p ts \<longleftrightarrow> forest h p ts"
  by (induction h p ts rule: forest.induct) auto

definition free_nodes :: "nat set \<Rightarrow> jheap \<Rightarrow> jheap" where
  "free_nodes A h = (\<lambda>x. if x \<in> A then None else h x)"

lemma cJSON_Delete_forest:
  "forest h p ts \<Longrightarrow> distinct (addrs ts) \<Longrightarrow> cJSON_Delete h p = Some (Inr (free_nodes (set (addrs ts)) h))"
proof (induction ts arbitrary: h p rule: addrs.induct)
  case 1
  then show ?case by (subst cJSON_Delete.simps) (simp add: free_nodes_def)
next
  case (2 a r ts us)
  then obtain n where n: "p = Some a" "h a = Some n" "r \<longleftrightarrow> is_ref n" "if r then ts = [] else forest h (jn_child n) ts" "forest h (jn_next n) us" by auto
  have d: "distinct (addrs ts)" "distinct (addrs us)" "a \<notin> set (addrs ts)" "a \<notin> set (addrs us)" "set (addrs ts) \<inter> set (addrs us) = {}"
    using "2.prems"(2) by auto
  let ?h = "free_nodes (set (addrs ts)) h"
  have "ts = []" if "jn_child n = None" "\<not> r" using n(4) that by (cases ts rule: addrs.cases) auto
  then have c: "(if \<not> is_ref n \<and> jn_child n \<noteq> None then cJSON_Delete h (jn_child n) else Some (Inr h)) = Some (Inr ?h)"
    using n(3,4) "2.IH"(1) [OF _ d(1)] by (auto simp: free_nodes_def)
  have "(?h(a := None)) x = h x" if "x \<in> set (addrs us)" for x using d(4,5) that by (auto simp: free_nodes_def)
  from forest_same [of us "?h(a := None)" h, OF this] n(5) have "forest (?h(a := None)) (jn_next n) us" by simp
  from "2.IH"(2) [OF this d(2)] have "cJSON_Delete (?h(a := None)) (jn_next n) = Some (Inr (free_nodes (set (addrs us)) (?h(a := None))))" .
  moreover have "free_nodes (set (addrs us)) (?h(a := None)) = free_nodes (set (addrs (Sh a r ts # us))) h" by (auto simp: free_nodes_def)
  moreover have "?h a \<noteq> None" using n(2) d(3) by (simp add: free_nodes_def)
  ultimately show ?case using n(1,2) c by (subst cJSON_Delete.simps) simp
qed

text \<open>The pointer assignments of a replacement put the new node in the place of the old one.\<close>

lemma replace_links:
  assumes "h a = Some an" "lseg h None (jn_child an) (xs @ c # ys) None" "distinct (xs @ c # ys)" "a \<notin> set (xs @ c # ys)"
    and "h c = Some n" "h w = Some wn" "w \<notin> set (a # xs @ c # ys)"
  shows "\<exists>h1 h2 h3. upd h w (\<lambda>m. m\<lparr>jn_next := jn_next n, jn_prev := jn_prev n\<rparr>) = Inr h1 \<and>
    upd_opt h1 (jn_next n) (\<lambda>m. m\<lparr>jn_prev := Some w\<rparr>) = Inr h2 \<and>
    (if jn_child an = Some c then upd h2 a (\<lambda>m. m\<lparr>jn_child := Some w\<rparr>)
     else case jn_prev n of None \<Rightarrow> Inl NullDeref | Some p \<Rightarrow> upd h2 p (\<lambda>m. m\<lparr>jn_next := Some w\<rparr>)) = Inr h3 \<and>
    items h3 a (xs @ w # ys) \<and> (\<forall>x. x \<notin> set (a # w # xs @ ys) \<longrightarrow> h3 x = h x)"
proof -
  from assms(2) obtain n' where "h c = Some n'" "jn_prev n' = end_of None xs" "lseg h None (jn_child an) xs (Some c)" "lseg h (Some c) (jn_next n') ys None"
    by (rule lseg_split)
  with assms(5) have n: "jn_prev n = end_of None xs" "lseg h None (jn_child an) xs (Some c)" "lseg h (Some c) (jn_next n) ys None" by simp_all
  let ?wn = "wn\<lparr>jn_next := jn_next n, jn_prev := jn_prev n\<rparr>"
  let ?h1 = "h(w \<mapsto> ?wn)"
  have "lseg ?h1 (Some c) (jn_next n) ys None" using n(3) assms(7) by simp
  from seg_reprev [OF this, of "Some w"] assms(3) obtain h2 where
    h2: "upd_opt ?h1 (jn_next n) (\<lambda>m. m\<lparr>jn_prev := Some w\<rparr>) = Inr h2" "lseg h2 (Some w) (jn_next n) ys None" "\<And>x. x \<notin> set ys \<Longrightarrow> h2 x = ?h1 x" by auto
  have w2: "h2 w = Some ?wn" "h2 a = Some an" using h2(3) [of w] h2(3) [of a] assms(1,4,7) by auto
  have e: "h2 x = h x" if "x \<in> set xs" for x
  proof -
    have "x \<notin> set ys" "x \<noteq> w" using that assms(3,7) by auto
    then show ?thesis using h2(3) [of x] by simp
  qed
  have "lseg h2 None (jn_child an) xs (Some c)" using n(2) lseg_same [of xs h2 h, OF e] by simp
  from seg_retarget [OF this, of "Some w"] assms(3) obtain h3 where
    h3: "upd_opt h2 (end_of None xs) (\<lambda>m. m\<lparr>jn_next := Some w\<rparr>) = Inr h3" "lseg h3 None (if xs = [] then Some w else jn_child an) xs (Some w)"
      "\<And>x. x \<notin> set xs \<Longrightarrow> h3 x = h2 x" by auto
  have e3: "h3 x = h2 x" if "x \<in> set (w # ys)" for x
  proof -
    have "x \<notin> set xs" using that assms(3,7) by auto
    then show ?thesis by (rule h3(3))
  qed
  have "lseg h2 (end_of None xs) (Some w) (w # ys) None" using w2 h2(2) n(1) by simp
  then have s3: "lseg h3 None (if xs = [] then Some w else jn_child an) (xs @ w # ys) None"
    using h3(2) lseg_same [of "w # ys" h3 h2, OF e3] by (auto simp: lseg_append simp del: lseg.simps)
  have out: "h3 a = Some an" "\<And>x. x \<notin> set (w # xs @ ys) \<Longrightarrow> h3 x = h x" using h3(3) h2(3) assms(4) w2 by auto
  have first: "jn_child an = Some c \<longleftrightarrow> xs = []" using n(2) assms(3) by (cases xs) auto
  let ?h4 = "if xs = [] then h3(a \<mapsto> an\<lparr>jn_child := Some w\<rparr>) else h3"
  have "xs = [] \<Longrightarrow> h3 = h2" using h3(1) by (simp add: upd_opt_def)
  then have "(if jn_child an = Some c then upd h2 a (\<lambda>m. m\<lparr>jn_child := Some w\<rparr>)
     else case jn_prev n of None \<Rightarrow> Inl NullDeref | Some p \<Rightarrow> upd h2 p (\<lambda>m. m\<lparr>jn_next := Some w\<rparr>)) = Inr ?h4"
    using first n(1) w2(2) h3(1) by (auto simp: end_of_def upd_opt_def split: if_splits)
  moreover have "items ?h4 a (xs @ w # ys)" using s3 out(1) assms(3,4,7) by (auto simp: items_def)
  moreover have "upd h w (\<lambda>m. m\<lparr>jn_next := jn_next n, jn_prev := jn_prev n\<rparr>) = Inr ?h1" using assms(6) by simp
  ultimately show ?thesis using h2(1) out(2) by (intro exI conjI) auto
qed

lemma items_same: "items h a xs \<Longrightarrow> (\<And>x. x \<in> set (a # xs) \<Longrightarrow> h' x = h x) \<Longrightarrow> items h' a xs"
  using lseg_same [of xs h' h] by (auto simp: items_def)

lemma is_ref_links [simp]: "is_ref (n\<lparr>jn_next := p, jn_prev := q\<rparr>) = is_ref n"
  by (simp add: is_ref_def)

lemma cJSON_Replace_items:
  assumes "items h a (xs @ c # ys)" "h c = Some n" "h w = Some wn" "w \<notin> set (a # xs @ c # ys)"
    and "if is_ref n then ts = [] else forest h (jn_child n) ts" "distinct (addrs ts)" "set (addrs ts) \<inter> set (a # w # xs @ c # ys) = {}"
  shows "\<exists>h'. cJSON_ReplaceItemInArray h a (int (length xs)) w = Some (Inr h') \<and> items h' a (xs @ w # ys) \<and> h' c = None"
proof -
  from assms(1) obtain an where a: "h a = Some an" "lseg h None (jn_child an) (xs @ c # ys) None" "distinct (xs @ c # ys)" "a \<notin> set (xs @ c # ys)" by (rule itemsE)
  from replace_links [OF a assms(2-4)] obtain h1 h2 h3 where
    u: "upd h w (\<lambda>m. m\<lparr>jn_next := jn_next n, jn_prev := jn_prev n\<rparr>) = Inr h1" "upd_opt h1 (jn_next n) (\<lambda>m. m\<lparr>jn_prev := Some w\<rparr>) = Inr h2"
      "(if jn_child an = Some c then upd h2 a (\<lambda>m. m\<lparr>jn_child := Some w\<rparr>)
        else case jn_prev n of None \<Rightarrow> Inl NullDeref | Some p \<Rightarrow> upd h2 p (\<lambda>m. m\<lparr>jn_next := Some w\<rparr>)) = Inr h3"
    and i: "items h3 a (xs @ w # ys)" and same: "\<And>x. x \<notin> set (a # w # xs @ ys) \<Longrightarrow> h3 x = h x" by blast
  from a(2) have nth: "nth_node (length xs) h (jn_child an) = Inr (Some c)" by (rule lseg_split)
  have c3: "h3 c = Some n" using same [of c] a(3,4) assms(2,4) by auto
  let ?n = "n\<lparr>jn_next := None, jn_prev := None\<rparr>"
  let ?h = "h3(c \<mapsto> ?n)"
  have "?h x = h x" if "x \<in> set (addrs ts)" for x using same [of x] assms(7) that by auto
  then have "forest ?h (Some c) [Sh c (is_ref n) ts]" using assms(5) forest_same [of ts ?h h] by auto
  moreover have "distinct (addrs [Sh c (is_ref n) ts])" using assms(6,7) by auto
  ultimately have del: "cJSON_Delete ?h (Some c) = Some (Inr (free_nodes (set (c # addrs ts)) ?h))" using cJSON_Delete_forest by fastforce
  have "items (free_nodes (set (c # addrs ts)) ?h) a (xs @ w # ys)"
    by (rule items_same [OF i]) (use a(3,4) assms(4,7) in \<open>auto simp: free_nodes_def\<close>)
  moreover have "cJSON_ReplaceItemInArray h a (int (length xs)) w = Some (Inr (free_nodes (set (c # addrs ts)) ?h))"
    unfolding cJSON_ReplaceItemInArray_def using a(1) nth assms(2) u c3 del by simp
  ultimately show ?thesis by (auto simp: free_nodes_def)
qed

section \<open>Names\<close>

lemma tolower_NUL: "tolower c = tolower NUL \<longleftrightarrow> c = NUL"
proof
  assume "tolower c = tolower NUL"
  then have "(of_char c :: nat) = of_char NUL" by (auto simp: tolower_def Let_def split: if_splits)
  then show "c = NUL" by (simp only: of_char_eq_iff)
qed simp

lemma strcase_loop_zero:
  "no_nul a \<Longrightarrow> no_nul b \<Longrightarrow> \<exists>d. strcase_loop (cstr a) (cstr b) = Inr d \<and> (d = 0 \<longleftrightarrow> map tolower a = map tolower b)"
proof (induction a arbitrary: b)
  case Nil
  show ?case
  proof (cases b)
    case (Cons y b')
    with Nil tolower_NUL [of y] show ?thesis by (simp add: cstr_def)
  qed (simp add: cstr_def)
next
  case (Cons x a)
  show ?case
  proof (cases b)
    case Nil
    with Cons.prems show ?thesis using tolower_NUL [of x] by (simp add: cstr_def)
  next
    case b: (Cons y b')
    with Cons.IH [of b'] Cons.prems show ?thesis by (auto simp: cstr_def)
  qed
qed

lemma strcasecmp_zero:
  assumes "\<And>t. nm = Some t \<Longrightarrow> no_nul t" "no_nul s"
  shows "\<exists>d. cJSON_strcasecmp nm (Some s) = Inr d \<and> (d = 0 \<longleftrightarrow> map_option (map tolower) nm = Some (map tolower s))"
  using strcase_loop_zero [OF _ assms(2)] assms(1) by (cases nm) (auto simp: cJSON_strcasecmp_def)

definition named :: "jheap \<Rightarrow> string \<Rightarrow> nat \<Rightarrow> bool" where
  "named h s x \<longleftrightarrow> (\<exists>n t. h x = Some n \<and> jn_name n = Some t \<and> map tolower t = map tolower s)"

lemma find_name_seg:
  assumes "no_nul s"
  shows "lseg h pv p xs None \<Longrightarrow> (\<And>x n t. x \<in> set xs \<Longrightarrow> h x = Some n \<Longrightarrow> jn_name n = Some t \<Longrightarrow> no_nul t) \<Longrightarrow>
    \<exists>i. find_name h p s k = Some (Inr (List.find (named h s) xs, i))"
proof (induction xs arbitrary: pv p k)
  case Nil
  then show ?case by (subst find_name.simps) simp
next
  case (Cons x xs)
  from Cons.prems(1) obtain n where n: "p = Some x" "h x = Some n" "lseg h (Some x) (jn_next n) xs None" by auto
  from strcasecmp_zero [of "jn_name n", OF _ assms] Cons.prems(2) [of x n] n(2) obtain d where
    d: "cJSON_strcasecmp (jn_name n) (Some s) = Inr d" "d = 0 \<longleftrightarrow> map_option (map tolower) (jn_name n) = Some (map tolower s)" by auto
  have "d = 0 \<longleftrightarrow> named h s x" using d(2) n(2) by (auto simp: named_def)
  moreover have "\<exists>i. find_name h (jn_next n) s (Suc k) = Some (Inr (List.find (named h s) xs, i))"
    by (rule Cons.IH [OF n(3)]) (use Cons.prems(2) in auto)
  ultimately show ?case using n(1,2) d(1) by (subst find_name.simps) auto
qed

section \<open>Properties\<close>

text \<open>
  C16. The pointer operations on the children of an array implement a list: the size is its length, an
  index gives its element, adding a free node appends it, and detaching at a position removes that
  element, leaves the node unlinked and every node outside the array untouched. An index behind the
  end gives \<open>NULL\<close>, and a negative one the first element.
\<close>

theorem cJSON_items_list:
  assumes "items h a xs"
  shows "cJSON_GetArraySize h a = Some (Inr (length xs)) \<and>
    cJSON_GetArrayItem h a k = Inr (if nat k < length xs then Some (xs ! nat k) else None) \<and>
    (\<forall>i n. h i = Some n \<and> jn_next n = None \<and> jn_prev n = None \<and> i \<notin> set (a # xs) \<longrightarrow>
       (\<exists>h'. cJSON_AddItemToArray h a (Some i) = Some (Inr h') \<and> items h' a (xs @ [i]))) \<and>
    (\<forall>j < length xs. \<exists>h' n. cJSON_DetachItemFromArray h a (int j) = Inr (Some (xs ! j), h') \<and>
       items h' a (take j xs @ drop (Suc j) xs) \<and> h' (xs ! j) = Some n \<and> jn_next n = None \<and> jn_prev n = None \<and>
       (\<forall>x. x \<notin> set (a # xs) \<longrightarrow> h' x = h x))"
proof (intro conjI allI impI)
  fix j
  assume j: "j < length xs"
  then have "items h a (take j xs @ xs ! j # drop (Suc j) xs)" using assms by (simp add: id_take_nth_drop [symmetric])
  from cJSON_Detach_items [OF this] j id_take_nth_drop [OF j, symmetric]
  show "\<exists>h' n. cJSON_DetachItemFromArray h a (int j) = Inr (Some (xs ! j), h') \<and>
       items h' a (take j xs @ drop (Suc j) xs) \<and> h' (xs ! j) = Some n \<and> jn_next n = None \<and> jn_prev n = None \<and>
       (\<forall>x. x \<notin> set (a # xs) \<longrightarrow> h' x = h x)" by fastforce
qed (use assms cJSON_GetArraySize_items cJSON_GetArrayItem_items cJSON_AddItemToArray_items in auto)

theorem cJSON_items_list_witness:
  "cJSON_GetArraySize [1 \<mapsto> zero_node\<lparr>jn_child := Some 2\<rparr>, 2 \<mapsto> zero_node] 1 = Some (Inr 1) \<and>
   (\<exists>h' n. cJSON_DetachItemFromArray [1 \<mapsto> zero_node\<lparr>jn_child := Some 2\<rparr>, 2 \<mapsto> zero_node] 1 (int 0) = Inr (Some 2, h') \<and> items h' 1 [] \<and> h' 2 = Some n)"
proof -
  have "items [1 \<mapsto> zero_node\<lparr>jn_child := Some 2\<rparr>, 2 \<mapsto> zero_node] 1 [2]" by (simp add: items_def zero_node_def)
  from cJSON_items_list [OF this, of 0] show ?thesis by (auto simp: less_Suc_eq)
qed

text \<open>
  C17. \<open>cJSON_Delete\<close> returns for every tree and frees each of its nodes exactly once: the nodes of the
  chain and of the children they own, but not what a reference shares. No other node changes.
\<close>

theorem cJSON_Delete_frees:
  assumes "forest h p ts" "distinct (addrs ts)"
  shows "cJSON_Delete h p = Some (Inr (\<lambda>x. if x \<in> set (addrs ts) then None else h x))"
  using cJSON_Delete_forest [OF assms] by (simp add: free_nodes_def)

theorem cJSON_Delete_frees_witness:
  "cJSON_Delete [1 \<mapsto> zero_node\<lparr>jn_child := Some 2\<rparr>, 2 \<mapsto> zero_node\<lparr>jn_next := Some 3\<rparr>, 3 \<mapsto> zero_node\<lparr>jn_type := 256, jn_child := Some 4\<rparr>, 4 \<mapsto> zero_node] (Some 1) =
    Some (Inr (\<lambda>x. if x \<in> set (addrs [Sh 1 False [Sh 2 False [], Sh 3 True []]]) then None
      else [1 \<mapsto> zero_node\<lparr>jn_child := Some 2\<rparr>, 2 \<mapsto> zero_node\<lparr>jn_next := Some 3\<rparr>, 3 \<mapsto> zero_node\<lparr>jn_type := 256, jn_child := Some 4\<rparr>, 4 \<mapsto> zero_node] x))"
  by (rule cJSON_Delete_frees) (simp_all add: zero_node_def is_ref_def cJSON_IsReference_def)

text \<open>
  C18. Replacing the item at a position puts the new node in its place, with both links right, and
  frees the old item with everything it owns.
\<close>

theorem cJSON_Replace_list:
  assumes "items h a (xs @ c # ys)" "h c = Some n" "h w = Some wn" "w \<notin> set (a # xs @ c # ys)"
    and "if is_ref n then ts = [] else forest h (jn_child n) ts" "distinct (addrs ts)" "set (addrs ts) \<inter> set (a # w # xs @ c # ys) = {}"
  shows "\<exists>h'. cJSON_ReplaceItemInArray h a (int (length xs)) w = Some (Inr h') \<and> items h' a (xs @ w # ys) \<and> h' c = None"
  using assms by (rule cJSON_Replace_items)

theorem cJSON_Replace_list_witness:
  "\<exists>h'. cJSON_ReplaceItemInArray [1 \<mapsto> zero_node\<lparr>jn_child := Some 2\<rparr>, 2 \<mapsto> zero_node, 3 \<mapsto> zero_node] 1 0 3 = Some (Inr h') \<and> items h' 1 [3] \<and> h' 2 = None"
proof -
  let ?h = "[1 \<mapsto> zero_node\<lparr>jn_child := Some 2\<rparr>, 2 \<mapsto> zero_node, 3 \<mapsto> zero_node] :: jheap"
  have "items ?h 1 ([] @ 2 # [])" by (simp add: items_def zero_node_def)
  from cJSON_Replace_list [OF this, of zero_node 3 zero_node "[]"] show ?thesis by (simp add: zero_node_def is_ref_def)
qed

text \<open>
  C34. The lookup of a member by name gives the first child whose name is the same up to the case of
  letters, and \<open>NULL\<close> if there is none; children without a name are passed over.
\<close>

theorem cJSON_GetObjectItem_first:
  assumes "items h a xs" "no_nul s" "\<And>x n t. x \<in> set xs \<Longrightarrow> h x = Some n \<Longrightarrow> jn_name n = Some t \<Longrightarrow> no_nul t"
  shows "cJSON_GetObjectItem h a s = Some (Inr (List.find (named h s) xs))"
proof -
  from assms(1) obtain n where n: "h a = Some n" "lseg h None (jn_child n) xs None" by (rule itemsE)
  have "\<exists>i. find_name h (jn_child n) s 0 = Some (Inr (List.find (named h s) xs, i))"
    by (rule find_name_seg [OF assms(2) n(2)]) (rule assms(3))
  then obtain i where "find_name h (jn_child n) s 0 = Some (Inr (List.find (named h s) xs, i))" by blast
  with n(1) show ?thesis by (simp add: cJSON_GetObjectItem_def)
qed

theorem cJSON_GetObjectItem_first_witness:
  "cJSON_GetObjectItem [1 \<mapsto> zero_node\<lparr>jn_child := Some 2\<rparr>, 2 \<mapsto> zero_node\<lparr>jn_name := Some ''Key''\<rparr>] 1 ''kEY'' = Some (Inr (Some 2))"
proof -
  let ?h = "[1 \<mapsto> zero_node\<lparr>jn_child := Some 2\<rparr>, 2 \<mapsto> zero_node\<lparr>jn_name := Some ''Key''\<rparr>] :: jheap"
  have "items ?h 1 [2]" by (simp add: items_def zero_node_def)
  then have "cJSON_GetObjectItem ?h 1 ''kEY'' = Some (Inr (List.find (named ?h ''kEY'') [2]))"
    by (rule cJSON_GetObjectItem_first) (auto simp: zero_node_def)
  then show ?thesis by (simp add: zero_node_def named_def tolower_def Let_def)
qed

end
