(* ===== verification/Duda_Cjson_Utf8.thy ===== *)
theory Duda_Cjson_Utf8
  imports Duda_Cjson_Text Duda_Bytes
begin

text \<open>
  The escapes \<open>\u\<close> of \<open>parse_string\<close> against the definition of UTF-8 and of UTF-16 surrogate pairs, and
  the texts \<open>print_number\<close> writes for large numbers.
\<close>

unbundle bit_operations_syntax

section \<open>UTF-8\<close>

text \<open>The UTF-8 encoding of a code point.\<close>

definition utf8 :: "nat \<Rightarrow> string" where
  "utf8 cp =
     map char_of
       (if cp < 0x80 then [cp]
        else if cp < 0x800 then [192 + cp div 64, 128 + cp mod 64]
        else if cp < 0x10000 then [224 + cp div 4096, 128 + cp div 64 mod 64, 128 + cp mod 64]
        else [240 + cp div 262144, 128 + cp div 4096 mod 64, 128 + cp div 64 mod 64, 128 + cp mod 64])"

lemma continuation_byte: "byte_of ((uc OR 0x80) AND 0xBF) = char_of (128 + unat uc mod 64)"
proof -
  have m: "(0xBF :: 32 word) = mask 6 OR push_bit 7 1" "(0x80 :: 32 word) = push_bit 7 1" by (simp_all add: mask_eq_exp_minus_1)
  have "(uc OR 0x80) AND 0xBF = push_bit 7 1 OR take_bit 6 uc"
    unfolding m by (rule bit_word_eqI) (auto simp: bit_or_iff bit_and_iff bit_take_bit_iff bit_mask_iff)
  moreover have "unat uc mod 64 < 2 ^ 7" by (rule less_trans [of _ 64]) simp_all
  then have "unat (push_bit 7 1 OR take_bit 6 uc) = 128 + unat uc mod 64"
    using unat_push_or_word [of "take_bit 6 uc" 7 1] by (simp add: unat_take)
  ultimately show ?thesis by (simp add: byte_of_def)
qed

text \<open>The marks of the first byte are multiples of 32, 16 and 8 above the bits that are left.\<close>

lemma leading_byte:
  assumes "unat (w :: 32 word) < 2 ^ k" "m * 2 ^ k < 256" "k \<le> 32" "mark = push_bit k (of_nat m)" "m < 256"
  shows "byte_of (w OR mark) = char_of (m * 2 ^ k + unat w)"
proof -
  have "m < 2 ^ 32" using assms(5) by simp
  then have m: "unat (of_nat m :: 32 word) = m" by (simp add: unsigned_of_nat take_bit_nat_eq_self_iff)
  have "unat (push_bit k (of_nat m) OR w) = m * 2 ^ k + unat w"
    using unat_push_or_word [of w k "of_nat m"] assms(1-3) m by simp
  then show ?thesis by (simp add: assms(4) byte_of_def or.commute)
qed

lemma firstByteMark_values:
  "firstByteMark 1 = 0" "firstByteMark 2 = push_bit 5 (of_nat 6)" "firstByteMark 3 = push_bit 4 (of_nat 14)" "firstByteMark 4 = push_bit 3 (of_nat 30)"
  by (simp_all add: firstByteMark_def)

lemma four: "(4 :: nat) = Suc (Suc (Suc (Suc 0)))"
  by simp

lemma utf8_write_bytes:
  "utf8_write len 1 uc [] = ([byte_of (uc OR firstByteMark len)], uc)"
  "utf8_write len 2 uc [] = ([byte_of (drop_bit 6 uc OR firstByteMark len), byte_of ((uc OR 0x80) AND 0xBF)], drop_bit 6 uc)"
  "utf8_write len 3 uc [] =
     ([byte_of (drop_bit 6 (drop_bit 6 uc) OR firstByteMark len), byte_of ((drop_bit 6 uc OR 0x80) AND 0xBF), byte_of ((uc OR 0x80) AND 0xBF)],
      drop_bit 6 (drop_bit 6 uc))"
  "utf8_write len 4 uc [] =
     ([byte_of (drop_bit 6 (drop_bit 6 (drop_bit 6 uc)) OR firstByteMark len), byte_of ((drop_bit 6 (drop_bit 6 uc) OR 0x80) AND 0xBF),
       byte_of ((drop_bit 6 uc OR 0x80) AND 0xBF), byte_of ((uc OR 0x80) AND 0xBF)], drop_bit 6 (drop_bit 6 (drop_bit 6 uc)))"
  by (simp_all only: One_nat_def numeral_2_eq_2 numeral_3_eq_3 four utf8_write.simps)

lemma utf8_write_utf8:
  assumes "unat uc < 0x200000"
  shows "fst (utf8_write (utf8_len uc) (utf8_len uc) uc []) = utf8 (unat uc)"
proof -
  have lt: "uc < 0x80 \<longleftrightarrow> unat uc < 0x80" "uc < 0x800 \<longleftrightarrow> unat uc < 0x800" "uc < 0x10000 \<longleftrightarrow> unat uc < 0x10000"
    by (simp_all add: word_less_nat_alt)
  have d: "unat (drop_bit 6 (drop_bit 6 uc)) = unat uc div 4096" "unat (drop_bit 6 (drop_bit 6 (drop_bit 6 uc))) = unat uc div 262144"
    "unat (drop_bit 6 uc) = unat uc div 64" by (simp_all add: unat_drop)
  consider (1) "unat uc < 0x80" | (2) "\<not> unat uc < 0x80" "unat uc < 0x800" | (3) "\<not> unat uc < 0x800" "unat uc < 0x10000" | (4) "\<not> unat uc < 0x10000" by linarith
  then show ?thesis
  proof cases
    case 1
    then have l: "utf8_len uc = 1" by (simp add: utf8_len_def lt)
    from 1 show ?thesis unfolding l utf8_write_bytes firstByteMark_values by (simp add: utf8_def byte_of_def)
  next
    case 2
    then have l: "utf8_len uc = 2" by (simp add: utf8_len_def lt)
    have "byte_of (drop_bit 6 uc OR firstByteMark 2) = char_of (6 * 2 ^ 5 + unat uc div 64)"
      unfolding d(3) [symmetric] by (rule leading_byte [OF _ _ _ firstByteMark_values(2)]) (use 2 in \<open>simp_all add: d less_mult_imp_div_less\<close>)
    with 2 show ?thesis unfolding l utf8_write_bytes continuation_byte by (simp add: utf8_def)
  next
    case 3
    then have l: "utf8_len uc = 3" by (simp add: utf8_len_def lt)
    have "byte_of (drop_bit 6 (drop_bit 6 uc) OR firstByteMark 3) = char_of (14 * 2 ^ 4 + unat uc div 4096)"
      unfolding d(1) [symmetric] by (rule leading_byte [OF _ _ _ firstByteMark_values(3)]) (use 3 in \<open>simp_all only: d, simp_all add: less_mult_imp_div_less\<close>)
    with 3 show ?thesis unfolding l utf8_write_bytes continuation_byte d by (simp add: utf8_def)
  next
    case 4
    then have l: "utf8_len uc = 4" by (simp add: utf8_len_def lt)
    have "byte_of (drop_bit 6 (drop_bit 6 (drop_bit 6 uc)) OR firstByteMark 4) = char_of (30 * 2 ^ 3 + unat uc div 262144)"
      unfolding d(2) [symmetric] by (rule leading_byte [OF _ _ _ firstByteMark_values(4)]) (use 4 assms in \<open>simp_all only: d, simp_all add: less_mult_imp_div_less\<close>)
    with 4 show ?thesis unfolding l utf8_write_bytes continuation_byte d by (simp add: utf8_def)
  qed
qed

section \<open>Surrogate pairs\<close>

lemma of_nat_unat32: "v < 65536 \<Longrightarrow> unat (of_nat v :: 32 word) = v"
  by (simp add: unsigned_of_nat take_bit_nat_eq_self_iff)

text \<open>The bit that the code sets with \<open>OR\<close> is lost when it is set already.\<close>

lemma or_bit16: "(65536 :: nat) OR x = (if even (x div 65536) then 65536 + x else x)"
proof -
  have "65536 OR x = set_bit 16 x" by (simp add: set_bit_eq_or or.commute)
  also have "\<dots> = x + of_bool (\<not> bit x 16) * 65536" by (simp add: set_bit_eq)
  finally show ?thesis by (simp add: bit_iff_odd)
qed

lemma pair_code:
  assumes "hi < 65536" "lo < 65536"
  shows "unat (0x10000 OR push_bit 10 (of_nat hi AND 0x3FF) OR (of_nat lo AND 0x3FF) :: 32 word) =
    (let x = hi mod 1024 * 1024 + lo mod 1024 in if even (x div 65536) then 65536 + x else x)"
proof -
  have m: "(0x3FF :: 32 word) = mask 10" by (simp add: mask_eq_exp_minus_1)
  have a: "unat (of_nat v AND 0x3FF :: 32 word) = v mod 1024" if "v < 65536" for v
    unfolding m take_bit_eq_mask [symmetric] unat_take by (simp add: of_nat_unat32 that)
  have l: "lo mod 1024 < 2 ^ 10" by simp
  have "hi mod 1024 * 1024 < 4294967296" using mod_less_divisor [of 1024 hi] by linarith
  then have "unat (push_bit 10 (of_nat hi AND 0x3FF) OR (of_nat lo AND 0x3FF) :: 32 word) = hi mod 1024 * 1024 + lo mod 1024"
    using unat_push_or_word [of "of_nat lo AND 0x3FF :: 32 word" 10 "of_nat hi AND 0x3FF"] l a [OF assms(1)] a [OF assms(2)] by simp
  then show ?thesis unfolding or.assoc unsigned_or_eq [of "0x10000 :: 32 word"] using or_bit16 by (simp add: Let_def)
qed

lemma utf8_write_result: "unat uc < 0x200000 \<Longrightarrow> \<exists>uc'. utf8_write (utf8_len uc) (utf8_len uc) uc [] = (utf8 (unat uc), uc')"
  using utf8_write_utf8 [of uc] by (cases "utf8_write (utf8_len uc) (utf8_len uc) uc []") auto

lemma parse_unicode_bmp:
  assumes "0 < v" "v < 65536" "v < 0xD800 \<or> 0xDFFF < v"
  shows "\<exists>uc'. parse_unicode uc uc2 (hex4 v @ r) = Inr (utf8 v, uc', uc2, 4)"
proof -
  let ?w = "of_nat v :: 32 word"
  have v: "unat ?w = v" by (rule of_nat_unat32 [OF assms(2)])
  from utf8_write_result [of ?w] assms(2) v obtain uc' where u: "utf8_write (utf8_len ?w) (utf8_len ?w) ?w [] = (utf8 v, uc')" by auto
  have "?w \<noteq> 0" "\<not> (0xDC00 \<le> ?w \<and> ?w \<le> 0xDFFF)" "\<not> (0xD800 \<le> ?w \<and> ?w \<le> 0xDBFF)"
    using assms v by (auto simp: word_le_nat_alt word_unat_eq_iff)
  then show ?thesis using u by (auto simp: parse_unicode_def sscanf_hex4 [OF assms(2)])
qed

text \<open>
  C35. A surrogate pair is decoded to the UTF-8 bytes of its code point when bit 6 of the first half is
  clear. When it is set, the code point is \<open>0x10000\<close> too low: the offset is added with \<open>OR\<close>.
\<close>

theorem parse_unicode_pair:
  assumes "0xD800 \<le> hi" "hi \<le> 0xDBFF" "0xDC00 \<le> lo" "lo \<le> 0xDFFF"
  defines "x \<equiv> (hi - 0xD800) * 0x400 + (lo - 0xDC00)"
  shows "\<exists>uc'. parse_unicode uc uc2 (hex4 hi @ [CHR 0x5C, CHR ''u''] @ hex4 lo @ r) =
    Inr (utf8 (if even (hi div 64) then 0x10000 + x else x), uc', Some (of_nat lo), 10)"
proof -
  let ?h = "of_nat hi :: 32 word" and ?l = "of_nat lo :: 32 word" and ?s = "hex4 hi @ [CHR 0x5C, CHR ''u''] @ hex4 lo @ r"
  have lt: "hi < 65536" "lo < 65536" using assms(2,4) by simp_all
  have u: "unat ?h = hi" "unat ?l = lo" by (simp_all only: of_nat_unat32 [OF lt(1)] of_nat_unat32 [OF lt(2)])
  define a b where "a = hi - 0xD800" and "b = lo - 0xDC00"
  then have ab: "hi = a + 54 * 1024" "lo = b + 55 * 1024" using assms(1,3) by simp_all
  then have less: "a < 1024" "b < 1024" and x: "x = a * 1024 + b" using assms(2,4) by (simp_all add: x_def)
  have md: "hi mod 1024 = a" "lo mod 1024 = b" unfolding ab mod_mult_self1 using less by simp_all
  have "hi div 64 = a div 64 + 864" unfolding ab by simp
  moreover have "x div 65536 = x div 1024 div 64" by (simp add: div_mult2_eq [symmetric])
  then have "x div 65536 = a div 64" using less(2) unfolding x by simp
  ultimately have "even (x div 65536) \<longleftrightarrow> even (hi div 64)" by simp
  then have code: "unat (0x10000 OR push_bit 10 (?h AND 0x3FF) OR (?l AND 0x3FF)) = (if even (hi div 64) then 0x10000 + x else x)"
    using pair_code [OF lt] unfolding md x [symmetric] by (simp add: Let_def)
  have "x < 0x100000" using less unfolding x by linarith
  then have "unat (0x10000 OR push_bit 10 (?h AND 0x3FF) OR (?l AND 0x3FF)) < 0x200000" unfolding code by simp
  from utf8_write_result [OF this] obtain uc' where
    w: "utf8_write (utf8_len (0x10000 OR push_bit 10 (?h AND 0x3FF) OR (?l AND 0x3FF))) (utf8_len (0x10000 OR push_bit 10 (?h AND 0x3FF) OR (?l AND 0x3FF)))
      (0x10000 OR push_bit 10 (?h AND 0x3FF) OR (?l AND 0x3FF)) [] = (utf8 (if even (hi div 64) then 0x10000 + x else x), uc')" unfolding code by blast
  have r1: "rd ?s 4 = Inr (CHR 0x5C)" "rd ?s 5 = Inr (CHR ''u'')" by (simp_all add: rd_def nth_append)
  have r2: "sscanf_4x (drop 6 ?s) = Inr (Some ?l)" using sscanf_hex4 [OF lt(2), of r] by simp
  have "\<not> (?l < 0xDC00 \<or> ?l > 0xDFFF)" "0xD800 \<le> ?h \<and> ?h \<le> 0xDBFF" "\<not> (0xDC00 \<le> ?h \<and> ?h \<le> 0xDFFF \<or> ?h = 0)"
    using assms(1-4) u by (auto simp: word_le_nat_alt word_less_nat_alt word_unat_eq_iff)
  then show ?thesis using sscanf_hex4 [OF lt(1), of "[CHR 0x5C, CHR ''u''] @ hex4 lo @ r"] unfolding parse_unicode_def parse_unicode2_def r1 r2
    by (simp only: run_bind_Inr option.case if_False if_True r1 r2 w Let_def prod.case not_True_eq_False simp_thms) blast
qed

theorem parse_unicode_pair_witness:
  "\<exists>uc'. parse_unicode None None (hex4 0xD840 @ [CHR 0x5C, CHR ''u''] @ hex4 0xDC00 @ [CHR 0x22]) =
    Inr (utf8 0x10000, uc', Some (of_nat 0xDC00), 10)"
proof -
  have r: "(0xD800 :: nat) \<le> 0xD840" "(0xD840 :: nat) \<le> 0xDBFF" "(0xDC00 :: nat) \<le> 0xDC00" "(0xDC00 :: nat) \<le> 0xDFFF" by simp_all
  from parse_unicode_pair [OF r, of None None "[CHR 0x22]"] show ?thesis by simp
qed

section \<open>Large numbers\<close>

lemma dec_nat_long: "10 ^ k \<le> n \<Longrightarrow> k < length (dec_nat n)"
proof (induction k arbitrary: n)
  case 0
  show ?case by (subst dec_nat.simps) simp
next
  case (Suc k)
  then have "10 ^ k \<le> n div 10" by (simp add: less_eq_div_iff_mult_less_eq mult.commute)
  moreover have "(10 :: nat) ^ 1 \<le> 10 ^ Suc k" by (rule power_increasing) simp_all
  ultimately show ?case using Suc by (subst dec_nat.simps) auto
qed

definition exact_fenv :: fenv where
  "exact_fenv = \<lparr>fl_rnd = Fin, fl_pow10 = (\<lambda>k. Fin (10 powi k)), fl_to_int = (\<lambda>d. case d of Fin a \<Rightarrow> \<lfloor>a\<rfloor> | _ \<Rightarrow> 0),
     fl_fmt_e = (\<lambda>_. ''0''), fl_fmt_f = (\<lambda>_. ''0'')\<rparr>"

lemma exact_fenv_ok: "fenv_ok exact_fenv"
  by (simp add: fenv_ok_def exact_fenv_def)

text \<open>The text of a number with 65 digits does not fit its block.\<close>

lemma print_number_overflow_example:
  "print_number exact_fenv (\<lambda>_. True) (Fin (of_int (10 ^ 64))) 0 0 = Inl OutOfBounds"
proof -
  have "INT_MAX < 10 ^ 64" by (simp add: INT_MAX_def)
  moreover have "64 \<le> length (dec_int (10 ^ 64))" using dec_nat_long [of 64 "10 ^ 64"] by (simp add: dec_int_def nat_power_eq)
  ultimately show ?thesis using print_number_overflow [OF exact_fenv_ok, of "10 ^ 64" "\<lambda>_. True" 0 0] by blast
qed

end
