(* ===== verification/Duda_Dr_List.thy ===== *)
theory Duda_Dr_List
  imports Duda_Prelude "HOL-Library.Tree"
begin

text \<open>
  The tree of active requests of a worker (\<open>duda_dr_list_add\<close>, \<open>duda_dr_list_get\<close> and
  \<open>duda_dr_list_del\<close> of \<open>lib/duda_old_launcher.c\<close>). The red-black routines are Monkey's: linking a node
  at a position is modelled, rebalancing and erasing are arguments.
\<close>

section \<open>Operations\<close>

text \<open>A request: an identity, its socket and the address of Monkey's request structure.\<close>

record duda_request =
  dr_id :: nat
  dr_socket :: int
  dr_request :: int

text \<open>
  The walk to the position of a new node goes by socket. It stops at a node with the same socket,
  whose place in the tree is then overwritten: \<open>rb_link_node\<close> stores the new node, without
  children, through the pointer that led to the old one.
\<close>

fun dr_link :: "duda_request \<Rightarrow> duda_request tree \<Rightarrow> duda_request tree" where
  "dr_link dr Leaf = Node Leaf dr Leaf"
| "dr_link dr (Node l this r) =
     (if dr_socket dr < dr_socket this then Node (dr_link dr l) this r
      else if dr_socket dr > dr_socket this then Node l this (dr_link dr r)
      else Node Leaf dr Leaf)"

definition duda_dr_list_add :: "(duda_request tree \<Rightarrow> duda_request tree) \<Rightarrow> duda_request \<Rightarrow> duda_request tree \<Rightarrow> duda_request tree" where
  "duda_dr_list_add rb_insert_color dr root = rb_insert_color (dr_link dr root)"

fun dr_search :: "int \<Rightarrow> duda_request tree \<Rightarrow> duda_request option" where
  "dr_search sr Leaf = None"
| "dr_search sr (Node l dr r) =
     (if sr < dr_request dr then dr_search sr l
      else if sr > dr_request dr then dr_search sr r
      else Some dr)"

definition duda_dr_list_get :: "int \<Rightarrow> duda_request tree option \<Rightarrow> duda_request option" where
  "duda_dr_list_get sr root = (case root of None \<Rightarrow> None | Some t \<Rightarrow> dr_search sr t)"

definition duda_dr_list_del ::
  "(duda_request \<Rightarrow> duda_request tree \<Rightarrow> duda_request tree) \<Rightarrow> int \<Rightarrow> duda_request tree option \<Rightarrow>
     duda_request option \<times> duda_request tree option" where
  "duda_dr_list_del rb_erase sr root =
     (case duda_dr_list_get sr root of None \<Rightarrow> (None, root)
      | Some dr \<Rightarrow> (Some dr, map_option (rb_erase dr) root))"

text \<open>Rebalancing keeps the order of the nodes.\<close>

definition rb_keeps_order :: "(duda_request tree \<Rightarrow> duda_request tree) \<Rightarrow> bool" where
  "rb_keeps_order f \<longleftrightarrow> (\<forall>t. inorder (f t) = inorder t)"

text \<open>The tree after the requests of a list were added in turn.\<close>

definition dr_tree :: "(duda_request tree \<Rightarrow> duda_request tree) \<Rightarrow> duda_request list \<Rightarrow> duda_request tree" where
  "dr_tree f drs = fold (duda_dr_list_add f) drs Leaf"

section \<open>Order of the nodes\<close>

abbreviation by_socket :: "duda_request list \<Rightarrow> bool" where
  "by_socket \<equiv> sorted_wrt (\<lambda>x y. dr_socket x < dr_socket y)"

abbreviation by_request :: "duda_request list \<Rightarrow> bool" where
  "by_request \<equiv> sorted_wrt (\<lambda>x y. dr_request x < dr_request y)"

lemma dr_link_sorted:
  assumes "by_socket (inorder t)" "dr_socket dr \<notin> dr_socket ` set_tree t"
  shows "by_socket (inorder (dr_link dr t)) \<and> set_tree (dr_link dr t) = insert dr (set_tree t)"
  using assms
proof (induction t)
  case (Node l this r)
  then have sub: "by_socket (inorder l)" "by_socket (inorder r)" "dr_socket dr \<noteq> dr_socket this"
      "dr_socket dr \<notin> dr_socket ` set_tree l" "dr_socket dr \<notin> dr_socket ` set_tree r"
      "\<forall>x \<in> set_tree l. dr_socket x < dr_socket this" "\<forall>x \<in> set_tree r. dr_socket this < dr_socket x"
      "\<forall>x \<in> set_tree l. \<forall>y \<in> set_tree r. dr_socket x < dr_socket y"
    by (auto simp: sorted_wrt_append)
  show ?case
  proof (cases "dr_socket dr < dr_socket this")
    case True
    have "dr_socket dr < dr_socket y" if "y \<in> set_tree r" for y using True sub(7) that by (meson less_trans)
    with Node.IH(1) [OF sub(1,4)] sub True show ?thesis by (auto simp: sorted_wrt_append)
  next
    case False
    then have gt: "dr_socket this < dr_socket dr" using sub(3) by simp
    have "dr_socket y < dr_socket dr" if "y \<in> set_tree l" for y using gt sub(6) that by (meson less_trans)
    with Node.IH(2) [OF sub(2,5)] sub gt show ?thesis by (auto simp: sorted_wrt_append)
  qed
qed simp

lemma dr_fold_sorted:
  assumes "rb_keeps_order f" "by_socket (inorder t)" "distinct (map dr_socket drs)" "dr_socket ` set_tree t \<inter> dr_socket ` set drs = {}"
  shows "by_socket (inorder (fold (duda_dr_list_add f) drs t)) \<and> set_tree (fold (duda_dr_list_add f) drs t) = set_tree t \<union> set drs"
  using assms(2-4)
proof (induction drs arbitrary: t)
  case (Cons d drs)
  let ?t = "duda_dr_list_add f d t"
  have "by_socket (inorder (dr_link d t)) \<and> set_tree (dr_link d t) = insert d (set_tree t)"
    using Cons.prems by (intro dr_link_sorted) auto
  moreover have io: "inorder ?t = inorder (dr_link d t)" using assms(1) by (simp add: duda_dr_list_add_def rb_keeps_order_def)
  moreover have "set_tree ?t = set_tree (dr_link d t)" using io by (metis set_inorder)
  ultimately have t: "by_socket (inorder ?t)" "set_tree ?t = insert d (set_tree t)" by simp_all
  have "by_socket (inorder (fold (duda_dr_list_add f) drs ?t)) \<and> set_tree (fold (duda_dr_list_add f) drs ?t) = set_tree ?t \<union> set drs"
    using Cons.prems t by (intro Cons.IH) auto
  with t show ?case by auto
qed simp

lemma dr_tree_sorted:
  assumes "rb_keeps_order f" "distinct (map dr_socket drs)"
  shows "by_socket (inorder (dr_tree f drs))" "set_tree (dr_tree f drs) = set drs"
  using dr_fold_sorted [OF assms(1), of Leaf drs] assms(2) by (simp_all add: dr_tree_def)

text \<open>A search by address finds every node exactly when the nodes are ordered by address.\<close>

lemma dr_search_request: "dr_search sr t = Some d \<Longrightarrow> dr_request d = sr \<and> d \<in> set_tree t"
  by (induction sr t rule: dr_search.induct) (auto split: if_splits)

lemma dr_search_sorted: "by_request (inorder t) \<Longrightarrow> d \<in> set_tree t \<Longrightarrow> dr_search (dr_request d) t = Some d"
  by (induction t) (auto simp: sorted_wrt_append)

lemma dr_search_all:
  assumes "distinct (inorder t)" "\<forall>d \<in> set_tree t. dr_search (dr_request d) t = Some d"
  shows "by_request (inorder t)"
  using assms
proof (induction t)
  case (Node l a r)
  have dist: "a \<notin> set_tree l" "a \<notin> set_tree r" "set_tree l \<inter> set_tree r = {}" "distinct (inorder l)" "distinct (inorder r)"
    using Node.prems(1) by auto
  have s: "dr_search (dr_request x) (Node l a r) = Some x" if "x \<in> set_tree l \<union> set_tree r" for x
    using Node.prems(2) that by simp
  have l: "dr_request x < dr_request a \<and> dr_search (dr_request x) l = Some x" if x: "x \<in> set_tree l" for x
  proof (cases "dr_request x" "dr_request a" rule: linorder_cases)
    case greater
    with s [of x] x have "x \<in> set_tree r" using dr_search_request [of "dr_request x" r x] by simp
    with x dist(3) show ?thesis by blast
  qed (use s [of x] x dist(1) in simp_all)
  have r: "dr_request a < dr_request x \<and> dr_search (dr_request x) r = Some x" if x: "x \<in> set_tree r" for x
  proof (cases "dr_request x" "dr_request a" rule: linorder_cases)
    case less
    with s [of x] x have "x \<in> set_tree l" using dr_search_request [of "dr_request x" l x] by simp
    with x dist(3) show ?thesis by blast
  qed (use s [of x] x dist(2) in simp_all)
  have "by_request (inorder l)" "by_request (inorder r)"
    using l r by (intro Node.IH dist ballI; blast)+
  moreover have "dr_request x < dr_request y" if "x \<in> set_tree l" "y \<in> set_tree r" for x y
    using l [OF that(1)] r [OF that(2)] by (meson less_trans)
  ultimately show ?case using l r by (simp add: sorted_wrt_append)
qed simp

lemma by_socket_distinct: "by_socket xs \<Longrightarrow> distinct xs"
  by (induction xs) auto

lemma agree_iff_by_request:
  assumes "by_socket xs"
  shows "by_request xs \<longleftrightarrow> (\<forall>x \<in> set xs. \<forall>y \<in> set xs. dr_socket x < dr_socket y \<longrightarrow> dr_request x < dr_request y)"
  using assms
proof (induction xs)
  case (Cons a xs)
  then have lt: "\<forall>y \<in> set xs. dr_socket a < dr_socket y" by simp
  then have "(\<forall>x \<in> set (a # xs). \<forall>y \<in> set (a # xs). dr_socket x < dr_socket y \<longrightarrow> dr_request x < dr_request y) \<longleftrightarrow>
    (\<forall>y \<in> set xs. dr_request a < dr_request y) \<and> (\<forall>x \<in> set xs. \<forall>y \<in> set xs. dr_socket x < dr_socket y \<longrightarrow> dr_request x < dr_request y)"
    by (auto dest: less_asym)
  with Cons show ?case by simp
qed simp

section \<open>Properties\<close>

text \<open>
  The tree is ordered by socket and searched by the address of the request: after any
  requests with distinct sockets were added, every one of them is found by its address exactly
  when the addresses have the same order as the sockets, whatever the rebalancing does to the
  shape of the tree. One pair in the opposite order makes the lookup miss an active request.
\<close>

theorem duda_dr_list_get_iff:
  assumes "rb_keeps_order f" "distinct (map dr_socket drs)"
  shows "(\<forall>d \<in> set drs. duda_dr_list_get (dr_request d) (Some (dr_tree f drs)) = Some d) \<longleftrightarrow>
    (\<forall>x \<in> set drs. \<forall>y \<in> set drs. dr_socket x < dr_socket y \<longrightarrow> dr_request x < dr_request y)"
proof -
  let ?t = "dr_tree f drs"
  note t = dr_tree_sorted [OF assms]
  have agree: "by_request (inorder ?t) \<longleftrightarrow> (\<forall>x \<in> set drs. \<forall>y \<in> set drs. dr_socket x < dr_socket y \<longrightarrow> dr_request x < dr_request y)"
    using agree_iff_by_request [OF t(1)] t(2) by (simp add: set_inorder)
  have "(\<forall>d \<in> set drs. dr_search (dr_request d) ?t = Some d) \<longleftrightarrow> by_request (inorder ?t)"
    using dr_search_all [of ?t] dr_search_sorted [of ?t] by_socket_distinct [OF t(1)] t(2) by metis
  with agree show ?thesis by (simp add: duda_dr_list_get_def)
qed

theorem duda_dr_list_get_iff_witness:
  "\<not> (\<forall>d \<in> set [\<lparr>dr_id = 0, dr_socket = 5, dr_request = 200\<rparr>, \<lparr>dr_id = 1, dr_socket = 7, dr_request = 100\<rparr>].
     duda_dr_list_get (dr_request d) (Some (dr_tree id [\<lparr>dr_id = 0, dr_socket = 5, dr_request = 200\<rparr>, \<lparr>dr_id = 1, dr_socket = 7, dr_request = 100\<rparr>])) = Some d)"
  by (subst duda_dr_list_get_iff) (simp_all add: rb_keeps_order_def)

end
