(* ===== verification/Duda_Request.thy ===== *)
theory Duda_Request
  imports Duda_Dr_List
begin

text \<open>
  \<open>lib/objects/duda_request.c\<close>: the methods that inspect an incoming request. Monkey's request
  structure is a record with the fields the methods read; two methods return before their body.
\<close>

datatype mk_method = MK_METHOD_GET | MK_METHOD_POST | MK_METHOD_HEAD | MK_METHOD_PUT | MK_METHOD_DELETE | MK_METHOD_OTHER

record http_request =
  hr_method :: mk_method
  hr_content_length :: int
  hr_content_type :: mk_ptr
  hr_data :: mk_ptr

definition duda_request_is_data :: "http_request \<Rightarrow> bool" where
  "duda_request_is_data r =
     (if hr_method r \<noteq> MK_METHOD_POST \<and> hr_method r \<noteq> MK_METHOD_PUT then False
      else if hr_content_length r \<le> 0 then False else True)"

definition duda_request_is_get :: "http_request \<Rightarrow> bool" where
  "duda_request_is_get r = (if hr_method r = MK_METHOD_GET then True else False)"

definition duda_request_is_post :: "http_request \<Rightarrow> bool" where
  "duda_request_is_post r = (if hr_method r = MK_METHOD_POST then True else False)"

definition duda_request_is_head :: "http_request \<Rightarrow> bool" where
  "duda_request_is_head r = (if hr_method r = MK_METHOD_HEAD then True else False)"

definition duda_request_is_put :: "http_request \<Rightarrow> bool" where
  "duda_request_is_put r = (if hr_method r = MK_METHOD_PUT then True else False)"

definition duda_request_is_delete :: "http_request \<Rightarrow> bool" where
  "duda_request_is_delete r = (if hr_method r = MK_METHOD_DELETE then True else False)"

text \<open>\<open>content_type\<close> is the text in front of the terminating zero byte of the argument.\<close>

definition duda_request_is_content_type :: "http_request \<Rightarrow> string option \<Rightarrow> bool run" where
  "duda_request_is_content_type r content_type =
     (case content_type of None \<Rightarrow> Inr False
      | Some ct \<Rightarrow>
          if ptr_len (hr_content_type r) = 0 then Inr False
          else if length ct \<noteq> ptr_len (hr_content_type r) then Inr False
          else (case ptr_data (hr_content_type r) of None \<Rightarrow> Inl NullDeref
            | Some d \<Rightarrow> run_bind (strncmp_eq d (cstr ct) (length ct)) (\<lambda>eq. Inr eq)))"

text \<open>
  The request is \<open>None\<close> when \<open>dr->session\<close> or \<open>dr->request\<close> is null, \<open>ok\<close> says whether \<open>mem_alloc_z\<close>
  returns memory, and \<open>len\<close> is the caller's variable, which a failed allocation leaves alone.
\<close>

definition duda_request_get_data :: "bool \<Rightarrow> http_request option \<Rightarrow> nat \<Rightarrow> (string option \<times> nat) run" where
  "duda_request_get_data ok r len =
     (case Option.bind r (\<lambda>r. map_option (Pair r) (ptr_data (hr_data r))) of None \<Rightarrow> Inr (None, 0)
      | Some (r, d) \<Rightarrow>
          (let n = ptr_len (hr_data r)
           in if \<not> ok then Inr (None, len)
              else if length d < n then Inl OutOfBounds
              else Inr (Some (take n d @ [NUL]), n)))"

definition duda_request_content_length :: "http_request option \<Rightarrow> int" where
  "duda_request_content_length r =
     (case r of None \<Rightarrow> -1
      | Some r \<Rightarrow> if ptr_data (hr_data r) = None then -1 else hr_content_length r)"

definition duda_request_header_get :: "'r \<Rightarrow> int \<Rightarrow> string option \<Rightarrow> nat \<Rightarrow> string option" where
  "duda_request_header_get dr name key len = None"

definition duda_request_header_cmp :: "'r \<Rightarrow> int \<Rightarrow> string option \<Rightarrow> nat \<Rightarrow> string \<Rightarrow> int" where
  "duda_request_header_cmp dr name key len val = 0"

text \<open>
  \<open>header_get\<close> and \<open>str_search_n\<close> are Monkey's: the value of a header, and the position of a text in
  the first bytes of another one.
\<close>

definition duda_request_header_contains ::
    "(int \<Rightarrow> http_request \<Rightarrow> string \<Rightarrow> nat \<Rightarrow> mk_ptr option) \<Rightarrow> (mk_ptr \<Rightarrow> string \<Rightarrow> nat \<Rightarrow> int) \<Rightarrow>
     http_request option \<Rightarrow> int \<Rightarrow> string option \<Rightarrow> nat \<Rightarrow> string \<Rightarrow> int" where
  "duda_request_header_contains header_get str_search_n r name key len val =
     (case (r, key) of
        (Some r, Some k) \<Rightarrow>
          (case header_get name r k len of None \<Rightarrow> -1
           | Some v \<Rightarrow> if len \<noteq> ptr_len v then -1 else str_search_n v val len)
      | _ \<Rightarrow> -1)"

definition duda_request_validate_socket :: "duda_request tree option \<Rightarrow> int \<Rightarrow> bool" where
  "duda_request_validate_socket drs socket =
     (case duda_dr_list_get socket drs of Some dr \<Rightarrow> True | None \<Rightarrow> False)"

definition duda_request_validate_request :: "duda_request tree option \<Rightarrow> duda_request \<Rightarrow> bool" where
  "duda_request_validate_request drs dr =
     (case duda_dr_list_get (dr_socket dr) drs of None \<Rightarrow> False
      | Some tmp \<Rightarrow> if dr_id tmp \<noteq> dr_id dr \<or> dr_socket tmp \<noteq> dr_socket dr then False else True)"

section \<open>Facts\<close>

text \<open>The content type is accepted exactly when it is the given text.\<close>

lemma is_content_type_eq:
  assumes "ptr_data (hr_content_type r) = Some d" "ptr_len (hr_content_type r) \<le> length d" "no_nul ct" "ct \<noteq> []"
  shows "duda_request_is_content_type r (Some ct) = Inr (ptr_text (hr_content_type r) = ct)"
proof (cases "length ct = ptr_len (hr_content_type r)")
  case True
  have "take (length ct) d = ct \<longleftrightarrow> ptr_text (hr_content_type r) = ct" using True assms(1) by (simp add: ptr_text_def)
  with True assms strncmp_eq_prefix [of ct d "[NUL]"] show ?thesis by (auto simp: duda_request_is_content_type_def cstr_def)
next
  case False
  then have "ptr_text (hr_content_type r) \<noteq> ct" using assms(1,2) by (auto simp: ptr_text_def)
  with False show ?thesis by (simp add: duda_request_is_content_type_def)
qed

lemma get_data_text:
  "ptr_data (hr_data r) = Some d \<Longrightarrow> ptr_len (hr_data r) \<le> length d \<Longrightarrow>
     duda_request_get_data True (Some r) len = Inr (Some (cstr (ptr_text (hr_data r))), ptr_len (hr_data r))"
  by (simp add: duda_request_get_data_def ptr_text_def cstr_def Let_def)

end
