(* ===== verification/Duda_Cjson_Roundtrip.thy ===== *)
theory Duda_Cjson_Roundtrip
  imports Duda_Cjson Duda_Cjson_Utf8 Duda_Request
begin

text \<open>
  What the trees of \<open>cJSON.c\<close> mean: a tree represents a JSON value, the printer writes the text of the
  value, and the parser reads it back. The last section follows a request body into the parser.
\<close>

section \<open>Values, trees and texts\<close>

datatype json = JNull | JBool bool | JInt int | JString string | JArray "json list" | JObject "(string \<times> json) list"

fun rep :: "json \<Rightarrow> cjson \<Rightarrow> bool" where
  "rep JNull c \<longleftrightarrow> cj_type c mod 256 = cJSON_NULL"
| "rep (JBool b) c \<longleftrightarrow> cj_type c mod 256 = (if b then cJSON_True else cJSON_False)"
| "rep (JInt i) c \<longleftrightarrow> cj_type c mod 256 = cJSON_Number \<and> cj_vint c = i \<and> cj_vdbl c = Fin (of_int i) \<and> INT_MIN \<le> i \<and> i \<le> INT_MAX"
| "rep (JString s) c \<longleftrightarrow> cj_type c mod 256 = cJSON_String \<and> cj_vstr c = Some s \<and> no_nul s"
| "rep (JArray js) c \<longleftrightarrow> cj_type c mod 256 = cJSON_Array \<and> list_all2 rep js (cj_child c)"
| "rep (JObject ms) c \<longleftrightarrow> cj_type c mod 256 = cJSON_Object \<and>
     list_all2 (\<lambda>m c. cj_name c = Some (fst m) \<and> no_nul (fst m) \<and> rep (snd m) c) ms (cj_child c)"

abbreviation quoted :: "string \<Rightarrow> string" where
  "quoted s \<equiv> CHR 0x22 # print_text s @ [CHR 0x22]"

fun json_text :: "bool \<Rightarrow> nat \<Rightarrow> json \<Rightarrow> string" where
  "json_text fmt depth JNull = ''null''"
| "json_text fmt depth (JBool b) = (if b then ''true'' else ''false'')"
| "json_text fmt depth (JInt i) = dec_int i"
| "json_text fmt depth (JString s) = quoted s"
| "json_text fmt depth (JArray js) = array_text fmt (map (json_text fmt (depth + 1)) js)"
| "json_text fmt depth (JObject ms) = object_text fmt (depth + 1) (map (\<lambda>m. (quoted (fst m), json_text fmt (depth + 1) (snd m))) ms)"

section \<open>Printing\<close>

lemma join_length: "length (join sep ts) \<le> sum_list (map (\<lambda>t. length t + length sep) ts)"
proof (cases ts)
  case (Cons t ts')
  have "length (concat (map (\<lambda>t. sep @ t) ts')) = sum_list (map (\<lambda>t. length t + length sep) ts')"
    by (induction ts') auto
  with Cons show ?thesis by (simp add: join_def)
qed (simp add: join_def)

lemma array_text_fits: "length (array_text fmt ts) < array_size fmt ts"
proof -
  have "sum_list (map (\<lambda>t. length t + length (if fmt then '', '' else '','')) ts) \<le> sum_list (map (\<lambda>t. length t + 2 + (if fmt then 1 else 0)) ts)"
    by (induction ts) auto
  with join_length [of "if fmt then '', '' else '',''" ts] show ?thesis by (simp add: array_text_def array_size_def)
qed

lemma object_text_fits: "length (object_text fmt depth ms) < object_size fmt depth ms"
proof -
  have "sum_list (map (\<lambda>t. length t + length (if fmt then [CHR '','', NL] else '','')) (map (member_text fmt depth) ms)) \<le>
      sum_list (map (\<lambda>(nm, t). length t + length nm + 2 + (if fmt then 2 + depth else 0)) ms)"
    by (induction ms) (auto simp: member_text_def)
  with join_length [of "if fmt then [CHR '','', NL] else '',''" "map (member_text fmt depth) ms"] show ?thesis
    by (auto simp: object_text_def object_size_def)
qed

text \<open>Every allocation succeeds.\<close>

abbreviation mem_ok :: "nat \<Rightarrow> bool" where
  "mem_ok \<equiv> (\<lambda>_. True)"

lemma print_rep:
  assumes "fenv_ok fe"
  shows "rep j c \<Longrightarrow> \<exists>n'. print_value fe mem_ok fmt c depth n = Inr (Some (json_text fmt depth j), n')"
proof (induction j arbitrary: c depth n)
  case JNull
  then show ?case by (cases c) (simp add: cJSON_types cJSON_strdup_def)
next
  case (JBool b)
  then show ?case by (cases c; cases b) (simp_all add: cJSON_types cJSON_strdup_def)
next
  case (JInt i)
  then show ?case using print_number_int [of fe i mem_ok n, OF assms] by (cases c) (simp add: cJSON_types)
next
  case (JString s)
  then show ?case using print_string_ptr_text [of s mem_ok n] by (cases c) (simp add: cJSON_types)
next
  case (JArray js)
  obtain ty vs vi vd nm ch where c: "c = CJ ty vs vi vd nm ch" by (cases c)
  from JArray.prems c have t: "ty mod 256 = cJSON_Array" and l: "list_all2 rep js ch" by simp_all
  have "\<exists>n'. print_elems fe mem_ok fmt ch d m = Inr (Some (map (json_text fmt d) js), n')" for d m
    using l JArray.IH
  proof (induction js ch arbitrary: m rule: list_all2_induct)
    case (Cons j js c cs)
    from Cons.prems [of j c d m] Cons.hyps(1) obtain n1 where n1: "print_value fe mem_ok fmt c d m = Inr (Some (json_text fmt d j), n1)" by auto
    have "\<exists>n'. print_elems fe mem_ok fmt cs d n1 = Inr (Some (map (json_text fmt d) js), n')" by (rule Cons.IH) (use Cons.prems in auto)
    with n1 show ?case by auto
  qed simp
  then obtain n1 where "print_elems fe mem_ok fmt ch (depth + 1) (Suc n) = Inr (Some (map (json_text fmt (depth + 1)) js), n1)" by blast
  with c t show ?case by (simp add: cJSON_types compose_def array_text_fits)
next
  case (JObject ms)
  obtain ty vs vi vd nm ch where c: "c = CJ ty vs vi vd nm ch" by (cases c)
  from JObject.prems c have t: "ty mod 256 = cJSON_Object" and
    l: "list_all2 (\<lambda>m c. cj_name c = Some (fst m) \<and> no_nul (fst m) \<and> rep (snd m) c) ms ch" by simp_all
  have IH: "\<exists>n'. print_value fe mem_ok fmt c d k = Inr (Some (json_text fmt d (snd m)), n')" if "m \<in> set ms" "rep (snd m) c" for m c d k
    by (rule JObject.IH [OF that(1) _ that(2)]) (cases m, simp)
  have "\<exists>n'. print_members fe mem_ok fmt ch d k = Inr (Some (map (\<lambda>m. (quoted (fst m), json_text fmt d (snd m))) ms), n')" for d k
    using l IH
  proof (induction ms ch arbitrary: k rule: list_all2_induct)
    case (Cons m ms c cs)
    have q: "print_string_ptr mem_ok (cj_name c) k = Inr (Some (quoted (fst m)), Suc k)" using Cons.hyps(1) by (simp add: print_string_ptr_text)
    from Cons.prems [of m c d "Suc k"] Cons.hyps(1) obtain n1 where
      n1: "print_value fe mem_ok fmt c d (Suc k) = Inr (Some (json_text fmt d (snd m)), n1)" by auto
    have "\<exists>n'. print_members fe mem_ok fmt cs d n1 = Inr (Some (map (\<lambda>m. (quoted (fst m), json_text fmt d (snd m))) ms), n')"
      by (rule Cons.IH) (use Cons.prems in auto)
    with q n1 show ?case by auto
  qed simp
  then obtain n1 where "print_members fe mem_ok fmt ch (depth + 1) (Suc (Suc n)) =
      Inr (Some (map (\<lambda>m. (quoted (fst m), json_text fmt (depth + 1) (snd m))) ms), n1)" by blast
  with c t show ?case by (simp add: cJSON_types compose_def object_text_fits)
qed

section \<open>Parsing\<close>

definition blank :: "string \<Rightarrow> bool" where
  "blank w \<longleftrightarrow> (\<forall>c \<in> set w. c \<noteq> NUL \<and> (of_char c :: nat) \<le> 32)"

lemma blank_simps [simp]: "blank []" "blank (c # w) \<longleftrightarrow> (c \<noteq> NUL \<and> (of_char c :: nat) \<le> 32) \<and> blank w" "blank (v @ w) \<longleftrightarrow> blank v \<and> blank w"
  by (auto simp: blank_def)

lemma blank_chars [simp]: "TAB \<noteq> NUL" "(of_char TAB :: nat) \<le> 32" "NL \<noteq> NUL" "(of_char NL :: nat) \<le> 32"
  by (simp_all add: TAB_def NL_def)

lemma blank_tabs [simp]: "blank (replicate k TAB)"
  by (auto simp: blank_def TAB_def)

lemma skip_blank: "blank w \<Longrightarrow> skip (w @ s) = skip s"
  by (induction w) (auto simp: skip_def)

lemma skip_start: "32 < (of_char c :: nat) \<Longrightarrow> skip (c # s) = c # s"
  by (simp add: skip_def)

lemma skip_blank_start: "blank w \<Longrightarrow> 32 < (of_char c :: nat) \<Longrightarrow> skip (w @ c # s) = c # s"
  by (simp add: skip_blank skip_start)

lemma is_digit_high: "is_digit c \<Longrightarrow> 32 < (of_char c :: nat) \<and> c \<noteq> CHR '']'' \<and> c \<notin> set ''nft'' \<and> c \<noteq> CHR 0x22"
  by (auto simp: is_digit_def)

lemma dec_int_start: "\<exists>c t. dec_int i = c # t \<and> (c = CHR ''-'' \<or> is_digit c)"
proof (cases "i < 0")
  case False
  have "dec_nat (nat i) \<noteq> []" by (subst dec_nat.simps) simp
  then obtain c t where "dec_nat (nat i) = c # t" by (cases "dec_nat (nat i)") auto
  with False dec_nat_digits [of c "nat i"] show ?thesis by (simp add: dec_int_def)
qed (simp add: dec_int_def)

lemma json_text_start: "\<exists>c t. json_text fmt depth j = c # t \<and> 32 < (of_char c :: nat) \<and> c \<noteq> CHR '']''"
proof (cases j)
  case (JInt i)
  from dec_int_start [of i] obtain c t where ct: "dec_int i = c # t" "c = CHR ''-'' \<or> is_digit c" by blast
  then have "32 < (of_char c :: nat) \<and> c \<noteq> CHR '']''" using is_digit_high [of c] by auto
  with ct JInt show ?thesis by simp
qed (auto simp: array_text_def object_text_def)

lemma ends_number_sep [simp]: "ends_number (CHR '','' # s)" "ends_number (CHR '']'' # s)" "ends_number (CHR ''}'' # s)"
  by (simp_all add: ends_number_def is_digit_def)

lemma ends_number_blank: "blank w \<Longrightarrow> ends_number s \<Longrightarrow> ends_number (w @ s)"
  by (cases w) (auto simp: ends_number_def is_digit_def)

text \<open>The literals are told apart by the first byte.\<close>

lemma strncmp_eq_first: "x \<noteq> y \<Longrightarrow> 0 < k \<Longrightarrow> strncmp_eq (x # a) (y # b) k = Inr False"
  by (cases k) auto

lemma parse_value_other:
  "c \<notin> set ''nft'' \<Longrightarrow> parse_value fe ok (Suc f) item (c # s) n =
     (if c = CHR 0x22 then jbind (parse_string ok (c # s) n) (\<lambda>s r n. JOk (set_string s item) r n)
      else if c = CHR ''-'' \<or> is_digit c then jlift (parse_number fe (c # s)) (\<lambda>(d, i, r). JOk (set_number d i item) r n)
      else if c = CHR ''['' then
        jbind (parse_array (parse_value fe ok f new_item) ok f (c # s) n) (\<lambda>cs r n. JOk (set_child cs (set_type cJSON_Array item)) r n)
      else if c = CHR ''{'' then
        jbind (parse_object (parse_value fe ok f) ok f (c # s) n) (\<lambda>cs r n. JOk (set_child cs (set_type cJSON_Object item)) r n)
      else JErr (Some (c # s)) n)"
  by (simp add: cstr_def strncmp_eq_first)

text \<open>What a parser reads one element with.\<close>

definition reads :: "(string \<Rightarrow> nat \<Rightarrow> cjson jres) \<Rightarrow> (cjson \<Rightarrow> bool) \<Rightarrow> string \<Rightarrow> bool" where
  "reads p P t \<longleftrightarrow> (\<forall>n r. ends_number r \<longrightarrow> (\<exists>c n'. p (t @ r) n = JOk c r n' \<and> P c))"

lemma readsD: "reads p P t \<Longrightarrow> ends_number r \<Longrightarrow> \<exists>c n'. p (t @ r) n = JOk c r n' \<and> P c"
  unfolding reads_def by blast

lemma array_loop_reads:
  assumes "blank w"
  shows "(\<And>j. j \<in> set js \<Longrightarrow> reads p (rep j) (txt j) \<and> (\<exists>c t. txt j = c # t \<and> 32 < (of_char c :: nat))) \<Longrightarrow> length js < f \<Longrightarrow>
    \<exists>cs n'. array_loop p mem_ok f acc (concat (map (\<lambda>j. (CHR '','' # w) @ txt j) js) @ CHR '']'' # r) n = JOk (acc @ cs) r n' \<and> list_all2 rep js cs"
proof (induction js arbitrary: f acc n)
  case Nil
  then show ?case by (cases f) auto
next
  case (Cons j js)
  from Cons.prems(2) obtain f' where f: "f = Suc f'" "length js < f'" by (cases f) auto
  let ?s = "concat (map (\<lambda>j. (CHR '','' # w) @ txt j) js) @ CHR '']'' # r"
  have e: "ends_number ?s \<and> skip ?s = ?s" by (cases js) (simp_all add: skip_start)
  from Cons.prems(1) [of j] obtain a t where a: "txt j = a # t" "32 < (of_char a :: nat)" by auto
  then have sk: "skip (w @ txt j @ ?s) = txt j @ ?s" using assms by (simp add: skip_blank_start)
  from Cons.prems(1) [of j] e obtain c n1 where c: "p (txt j @ ?s) (Suc n) = JOk c ?s n1" "rep j c" using readsD by fastforce
  have "\<exists>cs n'. array_loop p mem_ok f' (acc @ [c]) ?s n1 = JOk ((acc @ [c]) @ cs) r n' \<and> list_all2 rep js cs"
    by (rule Cons.IH) (use Cons.prems(1) f in auto)
  then obtain cs n' where "array_loop p mem_ok f' (acc @ [c]) ?s n1 = JOk ((acc @ [c]) @ cs) r n'" "list_all2 rep js cs" by blast
  then have "array_loop p mem_ok f acc (concat (map (\<lambda>j. (CHR '','' # w) @ txt j) (j # js)) @ CHR '']'' # r) n = JOk (acc @ c # cs) r n' \<and> list_all2 rep (j # js) (c # cs)"
    using c sk e f(1) by simp
  then show ?case by blast
qed

lemma parse_array_reads:
  assumes "\<And>j. j \<in> set js \<Longrightarrow> reads p (rep j) (txt j) \<and> (\<exists>c t. txt j = c # t \<and> 32 < (of_char c :: nat) \<and> c \<noteq> CHR '']'')" "length js \<le> f"
  shows "\<exists>cs n'. parse_array p mem_ok f (array_text fmt (map txt js) @ r) n = JOk cs r n' \<and> list_all2 rep js cs"
proof (cases js)
  case Nil
  then show ?thesis by (simp add: parse_array_def array_text_def join_def Let_def skip_start)
next
  case (Cons j js')
  let ?w = "if fmt then '' '' else []"
  let ?s = "concat (map (\<lambda>j. (CHR '','' # ?w) @ txt j) js') @ CHR '']'' # r"
  have w: "(if fmt then '', '' else '','') = CHR '','' # ?w" by simp
  have tx: "array_text fmt (map txt js) @ r = CHR ''['' # txt j @ ?s"
    unfolding array_text_def join_def w by (simp add: Cons comp_def)
  have e: "ends_number ?s \<and> skip ?s = ?s" by (cases js') (simp_all add: skip_start)
  from assms(1) [of j] Cons obtain a t where a: "txt j = a # t" "32 < (of_char a :: nat)" "a \<noteq> CHR '']''" by auto
  then have sk: "skip (txt j @ ?s) = txt j @ ?s" by (simp add: skip_start)
  from assms(1) [of j] Cons e obtain c n1 where c: "p (txt j @ ?s) (Suc n) = JOk c ?s n1" "rep j c" using readsD by fastforce
  have "\<exists>cs n'. array_loop p mem_ok f [c] ?s n1 = JOk ([c] @ cs) r n' \<and> list_all2 rep js' cs"
  proof (rule array_loop_reads)
    show "blank ?w" by simp
    show "length js' < f" using assms(2) Cons by simp
    show "reads p (rep i) (txt i) \<and> (\<exists>c t. txt i = c # t \<and> 32 < (of_char c :: nat))" if "i \<in> set js'" for i
      using assms(1) [of i] Cons that by fastforce
  qed
  then obtain cs n' where "array_loop p mem_ok f [c] ?s n1 = JOk ([c] @ cs) r n'" "list_all2 rep js' cs" by blast
  then have "parse_array p mem_ok f (array_text fmt (map txt js) @ r) n = JOk (c # cs) r n' \<and> list_all2 rep js (c # cs)"
    unfolding tx using c sk e a Cons by (simp add: parse_array_def Let_def)
  then show ?thesis by blast
qed

text \<open>The members of an object.\<close>

abbreviation member_rep :: "string \<times> json \<Rightarrow> cjson \<Rightarrow> bool" where
  "member_rep m c \<equiv> cj_name c = Some (fst m) \<and> no_nul (fst m) \<and> rep (snd m) c"

lemma string_to_name_set: "cj_name (string_to_name (set_string k new_item)) = Some k"
  by (simp add: new_item_def)

lemma parse_member_reads:
  assumes "\<And>item. reads (p item) (\<lambda>c. rep (snd m) c \<and> cj_name c = cj_name item) (a # t)" "32 < (of_char a :: nat)"
    and "no_nul (fst m)" "blank w" "blank w1"
  shows "reads (parse_member p mem_ok) (member_rep m) (w @ quoted (fst m) @ '':'' @ w1 @ a # t)"
  unfolding reads_def
proof (intro allI impI)
  fix n r
  assume r: "ends_number r"
  let ?k = "fst m" and ?s = "CHR '':'' # w1 @ (a # t) @ r"
  have s: "skip ((w @ quoted ?k @ '':'' @ w1 @ a # t) @ r) = CHR 0x22 # print_text ?k @ CHR 0x22 # ?s"
    using skip_blank_start [OF assms(4), of "CHR 0x22"] by simp
  have ps: "parse_string mem_ok (CHR 0x22 # print_text ?k @ CHR 0x22 # ?s) n = JOk ?k ?s (Suc n)"
    by (rule parse_string_print [OF assms(3)]) simp
  have sk: "skip ?s = ?s" "skip (w1 @ (a # t) @ r) = (a # t) @ r" using assms(2,5) by (simp_all add: skip_start skip_blank_start)
  from readsD [OF assms(1) r] obtain c n' where
    "p (string_to_name (set_string ?k new_item)) ((a # t) @ r) (Suc n) = JOk c r n'" "rep (snd m) c" "cj_name c = Some ?k"
    unfolding string_to_name_set [symmetric] by blast
  then show "\<exists>c n'. parse_member p mem_ok ((w @ quoted ?k @ '':'' @ w1 @ a # t) @ r) n = JOk c r n' \<and> member_rep m c"
    using sk assms(3) unfolding parse_member_def s ps Let_def by simp
qed

lemma object_loop_reads:
  assumes "blank w2"
  shows "(\<And>m. m \<in> set ms \<Longrightarrow> reads (parse_member p mem_ok) (member_rep m) (w @ txt m)) \<Longrightarrow> length ms < f \<Longrightarrow>
    \<exists>cs n'. object_loop p mem_ok f acc (skip (concat (map (\<lambda>m. (CHR '','' # w) @ txt m) ms) @ w2 @ CHR ''}'' # r)) n = JOk (acc @ cs) r n' \<and>
      list_all2 member_rep ms cs"
proof (induction ms arbitrary: f acc n)
  case Nil
  then show ?case using assms by (cases f) (auto simp: skip_blank_start)
next
  case (Cons m ms)
  from Cons.prems(2) obtain f' where f: "f = Suc f'" "length ms < f'" by (cases f) auto
  let ?s = "concat (map (\<lambda>m. (CHR '','' # w) @ txt m) ms) @ w2 @ CHR ''}'' # r"
  have "ends_number ?s" using assms by (cases ms) (simp_all add: ends_number_blank)
  with Cons.prems(1) [of m] obtain c n1 where c: "parse_member p mem_ok ((w @ txt m) @ ?s) (Suc n) = JOk c ?s n1" "member_rep m c" using readsD by fastforce
  have "\<exists>cs n'. object_loop p mem_ok f' (acc @ [c]) (skip ?s) n1 = JOk ((acc @ [c]) @ cs) r n' \<and> list_all2 member_rep ms cs"
    by (rule Cons.IH) (use Cons.prems(1) f in auto)
  then obtain cs n' where "object_loop p mem_ok f' (acc @ [c]) (skip ?s) n1 = JOk ((acc @ [c]) @ cs) r n'" "list_all2 member_rep ms cs" by blast
  then have "object_loop p mem_ok f acc (skip (concat (map (\<lambda>m. (CHR '','' # w) @ txt m) (m # ms)) @ w2 @ CHR ''}'' # r)) n =
      JOk (acc @ c # cs) r n' \<and> list_all2 member_rep (m # ms) (c # cs)"
    using c f(1) by (simp add: skip_start)
  then show ?case by blast
qed

text \<open>The text of a member is blanks, the quoted name, a colon, blanks and the value.\<close>

lemma member_text_reads:
  assumes "\<And>item. reads (p item) (\<lambda>c. rep (snd m) c \<and> cj_name c = cj_name item) t" "no_nul (fst m)"
    and "t = a # t'" "32 < (of_char a :: nat)" "blank w"
  shows "reads (parse_member p mem_ok) (member_rep m) (w @ member_text fmt depth (quoted (fst m), t))"
proof -
  let ?t0 = "if fmt then replicate depth TAB else []" and ?t1 = "if fmt then [TAB] else []"
  have b: "blank (w @ ?t0)" "blank ?t1" using assms(5) by simp_all
  have "reads (parse_member p mem_ok) (member_rep m) ((w @ ?t0) @ quoted (fst m) @ '':'' @ ?t1 @ a # t')"
    using assms(1) unfolding assms(3) by (rule parse_member_reads [OF _ assms(4,2) b])
  then show ?thesis by (simp add: member_text_def assms(3))
qed

lemma member_text_quote: "\<exists>t. skip (member_text fmt depth (quoted k, v) @ s) = CHR 0x22 # t"
proof -
  have "blank (if fmt then replicate depth TAB else [])" by simp
  from skip_blank_start [OF this, of "CHR 0x22"] show ?thesis by (simp add: member_text_def)
qed

lemma skip_skip [simp]: "skip (skip s) = skip s"
  by (simp add: skip_def dropWhile_idem)

lemma parse_member_skip: "parse_member p ok (skip s) n = parse_member p ok s n"
  by (simp add: parse_member_def)

lemma parse_object_reads:
  assumes "\<And>m item. m \<in> set ms \<Longrightarrow> reads (p item) (\<lambda>c. rep (snd m) c \<and> cj_name c = cj_name item) (txt m)"
    and "\<And>m. m \<in> set ms \<Longrightarrow> no_nul (fst m) \<and> (\<exists>c t. txt m = c # t \<and> 32 < (of_char c :: nat))" "length ms \<le> f"
  shows "\<exists>cs n'. parse_object p mem_ok f (object_text fmt (Suc depth) (map (\<lambda>m. (quoted (fst m), txt m)) ms) @ r) n = JOk cs r n' \<and> list_all2 member_rep ms cs"
proof -
  let ?w = "if fmt then [NL] else []" and ?w2 = "(if fmt \<and> ms \<noteq> [] then [NL] else []) @ (if fmt then replicate depth TAB else [])"
  let ?mt = "\<lambda>m. member_text fmt (Suc depth) (quoted (fst m), txt m)"
  have b: "blank ?w" "blank ?w2" by simp_all
  have rm: "reads (parse_member p mem_ok) (member_rep m) (w @ ?mt m)" if m: "m \<in> set ms" "blank w" for m w
  proof -
    from assms(2) [OF m(1)] obtain a t where "no_nul (fst m)" "txt m = a # t" "32 < (of_char a :: nat)" by blast
    from member_text_reads [of p m "txt m", OF assms(1) [OF m(1)] this m(2)] show ?thesis .
  qed
  show ?thesis
  proof (cases ms)
    case Nil
    then have "parse_object p mem_ok f (object_text fmt (Suc depth) (map (\<lambda>m. (quoted (fst m), txt m)) ms) @ r) n = JOk [] r n"
      using skip_blank_start [of "?w @ (if fmt then replicate depth TAB else [])" "CHR ''}''" r] b
      by (cases fmt) (simp_all add: parse_object_def object_text_def join_def Let_def skip_start)
    with Nil show ?thesis by simp
  next
    case (Cons m ms')
    let ?s = "concat (map (\<lambda>m. (CHR '','' # ?w) @ ?mt m) ms') @ ?w2 @ CHR ''}'' # r"
    have sep: "(if fmt then [CHR '','', NL] else '','') = CHR '','' # ?w" by simp
    have tx: "object_text fmt (Suc depth) (map (\<lambda>m. (quoted (fst m), txt m)) ms) @ r = CHR ''{'' # ?w @ ?mt m @ ?s"
      unfolding object_text_def join_def sep by (simp add: Cons comp_def)
    have e: "ends_number ?s" using b by (cases ms') (simp_all add: ends_number_blank)
    from member_text_quote obtain t where t: "skip (?mt m @ ?s) = CHR 0x22 # t" by blast
    have sk: "skip (?w @ ?mt m @ ?s) = CHR 0x22 # t" using t skip_blank [OF b(1)] by simp
    have "reads (parse_member p mem_ok) (member_rep m) ([] @ ?mt m)" by (rule rm) (use Cons in simp_all)
    from readsD [OF this [unfolded append_Nil] e, of "Suc n"] obtain c n1 where "parse_member p mem_ok (?mt m @ ?s) (Suc n) = JOk c ?s n1" "member_rep m c" by blast
    then have c: "parse_member p mem_ok (CHR 0x22 # t) (Suc n) = JOk c ?s n1" "member_rep m c"
      using parse_member_skip [of p mem_ok "?mt m @ ?s"] t by simp_all
    have "\<exists>cs n'. object_loop p mem_ok f [c] (skip ?s) n1 = JOk ([c] @ cs) r n' \<and> list_all2 member_rep ms' cs"
      by (rule object_loop_reads [OF b(2)]) (use rm b(1) Cons assms(3) in auto)
    then obtain cs n' where "object_loop p mem_ok f [c] (skip ?s) n1 = JOk ([c] @ cs) r n'" "list_all2 member_rep ms' cs" by blast
    then have "parse_object p mem_ok f (object_text fmt (Suc depth) (map (\<lambda>m. (quoted (fst m), txt m)) ms) @ r) n = JOk (c # cs) r n' \<and>
        list_all2 member_rep ms (c # cs)"
      unfolding tx using c sk Cons by (simp add: parse_object_def Let_def)
    then show ?thesis by blast
  qed
qed

text \<open>The elements of a composed text are shorter than the text.\<close>

lemma concat_sep_length: "t \<in> set ts \<Longrightarrow> length t \<le> length (concat (map (\<lambda>t. sep @ t) ts))"
  by (induction ts) auto

lemma join_elem_length:
  assumes "t \<in> set ts"
  shows "length t \<le> length (join sep ts)"
proof (cases ts)
  case (Cons u us)
  with assms have "t = u \<or> length t \<le> length (concat (map (\<lambda>t. sep @ t) us))" using concat_sep_length [of t us sep] by auto
  with Cons show ?thesis by (auto simp: join_def)
qed (use assms in simp)

lemma concat_sep_count: "list_all (\<lambda>t. t \<noteq> []) ts \<Longrightarrow> length ts \<le> length (concat (map (\<lambda>t. sep @ t) ts))"
proof (induction ts)
  case (Cons u us)
  then show ?case by (cases u) auto
qed simp

lemma join_count: "list_all (\<lambda>t. t \<noteq> []) ts \<Longrightarrow> length ts \<le> length (join sep ts)"
proof (cases ts)
  case (Cons u us)
  assume "list_all (\<lambda>t. t \<noteq> []) ts"
  with Cons concat_sep_count [of us sep] show ?thesis by (cases u) (auto simp: join_def)
qed simp

lemma json_text_nonempty: "json_text fmt depth j \<noteq> []"
  using json_text_start [of fmt depth j] by auto

lemma array_text_lengths:
  assumes "length (array_text fmt (map (json_text fmt d) js)) < Suc f"
  shows "length js \<le> f" "j \<in> set js \<Longrightarrow> length (json_text fmt d j) < f"
proof -
  let ?sep = "if fmt then '', '' else '',''"
  have l: "length (array_text fmt (map (json_text fmt d) js)) = length (join ?sep (map (json_text fmt d) js)) + 2" by (simp add: array_text_def)
  have "length (map (json_text fmt d) js) \<le> length (join ?sep (map (json_text fmt d) js))"
    by (rule join_count) (simp add: list_all_iff json_text_nonempty)
  with l assms show "length js \<le> f" by simp
  show "j \<in> set js \<Longrightarrow> length (json_text fmt d j) < f"
    using join_elem_length [of "json_text fmt d j" "map (json_text fmt d) js" ?sep] l assms by auto
qed

lemma object_text_lengths:
  assumes "length (object_text fmt d (map (\<lambda>m. (quoted (fst m), json_text fmt d (snd m))) ms)) < Suc f"
  shows "length ms \<le> f" "m \<in> set ms \<Longrightarrow> length (json_text fmt d (snd m)) < f"
proof -
  let ?sep = "if fmt then [CHR '','', NL] else '',''" and ?mt = "\<lambda>m. member_text fmt d (quoted (fst m), json_text fmt d (snd m))"
  have l: "length (join ?sep (map ?mt ms)) + 2 < Suc f" using assms by (simp add: object_text_def comp_def)
  have "length (map ?mt ms) \<le> length (join ?sep (map ?mt ms))" by (rule join_count) (simp add: list_all_iff member_text_def)
  with l show "length ms \<le> f" by simp
  assume m: "m \<in> set ms"
  have "length (json_text fmt d (snd m)) \<le> length (?mt m)" by (simp add: member_text_def)
  with join_elem_length [of "?mt m" "map ?mt ms" ?sep] l m show "length (json_text fmt d (snd m)) < f" by simp
qed

section \<open>Values that were printed\<close>

lemma list_all2_in: "list_all2 P xs ys \<Longrightarrow> x \<in> set xs \<Longrightarrow> \<exists>y. P x y"
  by (induction rule: list_all2_induct) auto

lemma set_fields [simp]:
  "cj_name (set_type t c) = cj_name c" "cj_name (set_vint i c) = cj_name c" "cj_name (set_number d i c) = cj_name c"
  "cj_name (set_string s c) = cj_name c" "cj_name (set_child cs c) = cj_name c"
  "cj_type (set_type t c) = t" "cj_type (set_vint i c) = cj_type c" "cj_type (set_number d i c) = cJSON_Number" "cj_type (set_string s c) = cJSON_String"
  "cj_type (set_child cs c) = cj_type c" "cj_child (set_child cs c) = cs" "cj_vstr (set_string s c) = Some s"
  "cj_vint (set_number d i c) = i" "cj_vdbl (set_number d i c) = d"
  by (cases c; simp)+

lemma parse_value_array_reads:
  assumes "\<And>j. j \<in> set js \<Longrightarrow> reads (parse_value fe mem_ok f new_item) (rep j) (txt j) \<and> (\<exists>c t. txt j = c # t \<and> 32 < (of_char c :: nat) \<and> c \<noteq> CHR '']'')"
    and "length js \<le> f"
  shows "reads (parse_value fe mem_ok (Suc f) item) (\<lambda>c. rep (JArray js) c \<and> cj_name c = cj_name item) (array_text fmt (map txt js))"
  unfolding reads_def
proof (intro allI impI)
  fix n r
  from parse_array_reads [of js _ "txt", OF assms] obtain cs n' where
    cs: "parse_array (parse_value fe mem_ok f new_item) mem_ok f (array_text fmt (map txt js) @ r) n = JOk cs r n'" "list_all2 rep js cs" by blast
  obtain t where t: "array_text fmt (map txt js) @ r = CHR ''['' # t" by (simp add: array_text_def)
  have "parse_value fe mem_ok (Suc f) item (array_text fmt (map txt js) @ r) n = JOk (set_child cs (set_type cJSON_Array item)) r n'"
    using cs(1) unfolding t by (simp add: parse_value_other is_digit_def del: parse_value.simps)
  with cs(2) show "\<exists>c n'. parse_value fe mem_ok (Suc f) item (array_text fmt (map txt js) @ r) n = JOk c r n' \<and> rep (JArray js) c \<and> cj_name c = cj_name item"
    by (simp add: cJSON_types)
qed

lemma parse_value_object_reads:
  assumes "\<And>m item. m \<in> set ms \<Longrightarrow> reads (parse_value fe mem_ok f item) (\<lambda>c. rep (snd m) c \<and> cj_name c = cj_name item) (txt m)"
    and "\<And>m. m \<in> set ms \<Longrightarrow> no_nul (fst m) \<and> (\<exists>c t. txt m = c # t \<and> 32 < (of_char c :: nat))" "length ms \<le> f"
  shows "reads (parse_value fe mem_ok (Suc f) item) (\<lambda>c. rep (JObject ms) c \<and> cj_name c = cj_name item)
    (object_text fmt (Suc depth) (map (\<lambda>m. (quoted (fst m), txt m)) ms))"
  unfolding reads_def
proof (intro allI impI)
  fix n r
  let ?o = "object_text fmt (Suc depth) (map (\<lambda>m. (quoted (fst m), txt m)) ms)"
  from parse_object_reads [of ms "parse_value fe mem_ok f" "txt", OF assms] obtain cs n' where
    cs: "parse_object (parse_value fe mem_ok f) mem_ok f (?o @ r) n = JOk cs r n'" "list_all2 member_rep ms cs" by blast
  obtain t where t: "?o @ r = CHR ''{'' # t" by (simp add: object_text_def)
  have "parse_value fe mem_ok (Suc f) item (?o @ r) n = JOk (set_child cs (set_type cJSON_Object item)) r n'"
    using cs(1) unfolding t by (simp add: parse_value_other is_digit_def del: parse_value.simps)
  with cs(2) show "\<exists>c n'. parse_value fe mem_ok (Suc f) item (?o @ r) n = JOk c r n' \<and> rep (JObject ms) c \<and> cj_name c = cj_name item"
    by (simp add: cJSON_types)
qed

lemma parse_rep:
  assumes "fenv_ok fe"
  shows "\<exists>c. rep j c \<Longrightarrow> length (json_text fmt depth j) < f \<Longrightarrow>
    reads (parse_value fe mem_ok f item) (\<lambda>c. rep j c \<and> cj_name c = cj_name item) (json_text fmt depth j)"
proof (induction j arbitrary: depth f item)
  case JNull
  then obtain f' where "f = Suc f'" by (cases f) auto
  then show ?case by (simp add: reads_def cstr_def numeral_eq_Suc cJSON_types)
next
  case (JBool b)
  then obtain f' where "f = Suc f'" by (cases f) auto
  then show ?case by (cases b) (simp_all add: reads_def cstr_def numeral_eq_Suc cJSON_types)
next
  case (JInt i)
  then obtain f' where f: "f = Suc f'" by (cases f) auto
  from JInt.prems(1) have i: "INT_MIN \<le> i" "i \<le> INT_MAX" by auto
  from dec_int_start [of i] obtain c t where ct: "dec_int i = c # t" "c = CHR ''-'' \<or> is_digit c" by blast
  then have c: "c \<notin> set ''nft''" "c \<noteq> CHR 0x22" using is_digit_high [of c] by auto
  have "parse_value fe mem_ok f item (dec_int i @ r) n = JOk (set_number (Fin (of_int i)) i item) r n" if "ends_number r" for n r
    using parse_number_dec [OF assms i that] c ct f by (simp add: parse_value_other del: parse_value.simps)
  with i show ?case by (simp add: reads_def cJSON_types)
next
  case (JString s)
  then obtain f' where f: "f = Suc f'" by (cases f) auto
  from JString.prems(1) have s: "no_nul s" by auto
  have "parse_value fe mem_ok f item (quoted s @ r) n = JOk (set_string s item) r (Suc n)" for n r
    using parse_string_print [OF s, of mem_ok n r] f by (simp add: parse_value_other del: parse_value.simps)
  with s show ?case by (simp add: reads_def cJSON_types)
next
  case (JArray js)
  then obtain f' where f: "f = Suc f'" by (cases f) auto
  let ?t = "json_text fmt (depth + 1)"
  note len = array_text_lengths [OF JArray.prems(2) [unfolded f json_text.simps]]
  have "reads (parse_value fe mem_ok f' new_item) (rep j) (?t j)" if "j \<in> set js" for j
  proof -
    have "\<exists>c. rep j c" using JArray.prems(1) list_all2_in [of rep js _ j] that by auto
    from JArray.IH [OF that this len(2) [OF that], of new_item] show ?thesis unfolding reads_def by blast
  qed
  then show ?case unfolding f json_text.simps by (intro parse_value_array_reads [OF _ len(1)] conjI json_text_start)
next
  case (JObject ms)
  then obtain f' where f: "f = Suc f'" by (cases f) auto
  let ?t = "\<lambda>m. json_text fmt (Suc depth) (snd m)"
  from JObject.prems(2) have "length (object_text fmt (Suc depth) (map (\<lambda>m. (quoted (fst m), ?t m)) ms)) < Suc f'" unfolding f by simp
  note len = object_text_lengths [OF this]
  have ex: "\<exists>c. member_rep m c" if "m \<in> set ms" for m
    using JObject.prems(1) list_all2_in [of member_rep ms _ m] that by auto
  have "reads (parse_value fe mem_ok f' item) (\<lambda>c. rep (snd m) c \<and> cj_name c = cj_name item) (?t m)" if m: "m \<in> set ms" for m item
    by (rule JObject.IH [OF m _ _ len(2) [OF m]]) (use ex [OF m] in \<open>cases m; auto\<close>)+
  moreover have "no_nul (fst m) \<and> (\<exists>c t. ?t m = c # t \<and> 32 < (of_char c :: nat))" if "m \<in> set ms" for m
    using ex [OF that] json_text_start by blast
  ultimately show ?case unfolding f json_text.simps Suc_eq_plus1 [symmetric] by (rule parse_value_object_reads [OF _ _ len(1)])
qed

section \<open>Requests\<close>

text \<open>
  \<open>json_parse_data\<close> of \<open>packages/json/duda_package.c\<close>: the body of a request is copied, followed by a
  zero byte, and parsed. \<open>copied\<close> says whether the copy could be allocated; the error value stands for
  a \<open>NULL\<close> tree.
\<close>

definition json_parse_data :: "fenv \<Rightarrow> (nat \<Rightarrow> bool) \<Rightarrow> bool \<Rightarrow> http_request \<Rightarrow> nat \<Rightarrow> cjson jres" where
  "json_parse_data fe ok copied r n =
     (if \<not> duda_request_is_data r then JErr None n
      else jlift (duda_request_get_data copied (Some r) 0) (\<lambda>(data, len).
             case data of None \<Rightarrow> JErr None n | Some d \<Rightarrow> cJSON_Parse fe ok (Some d) n))"

lemma str_count_plain_end:
  "list_all (\<lambda>c. c \<noteq> CHR 0x22 \<and> c \<noteq> CHR 0x5C \<and> c \<noteq> NUL) t \<Longrightarrow> str_count (t @ [CHR 0x5C, NUL]) = Inl OutOfBounds"
  by (induction t) auto

lemma parse_value_open_string:
  assumes "list_all (\<lambda>c. c \<noteq> CHR 0x22 \<and> c \<noteq> CHR 0x5C \<and> c \<noteq> NUL) t"
  shows "parse_value fe ok (Suc f) item (CHR 0x22 # t @ [CHR 0x5C, NUL]) n = JFault OutOfBounds"
  using str_count_plain_end [OF assms] by (simp add: parse_value_other parse_string_def del: parse_value.simps)

section \<open>Properties\<close>



text \<open>
  C19. The parser returns for every text: the fuel \<open>cJSON_Parse\<close> is given, the length of the text, is
  never used up, whatever the text is and whichever allocations fail.
\<close>

theorem cJSON_Parse_terminates: "cJSON_Parse fe ok str n \<noteq> JFuel"
proof (cases str)
  case (Some s)
  have "length (skip s) < Suc (length s)" using skip_length [of s] by simp
  with parse_value_enough [of "Suc (length s)" fe ok new_item] have "parse_value fe ok (Suc (length s)) new_item (skip s) (Suc n) \<noteq> JFuel"
    unfolding fuelled_def by blast
  with Some show ?thesis by (simp add: cJSON_Parse_def)
qed (simp add: cJSON_Parse_def)

text \<open>
  C33. A client can make the service read outside the copy of the request body: for a body that opens
  a string and ends with a backslash, the loop that measures the string steps over the zero byte
  that ends the copy.
\<close>

theorem json_parse_data_overread:
  assumes "duda_request_is_data r" "ptr_data (hr_data r) = Some d" "ptr_len (hr_data r) \<le> length d"
    and "ptr_text (hr_data r) = CHR 0x22 # t @ [CHR 0x5C]" "list_all (\<lambda>c. c \<noteq> CHR 0x22 \<and> c \<noteq> CHR 0x5C \<and> c \<noteq> NUL) t" "ok n"
  shows "json_parse_data fe ok True r n = JFault OutOfBounds"
proof -
  have "duda_request_get_data True (Some r) 0 = Inr (Some (CHR 0x22 # t @ [CHR 0x5C, NUL]), ptr_len (hr_data r))"
    using get_data_text [OF assms(2,3)] by (simp add: assms(4) cstr_def)
  moreover have "skip (CHR 0x22 # t @ [CHR 0x5C, NUL]) = CHR 0x22 # t @ [CHR 0x5C, NUL]" by (rule skip_start) simp
  ultimately show ?thesis using assms(1,6) parse_value_open_string [OF assms(5)]
    by (simp add: json_parse_data_def cJSON_Parse_def del: parse_value.simps)
qed

theorem json_parse_data_overread_witness:
  "json_parse_data exact_fenv mem_ok True
     \<lparr>hr_method = MK_METHOD_POST, hr_content_length = 3, hr_content_type = \<lparr>ptr_data = None, ptr_len = 0\<rparr>,
      hr_data = \<lparr>ptr_data = Some [CHR 0x22, CHR ''a'', CHR 0x5C], ptr_len = 3\<rparr>\<rparr> 0 = JFault OutOfBounds"
  by (rule json_parse_data_overread [where t = "''a''" and d = "[CHR 0x22, CHR ''a'', CHR 0x5C]"])
    (simp_all add: duda_request_is_data_def ptr_text_def)

end
