(* ===== verification/Duda_Cjson_Wf.thy ===== *)
theory Duda_Cjson_Wf
  imports Duda_Cjson
begin

text \<open>
  The trees the parser of \<open>cJSON.c\<close> builds are well-formed: which fields of a structure are set goes with
  its type.
\<close>

fun wf_cjson :: "fenv \<Rightarrow> cjson \<Rightarrow> bool" where
  "wf_cjson fe (CJ ty vs vi vd nm ch) \<longleftrightarrow>
     ty \<in> {0 .. 6} \<and> (vs \<noteq> None \<longleftrightarrow> ty = cJSON_String) \<and> (ch \<noteq> [] \<longrightarrow> ty = cJSON_Array \<or> ty = cJSON_Object) \<and>
     (ty = cJSON_True \<longrightarrow> vi = 1) \<and> (ty = cJSON_Number \<longrightarrow> vi = fl_to_int fe vd) \<and>
     (ty = cJSON_Object \<longrightarrow> (\<forall>c \<in> set ch. cj_name c \<noteq> None)) \<and> (\<forall>c \<in> set ch. wf_cjson fe c)"

definition fresh_item :: "cjson \<Rightarrow> bool" where
  "fresh_item c \<longleftrightarrow> cj_vstr c = None \<and> cj_child c = []"

lemma fresh_new_item: "fresh_item new_item" "fresh_item (string_to_name (set_string s new_item))" "cj_name (string_to_name (set_string s new_item)) \<noteq> None"
  by (simp_all add: fresh_item_def new_item_def)

lemma array_loop_all:
  assumes "\<And>s n c r m. p s n = JOk c r m \<Longrightarrow> P c"
  shows "array_loop p ok f acc s n = JOk cs r m \<Longrightarrow> \<forall>c \<in> set acc. P c \<Longrightarrow> \<forall>c \<in> set cs. P c"
proof (induction f arbitrary: acc s n)
  case (Suc f)
  then have "cs = acc \<or> (\<exists>y t k. p (skip (tl s)) (Suc n) = JOk y t k \<and> array_loop p ok f (acc @ [y]) (skip t) k = JOk cs r m)"
    by (auto simp: jlift_eq_JOk jbind_eq_JOk split: if_splits)
  then show ?case
  proof (elim disjE exE conjE)
    fix y t k
    assume y: "p (skip (tl s)) (Suc n) = JOk y t k" and l: "array_loop p ok f (acc @ [y]) (skip t) k = JOk cs r m"
    show ?thesis by (rule Suc.IH [OF l]) (use Suc.prems(2) assms [OF y] in auto)
  qed (use Suc.prems in simp)
qed simp

lemma parse_array_all:
  assumes "\<And>s n c r m. p s n = JOk c r m \<Longrightarrow> P c" "parse_array p ok f s n = JOk cs r m"
  shows "\<forall>c \<in> set cs. P c"
proof -
  from assms(2) have "cs = [] \<or> (\<exists>y t k. p (skip (skip (tl s))) (Suc n) = JOk y t k \<and> array_loop p ok f [y] (skip t) k = JOk cs r m)"
    by (auto simp: parse_array_def jlift_eq_JOk jbind_eq_JOk Let_def split: if_splits)
  then show ?thesis
  proof (elim disjE exE conjE)
    fix y t k
    assume y: "p (skip (skip (tl s))) (Suc n) = JOk y t k" and l: "array_loop p ok f [y] (skip t) k = JOk cs r m"
    show ?thesis by (rule array_loop_all [OF assms(1) l]) (use assms(1) [OF y] in auto)
  qed simp
qed

lemma parse_member_sat:
  assumes "\<And>item s n c r m. fresh_item item \<Longrightarrow> p item s n = JOk c r m \<Longrightarrow> P c \<and> cj_name c = cj_name item" "parse_member p ok s n = JOk c r m"
  shows "P c \<and> cj_name c \<noteq> None"
proof -
  from assms(2) obtain nm s1 n1 where
    "p (string_to_name (set_string nm new_item)) (skip (tl (skip s1))) n1 = JOk c r m"
    by (auto simp: parse_member_def jbind_eq_JOk jlift_eq_JOk Let_def split: if_splits)
  from assms(1) [OF fresh_new_item(2) this] fresh_new_item(3) show ?thesis by simp
qed

lemma object_loop_all:
  assumes "\<And>s n c r m. parse_member p ok s n = JOk c r m \<Longrightarrow> P c"
  shows "object_loop p ok f acc s n = JOk cs r m \<Longrightarrow> \<forall>c \<in> set acc. P c \<Longrightarrow> \<forall>c \<in> set cs. P c"
proof (induction f arbitrary: acc s n)
  case (Suc f)
  then have "cs = acc \<or> (\<exists>y t k. parse_member p ok (tl s) (Suc n) = JOk y t k \<and> object_loop p ok f (acc @ [y]) (skip t) k = JOk cs r m)"
    by (auto simp: jlift_eq_JOk jbind_eq_JOk split: if_splits)
  then show ?case
  proof (elim disjE exE conjE)
    fix y t k
    assume y: "parse_member p ok (tl s) (Suc n) = JOk y t k" and l: "object_loop p ok f (acc @ [y]) (skip t) k = JOk cs r m"
    show ?thesis by (rule Suc.IH [OF l]) (use Suc.prems(2) assms [OF y] in auto)
  qed (use Suc.prems in simp)
qed simp

lemma parse_object_all:
  assumes "\<And>s n c r m. parse_member p ok s n = JOk c r m \<Longrightarrow> P c" "parse_object p ok f s n = JOk cs r m"
  shows "\<forall>c \<in> set cs. P c"
proof -
  from assms(2) have "cs = [] \<or> (\<exists>y t k. parse_member p ok (skip (tl s)) (Suc n) = JOk y t k \<and> object_loop p ok f [y] (skip t) k = JOk cs r m)"
    by (auto simp: parse_object_def jlift_eq_JOk jbind_eq_JOk Let_def split: if_splits)
  then show ?thesis
  proof (elim disjE exE conjE)
    fix y t k
    assume y: "parse_member p ok (skip (tl s)) (Suc n) = JOk y t k" and l: "object_loop p ok f [y] (skip t) k = JOk cs r m"
    show ?thesis by (rule object_loop_all [OF assms(1) l]) (use assms(1) [OF y] in auto)
  qed simp
qed

lemma parse_number_int: "parse_number fe s = Inr (d, i, r) \<Longrightarrow> i = fl_to_int fe d"
  by (auto simp: parse_number_def run_bind_eq_Inr Let_def)

lemma parse_value_cases:
  assumes "parse_value fe ok (Suc f) item s n = JOk c r m"
  shows "c = set_type cJSON_NULL item \<or> c = set_type cJSON_False item \<or> c = set_vint 1 (set_type cJSON_True item) \<or> (\<exists>t. c = set_string t item) \<or>
    (\<exists>d i. c = set_number d i item \<and> parse_number fe s = Inr (d, i, r)) \<or>
    (\<exists>cs k. c = set_child cs (set_type cJSON_Array item) \<and> parse_array (parse_value fe ok f new_item) ok f s n = JOk cs r k) \<or>
    (\<exists>cs k. c = set_child cs (set_type cJSON_Object item) \<and> parse_object (parse_value fe ok f) ok f s n = JOk cs r k)"
proof -
  from assms obtain b1 where b1: "strncmp_eq s (cstr ''null'') 4 = Inr b1" by (cases "strncmp_eq s (cstr ''null'') 4") simp_all
  from assms b1 obtain b2 where b2: "b1 \<or> strncmp_eq s (cstr ''false'') 5 = Inr b2" by (cases b1; cases "strncmp_eq s (cstr ''false'') 5") simp_all
  from assms b1 b2 obtain b3 where b3: "b1 \<or> b2 \<or> strncmp_eq s (cstr ''true'') 4 = Inr b3"
    by (cases b1; cases b2; cases "strncmp_eq s (cstr ''true'') 4") simp_all
  show ?thesis
  proof (cases "b1 \<or> b2 \<or> b3")
    case True
    with assms b1 b2 b3 show ?thesis by (cases b1; cases b2; cases b3) simp_all
  next
    case False
    with assms b1 b2 b3 have v: "jlift (rd s 0) (\<lambda>x.
       if x = CHR 0x22 then jbind (parse_string ok s n) (\<lambda>t r n. JOk (set_string t item) r n)
       else if x = CHR ''-'' \<or> is_digit x then jlift (parse_number fe s) (\<lambda>(d, i, r). JOk (set_number d i item) r n)
       else if x = CHR ''['' then
         jbind (parse_array (parse_value fe ok f new_item) ok f s n) (\<lambda>cs r n. JOk (set_child cs (set_type cJSON_Array item)) r n)
       else if x = CHR ''{'' then
         jbind (parse_object (parse_value fe ok f) ok f s n) (\<lambda>cs r n. JOk (set_child cs (set_type cJSON_Object item)) r n)
       else JErr (Some s) n) = JOk c r m" by simp
    then obtain x where x: "rd s 0 = Inr x" by (cases "rd s 0") simp_all
    consider "x = CHR 0x22" | "x \<noteq> CHR 0x22" "x = CHR ''-'' \<or> is_digit x" | "x \<noteq> CHR 0x22" "\<not> (x = CHR ''-'' \<or> is_digit x)" "x = CHR ''[''" |
      "x \<noteq> CHR 0x22" "\<not> (x = CHR ''-'' \<or> is_digit x)" "x \<noteq> CHR ''[''" by blast
    then show ?thesis
    proof cases
      case 1
      with v x show ?thesis by (simp only: jlift_simps if_True) (auto simp: jbind_eq_JOk)
    next
      case 2
      with v x show ?thesis by (simp only: jlift_simps if_True if_False) (auto simp: jlift_eq_JOk)
    next
      case 3
      with v x show ?thesis by (simp only: jlift_simps if_True if_False) (auto simp: jbind_eq_JOk)
    next
      case 4
      with v x show ?thesis by (simp only: jlift_simps if_False) (auto simp: jbind_eq_JOk split: if_splits)
    qed
  qed
qed

lemma parse_value_wf: "fresh_item item \<Longrightarrow> parse_value fe ok f item s n = JOk c r m \<Longrightarrow> wf_cjson fe c \<and> cj_name c = cj_name item"
proof (induction f arbitrary: item s n c r m)
  case (Suc f)
  obtain ty vi vd nm where item: "item = CJ ty None vi vd nm []" using Suc.prems(1) by (cases item) (auto simp: fresh_item_def)
  have a: "\<forall>c \<in> set cs. wf_cjson fe c" if "parse_array (parse_value fe ok f new_item) ok f s n = JOk cs r k" for cs k
    by (rule parse_array_all [OF _ that]) (use Suc.IH [OF fresh_new_item(1)] in blast)
  have o1: "\<forall>c \<in> set cs. wf_cjson fe c \<and> cj_name c \<noteq> None" if "parse_object (parse_value fe ok f) ok f s n = JOk cs r k" for cs k
    by (rule parse_object_all [OF _ that]) (rule parse_member_sat [of "parse_value fe ok f"], (use Suc.IH in blast), assumption)
  from parse_value_cases [OF Suc.prems(2)] show ?case
    by (elim disjE exE conjE) (use a o1 parse_number_int [of fe s _ _ r] in \<open>auto simp: item cJSON_types\<close>)
qed simp

text \<open>
  C20. Every tree the parser returns is well-typed: each structure has one of the seven types, a
  \<open>valuestring\<close> exactly if it is a string, children only if it is an array or an object, a \<open>valueint\<close>
  that goes with its type, and every child of an object has a name.
\<close>

theorem cJSON_Parse_wf: "cJSON_Parse fe ok str n = JOk c r m \<Longrightarrow> wf_cjson fe c"
  using parse_value_wf [OF fresh_new_item(1)] unfolding cJSON_Parse_def by (auto split: if_splits option.splits simp del: parse_value.simps)

definition int_fenv :: fenv where
  "int_fenv = \<lparr>fl_rnd = Fin, fl_pow10 = (\<lambda>_. Fin 1), fl_to_int = (\<lambda>d. case d of Fin a \<Rightarrow> \<lfloor>a\<rfloor> | _ \<Rightarrow> 0), fl_fmt_e = (\<lambda>_. []), fl_fmt_f = (\<lambda>_. [])\<rparr>"

theorem cJSON_Parse_wf_witness:
  "\<exists>c r m. cJSON_Parse int_fenv (\<lambda>_. True) (Some (cstr ''[true]'')) 0 = JOk c r m \<and> wf_cjson int_fenv c"
proof -
  have "\<exists>c r m. cJSON_Parse int_fenv (\<lambda>_. True) (Some (cstr ''[true]'')) 0 = JOk c r m"
    by (simp add: cJSON_Parse_def cstr_def skip_def parse_array_def numeral_eq_Suc is_digit_def)
  with cJSON_Parse_wf show ?thesis by blast
qed

end
