(* ===== verification/Duda_Cookie.thy ===== *)
theory Duda_Cookie
  imports Duda_Prelude
begin

text \<open>
  \<open>lib/objects/duda_cookie.c\<close>: setting, reading and comparing cookies. Monkey's vectors of blocks,
  its search routines and its header lookup are arguments.
\<close>

definition COOKIE_EXPIRE_TIME :: int where "COOKIE_EXPIRE_TIME = 337606980"
definition COOKIE_SET :: string where "COOKIE_SET = ''Set-Cookie: ''"
definition COOKIE_DELETED :: string where "COOKIE_DELETED = ''deleted''"

text \<open>The blocks set up by \<open>duda_mem_init\<close>.\<close>

definition dd_cookie_equal :: string where "dd_cookie_equal = ''=''"
definition dd_cookie_path :: string where "dd_cookie_path = ''; path=/''"

text \<open>
  Monkey's routines: \<open>iov_create\<close> (\<open>None\<close> when it fails), \<open>iov_add\<close>, \<open>time_to_gmt\<close> (which writes to
  the block it is given and returns a length), \<open>str_search\<close> (the position of a text in a string,
  \<open>None\<close> for -1) and \<open>str_search_n\<close> (the same within a number of bytes).
\<close>

record 'iov mk_cookie_api =
  ck_iov_create :: "'iov option"
  ck_iov_add :: "'iov option \<Rightarrow> string \<Rightarrow> 'iov option run"
  ck_time_to_gmt :: "int \<Rightarrow> int run"
  ck_str_search :: "string \<Rightarrow> string \<Rightarrow> nat option"
  ck_str_search_n :: "string \<Rightarrow> string \<Rightarrow> int \<Rightarrow> nat option"

primrec iov_adds :: "('iov option \<Rightarrow> string \<Rightarrow> 'iov option run) \<Rightarrow> string list \<Rightarrow> 'iov option \<Rightarrow> 'iov option run" where
  "iov_adds add [] rows = Inr rows"
| "iov_adds add (b # bs) rows = run_bind (add rows b) (iov_adds add bs)"

text \<open>
  \<open>rows\<close> is \<open>_extra_rows\<close>. The blocks after the path are commented out in the three ends of the
  function, so the expiration time and the end of the row are never added.
\<close>

definition duda_cookie_set :: "'iov mk_cookie_api \<Rightarrow> string \<Rightarrow> nat \<Rightarrow> string \<Rightarrow> nat \<Rightarrow> int \<Rightarrow> 'iov option \<Rightarrow> (int \<times> 'iov option) run" where
  "duda_cookie_set api key key_len val val_len expires rows =
     (let rows = (if rows = None then ck_iov_create api else rows)
      in run_bind (iov_adds (ck_iov_add api)
             [COOKIE_SET, take key_len key, dd_cookie_equal, take val_len val, dd_cookie_path] rows) (\<lambda>rows.
         if expires = COOKIE_EXPIRE_TIME then Inr (0, rows)
         else if expires > 0 then run_bind (ck_time_to_gmt api expires) (\<lambda>_. Inr (0, rows))
         else Inr (0, rows)))"

definition duda_cookie_destroy :: "'iov mk_cookie_api \<Rightarrow> string \<Rightarrow> nat \<Rightarrow> 'iov option \<Rightarrow> (int \<times> 'iov option) run" where
  "duda_cookie_destroy api key key_len rows =
     duda_cookie_set api key key_len COOKIE_DELETED (length COOKIE_DELETED) COOKIE_EXPIRE_TIME rows"

text \<open>The loop that looks for the end of the value.\<close>

function cookie_end :: "string \<Rightarrow> nat \<Rightarrow> nat \<Rightarrow> nat run" where
  "cookie_end cookie len i =
     (if i < len then run_bind (rd cookie i) (\<lambda>c. if c = CHR '';'' then Inr i else cookie_end cookie len (Suc i))
      else Inr i)"
  by pat_completeness auto
termination
  by (relation "measure (\<lambda>(cookie, len, i). len - i)") auto

declare cookie_end.simps [simp del]

text \<open>
  The \<open>Cookie\<close> header is its memory and its length, \<open>None\<close> if the request has none. The result is the
  value, as the memory from its first byte on and its length; \<open>None\<close> stands for -1.
\<close>

type_synonym cookie_header = "(string \<times> nat) option"

definition duda_cookie_get :: "'iov mk_cookie_api \<Rightarrow> cookie_header \<Rightarrow> string \<Rightarrow> (string \<times> nat) option run" where
  "duda_cookie_get api header key =
     (case header of None \<Rightarrow> Inr None
      | Some (cookie, len) \<Rightarrow>
          (case ck_str_search api cookie key of None \<Rightarrow> Inr None
           | Some pos_key \<Rightarrow>
               (case ck_str_search_n api (drop pos_key cookie) ''='' (int len - int pos_key) of None \<Rightarrow> Inr None
                | Some pos_val \<Rightarrow>
                    (let offset = pos_key + Suc pos_val
                     in run_bind (cookie_end cookie len offset) (\<lambda>i.
                          Inr (Some (drop offset cookie, i - offset)))))))"

text \<open>\<open>cmp\<close> is the memory of a C string.\<close>

definition duda_cookie_cmp :: "'iov mk_cookie_api \<Rightarrow> cookie_header \<Rightarrow> string \<Rightarrow> string \<Rightarrow> int run" where
  "duda_cookie_cmp api header key cmp =
     run_bind (duda_cookie_get api header key) (\<lambda>res.
       case res of None \<Rightarrow> Inr (-1)
       | Some (v, val_len) \<Rightarrow>
           if strlen cmp \<noteq> val_len then Inr (-1)
           else run_bind (strncmp_eq v cmp val_len) (\<lambda>eq. Inr (if eq then 0 else -1)))"

section \<open>Writing a cookie\<close>

text \<open>What a vector holds as text, and that \<open>iov_add\<close> appends to it.\<close>

definition mk_iov_appends :: "'iov mk_cookie_api \<Rightarrow> ('iov \<Rightarrow> string) \<Rightarrow> bool" where
  "mk_iov_appends api txt \<longleftrightarrow>
     (\<forall>v b. \<exists>v'. ck_iov_add api (Some v) b = Inr (Some v') \<and> txt v' = txt v @ b) \<and>
     (\<exists>v. ck_iov_create api = Some v \<and> txt v = []) \<and> (\<forall>e. \<exists>n. ck_time_to_gmt api e = Inr n)"

lemma iov_adds_text:
  assumes "mk_iov_appends api txt"
  shows "\<exists>v'. iov_adds (ck_iov_add api) bs (Some v) = Inr (Some v') \<and> txt v' = txt v @ concat bs"
proof (induction bs arbitrary: v)
  case Nil
  show ?case by simp
next
  case (Cons b bs)
  from assms obtain u where "ck_iov_add api (Some v) b = Inr (Some u)" "txt u = txt v @ b"
    unfolding mk_iov_appends_def by metis
  with Cons.IH [of u] show ?case by auto
qed

lemma duda_cookie_set_row:
  assumes "mk_iov_appends api txt"
  shows "\<exists>v. duda_cookie_set api key (length key) val (length val) expires rows = Inr (0, Some v) \<and>
    txt v = (case rows of None \<Rightarrow> [] | Some r \<Rightarrow> txt r) @ ''Set-Cookie: '' @ key @ ''='' @ val @ ''; path=/''"
proof -
  from assms obtain v0 where c: "ck_iov_create api = Some v0" "txt v0 = []" unfolding mk_iov_appends_def by metis
  let ?bs = "[COOKIE_SET, key, dd_cookie_equal, val, dd_cookie_path]"
  from assms obtain n where n: "ck_time_to_gmt api expires = Inr n" unfolding mk_iov_appends_def by metis
  let ?r = "case rows of None \<Rightarrow> v0 | Some r \<Rightarrow> r"
  from iov_adds_text [OF assms, of ?bs ?r] obtain v where
    "iov_adds (ck_iov_add api) ?bs (Some ?r) = Inr (Some v)" "txt v = txt ?r @ concat ?bs" by metis
  moreover have "(if rows = None then ck_iov_create api else rows) = Some ?r" using c by (cases rows) auto
  ultimately show ?thesis using c(2) n
    by (cases rows) (simp_all add: duda_cookie_set_def Let_def COOKIE_SET_def dd_cookie_equal_def dd_cookie_path_def
      del: iov_adds.simps)
qed

section \<open>Reading a cookie\<close>

text \<open>
  The documented behaviour of the searches where the text occurs: \<open>str_search\<close> gives the first
  occurrence, \<open>str_search_n\<close> the first one of a character.
\<close>

definition occurs_first :: "string \<Rightarrow> string \<Rightarrow> nat \<Rightarrow> bool" where
  "occurs_first t k p \<longleftrightarrow> take (length k) (drop p t) = k \<and> (\<forall>q < p. take (length k) (drop q t) \<noteq> k)"

definition mk_search_ok :: "'iov mk_cookie_api \<Rightarrow> bool" where
  "mk_search_ok api \<longleftrightarrow>
     (\<forall>t k p. occurs_first t k p \<longrightarrow> ck_str_search api t k = Some p) \<and>
     (\<forall>a c r n. c \<notin> set a \<and> int (length a) < n \<longrightarrow> ck_str_search_n api (a @ c # r) [c] n = Some (length a))"

lemma cookie_end_value:
  assumes "CHR '';'' \<notin> set v" "len = length pre + length v + length post" "post = [] \<or> hd post = CHR '';''"
  shows "cookie_end (pre @ v @ post @ r) len (length pre) = Inr (length pre + length v)"
  using assms(1,2)
proof (induction v arbitrary: pre)
  case Nil
  with assms(3) show ?case by (cases post; subst cookie_end.simps) simp_all
next
  case (Cons c v)
  have "cookie_end (pre @ (c # v) @ post @ r) len (length pre) = cookie_end ((pre @ [c]) @ v @ post @ r) len (length (pre @ [c]))"
    using Cons.prems by (subst cookie_end.simps) auto
  with Cons.IH [of "pre @ [c]"] Cons.prems show ?case by simp
qed

text \<open>A cookie is read from a header that has it as \<open>key=value\<close>, up to the next semicolon.\<close>

lemma duda_cookie_get_value:
  assumes "mk_search_ok api" "CHR ''='' \<notin> set key" "CHR '';'' \<notin> set v" "post = [] \<or> hd post = CHR '';''"
    and "occurs_first (pre @ key @ ''='' @ v @ post @ r) key (length pre)"
  shows "duda_cookie_get api (Some (pre @ key @ ''='' @ v @ post @ r, length (pre @ key @ ''='' @ v @ post))) key =
    Inr (Some (v @ post @ r, length v))"
proof -
  let ?t = "pre @ key @ ''='' @ v @ post @ r" and ?len = "length (pre @ key @ ''='' @ v @ post)"
  have k: "ck_str_search api ?t key = Some (length pre)" using assms(1,5) unfolding mk_search_ok_def by blast
  have "ck_str_search_n api (key @ CHR ''='' # v @ post @ r) [CHR ''=''] (int ?len - int (length pre)) = Some (length key)"
    using assms(1,2) unfolding mk_search_ok_def by simp
  then have e: "ck_str_search_n api (drop (length pre) ?t) ''='' (int ?len - int (length pre)) = Some (length key)" by simp
  have "cookie_end ((pre @ key @ ''='') @ v @ post @ r) ?len (length (pre @ key @ ''='')) = Inr (length (pre @ key @ ''='') + length v)"
    by (rule cookie_end_value [OF assms(3) _ assms(4)]) simp
  then have "cookie_end ?t ?len (length pre + Suc (length key)) = Inr (length pre + length key + 1 + length v)" by simp
  then show ?thesis using k e by (simp add: duda_cookie_get_def Let_def)
qed

end
