(* ===== verification/Duda_Dthread.thy ===== *)
theory Duda_Dthread
  imports Duda_Prelude
begin

text \<open>
  \<open>lib/objects/duda_dthread.c\<close>: cooperative threads on \<open>ucontext\<close>. The model keeps the scheduler
  of one worker thread and the stack that executes: the worker's own (\<open>MainCtx\<close>) or that of a
  thread object. Objects carry the number of their allocation, so that a pointer into an object
  that was released differs from one into the object that replaced it. \<open>swapcontext\<close> saves the
  executing stack in the context it is given and continues the target; \<open>uc_link\<close> names the context
  that continues when a thread function returns. Continuing a finished or released object is the
  fault \<open>DeadContext\<close>.
\<close>

section \<open>State\<close>

definition DTHREAD_DEAD :: int where "DTHREAD_DEAD = 0"
definition DTHREAD_READY :: int where "DTHREAD_READY = 1"
definition DTHREAD_RUNNING :: int where "DTHREAD_RUNNING = 2"
definition DTHREAD_SUSPEND :: int where "DTHREAD_SUSPEND = 3"
definition DEFAULT_DTHREAD_NUM :: nat where "DEFAULT_DTHREAD_NUM = 16"

lemmas dthread_consts = DTHREAD_DEAD_def DTHREAD_READY_def DTHREAD_RUNNING_def DTHREAD_SUSPEND_def DEFAULT_DTHREAD_NUM_def

datatype ctx = MainCtx | ThCtx nat

record duda_dthread_t =
  dt_obj :: nat
  dt_func :: nat
  dt_data :: nat
  dt_status :: int
  dt_parent_id :: int
  dt_link :: "ctx option"
  dt_chan_list :: "nat list"

record duda_dthread_scheduler_t =
  sch_n_dthread :: int
  sch_cap :: nat
  sch_running_id :: int
  sch_dt :: "duda_dthread_t option list"

text \<open>
  The worker thread: its scheduler (the thread-specific value), the executing stack, the number of
  the next allocated object, and the receiver of every channel.
\<close>

record dworker =
  dw_sch :: "duda_dthread_scheduler_t option"
  dw_ctl :: ctx
  dw_next :: nat
  dw_receiver :: "nat \<Rightarrow> int"

section \<open>Operations\<close>

definition duda_dthread_open :: duda_dthread_scheduler_t where
  "duda_dthread_open = \<lparr>sch_n_dthread = 0, sch_cap = DEFAULT_DTHREAD_NUM, sch_running_id = -1,
     sch_dt = replicate DEFAULT_DTHREAD_NUM None\<rparr>"

text \<open>The objects \<open>duda_dthread_close\<close> releases, in order.\<close>

definition duda_dthread_close :: "duda_dthread_scheduler_t \<Rightarrow> nat list" where
  "duda_dthread_close sch = map dt_obj (List.map_filter id (sch_dt sch))"

definition dt_free :: "duda_dthread_t option \<Rightarrow> bool" where
  "dt_free d = (case d of None \<Rightarrow> True | Some t \<Rightarrow> dt_status t = DTHREAD_DEAD)"

text \<open>
  The search for a free slot. \<open>(i + cap) % cap\<close> is \<open>i\<close>; when the loop ends without a free slot,
  \<open>id\<close> is the last index.
\<close>

fun dt_slot :: "duda_dthread_t option list \<Rightarrow> nat \<Rightarrow> nat" where
  "dt_slot [] i = i - 1"
| "dt_slot (d # ds) i = (if dt_free d then i else dt_slot ds (Suc i))"

definition duda_dthread_create :: "nat \<Rightarrow> nat \<Rightarrow> dworker \<Rightarrow> (int \<times> dworker) run" where
  "duda_dthread_create func data w =
     (let sch = (case dw_sch w of None \<Rightarrow> duda_dthread_open | Some s \<Rightarrow> s);
          grow = sch_n_dthread sch \<ge> int (sch_cap sch);
          i = (if grow then sch_cap sch else dt_slot (sch_dt sch) 0);
          dts = (if grow then sch_dt sch @ replicate (sch_cap sch) None else sch_dt sch);
          cap = (if grow then 2 * sch_cap sch else sch_cap sch);
          dt = \<lparr>dt_obj = dw_next w, dt_func = func, dt_data = data, dt_status = DTHREAD_READY,
                dt_parent_id = -1, dt_link = None, dt_chan_list = []\<rparr>
      in run_bind (wr dts i (Some dt)) (\<lambda>dts'.
           Inr (int i, w\<lparr>dw_sch := Some (sch\<lparr>sch_n_dthread := sch_n_dthread sch + 1, sch_cap := cap, sch_dt := dts'\<rparr>),
                         dw_next := dw_next w + 1\<rparr>)))"

text \<open>A failed \<open>assert\<close> is \<open>Aborted\<close>.\<close>

definition the_sch :: "dworker \<Rightarrow> duda_dthread_scheduler_t run" where
  "the_sch w = (case dw_sch w of None \<Rightarrow> Inl Aborted | Some s \<Rightarrow> Inr s)"

definition slot_of :: "duda_dthread_scheduler_t \<Rightarrow> int \<Rightarrow> duda_dthread_t option run" where
  "slot_of sch i = (if 0 \<le> i \<and> i < int (sch_cap sch) then rd (sch_dt sch) (nat i) else Inl Aborted)"

definition duda_dthread_status :: "dworker \<Rightarrow> int \<Rightarrow> int run" where
  "duda_dthread_status w i =
     run_bind (the_sch w) (\<lambda>sch. run_bind (slot_of sch i) (\<lambda>d.
       case d of None \<Rightarrow> Inr DTHREAD_DEAD | Some t \<Rightarrow> Inr (dt_status t)))"

definition duda_dthread_running :: "dworker \<Rightarrow> int run" where
  "duda_dthread_running w = run_bind (the_sch w) (\<lambda>sch. Inr (sch_running_id sch))"

text \<open>The thread object at an index the code uses without a check.\<close>

definition thread_at :: "duda_dthread_scheduler_t \<Rightarrow> int \<Rightarrow> duda_dthread_t run" where
  "thread_at sch i =
     (if i < 0 then Inl OutOfBounds
      else run_bind (rd (sch_dt sch) (nat i)) (\<lambda>d. case d of None \<Rightarrow> Inl NullDeref | Some t \<Rightarrow> Inr t))"

definition put_thread :: "int \<Rightarrow> duda_dthread_t \<Rightarrow> duda_dthread_scheduler_t \<Rightarrow> duda_dthread_scheduler_t" where
  "put_thread i t sch = sch\<lparr>sch_dt := (sch_dt sch)[nat i := Some t]\<rparr>"

text \<open>Continuing a context: its object must still be there and must not have finished.\<close>

definition continue_ctx :: "duda_dthread_scheduler_t \<Rightarrow> ctx \<Rightarrow> ctx run" where
  "continue_ctx sch c =
     (case c of MainCtx \<Rightarrow> Inr MainCtx
      | ThCtx ob \<Rightarrow>
          if list_ex (\<lambda>d. case d of None \<Rightarrow> False | Some t \<Rightarrow> dt_obj t = ob \<and> dt_status t \<noteq> DTHREAD_DEAD) (sch_dt sch)
          then Inr c else Inl DeadContext)"

definition duda_dthread_yield :: "dworker \<Rightarrow> dworker run" where
  "duda_dthread_yield w =
     run_bind (the_sch w) (\<lambda>sch.
       if sch_running_id sch < 0 then Inl Aborted
       else run_bind (thread_at sch (sch_running_id sch)) (\<lambda>dt.
         (let sch1 = (put_thread (sch_running_id sch) (dt\<lparr>dt_status := DTHREAD_SUSPEND\<rparr>) sch)\<lparr>sch_running_id := -1\<rparr>
          in Inr (w\<lparr>dw_sch := Some sch1, dw_ctl := MainCtx\<rparr>))))"

text \<open>
  \<open>resume\<close> up to the switch. In the first case the parent and the link of the new thread are set;
  \<open>running\<close> is the thread that calls, if one does. When a thread resumes itself, the second
  assignment of its status is the last one.
\<close>

definition suspend_running :: "int \<Rightarrow> duda_dthread_scheduler_t \<Rightarrow> duda_dthread_scheduler_t run" where
  "suspend_running r sch =
     (if r = -1 then Inr sch
      else run_bind (thread_at sch r) (\<lambda>t. Inr (put_thread r (t\<lparr>dt_status := DTHREAD_SUSPEND\<rparr>) sch)))"

definition duda_dthread_resume :: "int \<Rightarrow> dworker \<Rightarrow> dworker run" where
  "duda_dthread_resume i w =
     run_bind (the_sch w) (\<lambda>sch. run_bind (slot_of sch i) (\<lambda>d.
       (let r = sch_running_id sch in
        case d of None \<Rightarrow> Inr w
        | Some dt \<Rightarrow>
            if dt_status dt = DTHREAD_READY then
              run_bind (if r = -1 then Inr dt
                        else run_bind (thread_at sch r) (\<lambda>t. Inr (dt\<lparr>dt_link := Some (ThCtx (dt_obj t)), dt_parent_id := r\<rparr>)))
                (\<lambda>dt1. let dt2 = (if r = -1 then dt1\<lparr>dt_link := Some MainCtx\<rparr> else dt1) in
                 run_bind (suspend_running r sch) (\<lambda>sch1.
                   Inr (w\<lparr>dw_sch := Some ((put_thread i (dt2\<lparr>dt_status := DTHREAD_RUNNING\<rparr>) sch1)\<lparr>sch_running_id := i\<rparr>),
                          dw_ctl := ThCtx (dt_obj dt)\<rparr>)))
            else if dt_status dt = DTHREAD_SUSPEND then
              run_bind (suspend_running r (put_thread i (dt\<lparr>dt_status := DTHREAD_RUNNING\<rparr>) sch)) (\<lambda>sch1.
                Inr (w\<lparr>dw_sch := Some (sch1\<lparr>sch_running_id := i\<rparr>), dw_ctl := ThCtx (dt_obj dt)\<rparr>))
            else Inl Aborted)))"

text \<open>
  The end of a thread function: the rest of \<open>_duda_dthread_entry_point\<close> on the stack of the
  executing object, whose index \<open>i\<close> was read when the thread started, and the continuation of
  \<open>uc_link\<close>.
\<close>

definition duda_dthread_entry_point_end :: "int \<Rightarrow> dworker \<Rightarrow> dworker run" where
  "duda_dthread_entry_point_end i w =
     run_bind (the_sch w) (\<lambda>sch. run_bind (thread_at sch i) (\<lambda>dt.
       (let sch1 = (put_thread i (dt\<lparr>dt_status := DTHREAD_DEAD\<rparr>) sch)
              \<lparr>sch_n_dthread := sch_n_dthread sch - 1, sch_running_id := dt_parent_id dt\<rparr>;
            recv = (\<lambda>c. if c \<in> set (dt_chan_list dt) then -1 else dw_receiver w c)
        in case dt_link dt of None \<Rightarrow> Inl Uninit
           | Some c \<Rightarrow> run_bind (continue_ctx sch1 c) (\<lambda>c'.
               Inr (w\<lparr>dw_sch := Some sch1, dw_ctl := c', dw_receiver := recv\<rparr>)))))"

definition duda_dthread_add_channel :: "nat mk_list_adder \<Rightarrow> int \<Rightarrow> nat \<Rightarrow> dworker \<Rightarrow> dworker run" where
  "duda_dthread_add_channel add i chan w =
     run_bind (the_sch w) (\<lambda>sch. run_bind (slot_of sch i) (\<lambda>d.
       case d of None \<Rightarrow> Inl NullDeref
       | Some t \<Rightarrow> Inr (w\<lparr>dw_sch := Some (put_thread i (t\<lparr>dt_chan_list := add chan (dt_chan_list t)\<rparr>) sch)\<rparr>)))"

section \<open>Steps of a worker\<close>

text \<open>What the executing code can do; \<open>finish\<close> is the return of the executing thread's function.\<close>

datatype dop = Create nat nat | Resume int | Yield | Finish

inductive dstep :: "dworker \<Rightarrow> dop \<Rightarrow> dworker \<Rightarrow> bool" where
  create: "duda_dthread_create f d w = Inr (i, w') \<Longrightarrow> dstep w (Create f d) w'"
| resume: "duda_dthread_resume i w = Inr w' \<Longrightarrow> dstep w (Resume i) w'"
| yield: "duda_dthread_yield w = Inr w' \<Longrightarrow> dstep w Yield w'"
| finish: "dw_ctl w = ThCtx ob \<Longrightarrow> dw_sch w = Some sch \<Longrightarrow> thread_at sch i = Inr t \<Longrightarrow> dt_obj t = ob \<Longrightarrow>
    duda_dthread_entry_point_end i w = Inr w' \<Longrightarrow> dstep w Finish w'"

inductive dsteps :: "dworker \<Rightarrow> dop list \<Rightarrow> dworker \<Rightarrow> bool" where
  nil: "dsteps w [] w"
| snoc: "dsteps w ops w' \<Longrightarrow> dstep w' a w'' \<Longrightarrow> dsteps w (ops @ [a]) w''"

inductive_cases dstepE: "dstep w a w'"

definition dworker_init :: dworker where
  "dworker_init = \<lparr>dw_sch = None, dw_ctl = MainCtx, dw_next = 0, dw_receiver = (\<lambda>_. -1)\<rparr>"

section \<open>Invariant\<close>

definition th :: "duda_dthread_scheduler_t \<Rightarrow> nat \<Rightarrow> duda_dthread_t \<Rightarrow> bool" where
  "th sch i t \<longleftrightarrow> i < length (sch_dt sch) \<and> sch_dt sch ! i = Some t"

definition live_count :: "duda_dthread_t option list \<Rightarrow> nat" where
  "live_count ds = length (filter (\<lambda>d. \<not> dt_free d) ds)"

definition inv_slots :: "nat \<Rightarrow> duda_dthread_scheduler_t \<Rightarrow> bool" where
  "inv_slots nxt sch \<longleftrightarrow> length (sch_dt sch) = sch_cap sch \<and> 0 < sch_cap sch \<and>
     sch_n_dthread sch = int (live_count (sch_dt sch)) \<and>
     (\<forall>i t. th sch i t \<longrightarrow> dt_obj t < nxt) \<and> (\<forall>i j t u. th sch i t \<and> th sch j u \<and> dt_obj t = dt_obj u \<longrightarrow> i = j)"

definition inv_status :: "duda_dthread_scheduler_t \<Rightarrow> bool" where
  "inv_status sch \<longleftrightarrow> (\<forall>i t. th sch i t \<longrightarrow>
     dt_status t \<in> {DTHREAD_DEAD, DTHREAD_READY, DTHREAD_RUNNING, DTHREAD_SUSPEND} \<and>
     (dt_status t = DTHREAD_RUNNING \<longrightarrow> sch_running_id sch = int i) \<and>
     (dt_status t = DTHREAD_READY \<longrightarrow> dt_parent_id t = -1))"

text \<open>
  The context a started thread continues at its end: the worker's, or that of its parent, which
  either has finished (or is gone) or sits in the slot the thread remembers.
\<close>

definition link_ok :: "nat \<Rightarrow> duda_dthread_scheduler_t \<Rightarrow> duda_dthread_t \<Rightarrow> bool" where
  "link_ok nxt sch t \<longleftrightarrow>
     (dt_link t = Some MainCtx \<and> dt_parent_id t = -1) \<or>
     (\<exists>ob. dt_link t = Some (ThCtx ob) \<and> ob < nxt \<and> 0 \<le> dt_parent_id t \<and>
        (\<forall>j u. th sch j u \<and> dt_obj u = ob \<and> dt_status u \<noteq> DTHREAD_DEAD \<longrightarrow>
           dt_parent_id t = int j \<and> dt_status u \<noteq> DTHREAD_READY))"

definition started :: "duda_dthread_t \<Rightarrow> bool" where
  "started t \<longleftrightarrow> dt_status t = DTHREAD_RUNNING \<or> dt_status t = DTHREAD_SUSPEND"

definition inv_link :: "nat \<Rightarrow> duda_dthread_scheduler_t \<Rightarrow> bool" where
  "inv_link nxt sch \<longleftrightarrow> (\<forall>i t. th sch i t \<and> started t \<longrightarrow> link_ok nxt sch t)"

text \<open>\<open>running_id\<close> names the executing stack.\<close>

definition inv_ctl :: "ctx \<Rightarrow> duda_dthread_scheduler_t \<Rightarrow> bool" where
  "inv_ctl c sch \<longleftrightarrow> (case c of MainCtx \<Rightarrow> sch_running_id sch = -1
     | ThCtx ob \<Rightarrow> \<exists>i t. sch_running_id sch = int i \<and> th sch i t \<and> dt_obj t = ob \<and> started t)"

definition dthread_inv :: "dworker \<Rightarrow> bool" where
  "dthread_inv w \<longleftrightarrow> (case dw_sch w of None \<Rightarrow> dw_ctl w = MainCtx
     | Some sch \<Rightarrow> inv_slots (dw_next w) sch \<and> inv_status sch \<and> inv_link (dw_next w) sch \<and> inv_ctl (dw_ctl w) sch)"

section \<open>Slots\<close>

lemma th_put: "i < length (sch_dt sch) \<Longrightarrow> th (put_thread (int i) t sch) j u \<longleftrightarrow> (if j = i then u = t else th sch j u)"
  by (auto simp: th_def put_thread_def nth_list_update)

lemma th_update [simp]:
  "th (sch\<lparr>sch_running_id := r\<rparr>) = th sch" "th (sch\<lparr>sch_n_dthread := n\<rparr>) = th sch"
  by (auto simp: th_def fun_eq_iff)

lemma put_thread_sel [simp]:
  "sch_cap (put_thread i t sch) = sch_cap sch" "sch_n_dthread (put_thread i t sch) = sch_n_dthread sch"
  "sch_running_id (put_thread i t sch) = sch_running_id sch" "length (sch_dt (put_thread i t sch)) = length (sch_dt sch)"
  by (simp_all add: put_thread_def)

lemma live_count_update:
  "i < length ds \<Longrightarrow> live_count (ds[i := d]) + (if dt_free (ds ! i) then 0 else 1) = live_count ds + (if dt_free d then 0 else 1)"
proof (induction ds arbitrary: i)
  case (Cons x ds)
  show ?case
  proof (cases i)
    case (Suc k)
    with Cons.IH [of k] Cons.prems show ?thesis by (simp add: live_count_def split: if_splits)
  qed (simp add: live_count_def)
qed simp

lemma thread_at_th: "thread_at sch i = Inr t \<longleftrightarrow> 0 \<le> i \<and> th sch (nat i) t"
  by (auto simp: thread_at_def th_def rd_def run_bind_def split: option.splits sum.splits)

lemma dt_slot_free:
  "live_count ds < length ds \<Longrightarrow> \<exists>j. dt_slot ds i = i + j \<and> j < length ds \<and> dt_free (ds ! j)"
proof (induction ds arbitrary: i)
  case (Cons d ds)
  show ?case
  proof (cases "dt_free d")
    case True
    then show ?thesis by (intro exI [of _ 0]) simp
  next
    case False
    with Cons.prems have "live_count ds < length ds" by (simp add: live_count_def)
    from Cons.IH [OF this, of "Suc i"] obtain j where "dt_slot ds (Suc i) = Suc i + j" "j < length ds" "dt_free (ds ! j)" by blast
    with False show ?thesis by (intro exI [of _ "Suc j"]) simp
  qed
qed simp

lemma th_slot: "length (sch_dt sch) = sch_cap sch \<Longrightarrow> slot_of sch i = Inr (Some t) \<longleftrightarrow> 0 \<le> i \<and> th sch (nat i) t"
  by (auto simp: slot_of_def th_def rd_def)

text \<open>Changing a thread object in place keeps the slot invariant as long as it keeps being live or free.\<close>

lemma inv_slots_put:
  assumes "inv_slots nxt sch" "th sch i t" "dt_obj t' = dt_obj t" "dt_free (Some t') = dt_free (Some t)"
  shows "inv_slots nxt (put_thread (int i) t' sch)"
proof -
  have i: "i < length (sch_dt sch)" "sch_dt sch ! i = Some t" using assms(2) by (auto simp: th_def)
  have "live_count (sch_dt (put_thread (int i) t' sch)) = live_count (sch_dt sch)"
    using live_count_update [OF i(1), of "Some t'"] i(2) assms(4) by (simp add: put_thread_def split: if_splits)
  moreover have "\<exists>u0. th sch j u0 \<and> dt_obj u0 = dt_obj u" if "th (put_thread (int i) t' sch) j u" for j u
    using that assms(2,3) by (auto simp: th_put [OF i(1)] split: if_splits)
  ultimately show ?thesis
    using assms(1) unfolding inv_slots_def by simp metis
qed

section \<open>Every step keeps the invariant\<close>

lemma inv_slots_running [simp]: "inv_slots nxt (sch\<lparr>sch_running_id := r\<rparr>) = inv_slots nxt sch"
  by (simp add: inv_slots_def)

lemma link_ok_running [simp]: "link_ok nxt (sch\<lparr>sch_running_id := r\<rparr>) = link_ok nxt sch"
  by (simp add: link_ok_def fun_eq_iff)

lemma inv_link_running [simp]: "inv_link nxt (sch\<lparr>sch_running_id := r\<rparr>) = inv_link nxt sch"
  by (simp add: inv_link_def)

text \<open>
  An object that was started, or finishes, keeps the links of the others valid; the changed object
  itself keeps its own link.
\<close>

lemma inv_link_put:
  assumes "inv_link nxt sch" "th sch i t" "dt_obj t' = dt_obj t" "dt_status t' \<noteq> DTHREAD_READY"
    and "dt_status t = DTHREAD_DEAD \<Longrightarrow> dt_status t' = DTHREAD_DEAD"
    and "started t' \<Longrightarrow> link_ok nxt sch t'"
  shows "inv_link nxt (put_thread (int i) t' sch)"
proof -
  have i: "i < length (sch_dt sch)" using assms(2) by (simp add: th_def)
  have keep: "link_ok nxt (put_thread (int i) t' sch) u" if "link_ok nxt sch u" for u
    using that assms(2-5) unfolding link_ok_def th_put [OF i] by metis
  show ?thesis
    unfolding inv_link_def th_put [OF i] using keep assms(1,6) by (auto simp: inv_link_def split: if_splits)
qed

lemma inv_statusD:
  assumes "inv_status sch" "th sch i t"
  shows "dt_status t \<in> {DTHREAD_DEAD, DTHREAD_READY, DTHREAD_RUNNING, DTHREAD_SUSPEND}"
    "dt_status t = DTHREAD_RUNNING \<Longrightarrow> sch_running_id sch = int i" "dt_status t = DTHREAD_READY \<Longrightarrow> dt_parent_id t = -1"
  using assms unfolding inv_status_def by blast+

lemma dt_free_Some [simp]: "dt_free (Some t) \<longleftrightarrow> dt_status t = DTHREAD_DEAD" "dt_free None"
  by (simp_all add: dt_free_def)

lemma duda_dthread_yield_inv:
  assumes "dthread_inv w" "duda_dthread_yield w = Inr w'"
  shows "dthread_inv w'"
proof -
  from assms(2) obtain sch t where sch: "dw_sch w = Some sch" "0 \<le> sch_running_id sch" "thread_at sch (sch_running_id sch) = Inr t"
    and w': "w' = w\<lparr>dw_sch := Some ((put_thread (sch_running_id sch) (t\<lparr>dt_status := DTHREAD_SUSPEND\<rparr>) sch)\<lparr>sch_running_id := -1\<rparr>), dw_ctl := MainCtx\<rparr>"
    by (auto simp: duda_dthread_yield_def the_sch_def run_bind_eq_Inr Let_def split: option.splits if_splits)
  obtain i where i: "sch_running_id sch = int i" using sch(2) nonneg_int_cases by blast
  with sch(3) have t: "th sch i t" by (simp add: thread_at_th)
  then have len: "i < length (sch_dt sch)" by (simp add: th_def)
  from assms(1) sch(1) have inv: "inv_slots (dw_next w) sch" "inv_status sch" "inv_link (dw_next w) sch" "inv_ctl (dw_ctl w) sch"
    by (auto simp: dthread_inv_def)
  from inv(4) i t have st: "started t"
    by (auto simp: inv_ctl_def th_def split: ctx.splits)
  let ?t = "t\<lparr>dt_status := DTHREAD_SUSPEND\<rparr>"
  have "inv_slots (dw_next w) (put_thread (int i) ?t sch)"
    using st by (intro inv_slots_put [OF inv(1) t]) (auto simp: started_def dthread_consts)
  moreover have "link_ok (dw_next w) sch ?t" using inv(3) t st by (auto simp: inv_link_def link_ok_def)
  then have "inv_link (dw_next w) (put_thread (int i) ?t sch)"
    using st by (intro inv_link_put [OF inv(3) t]) (auto simp: started_def dthread_consts)
  moreover have "inv_status ((put_thread (int i) ?t sch)\<lparr>sch_running_id := -1\<rparr>)"
    using inv(2) i by (auto simp: inv_status_def th_put [OF len] dthread_consts)
  ultimately show ?thesis by (simp add: w' i dthread_inv_def inv_ctl_def)
qed

definition inv_core :: "nat \<Rightarrow> duda_dthread_scheduler_t \<Rightarrow> bool" where
  "inv_core nxt sch \<longleftrightarrow> inv_slots nxt sch \<and> inv_status sch \<and> inv_link nxt sch"

definition none_running :: "duda_dthread_scheduler_t \<Rightarrow> bool" where
  "none_running sch \<longleftrightarrow> (\<forall>i t. th sch i t \<longrightarrow> dt_status t \<noteq> DTHREAD_RUNNING)"

text \<open>Suspending the calling thread.\<close>

lemma suspend_running_inv:
  assumes core: "inv_core nxt sch" and ctl: "inv_ctl c sch"
  obtains sch1 where "suspend_running (sch_running_id sch) sch = Inr sch1" "inv_core nxt sch1" "none_running sch1"
    "sch_running_id sch1 = sch_running_id sch"
    "\<And>i t. th sch i t \<Longrightarrow> int i \<noteq> sch_running_id sch \<Longrightarrow> th sch1 i t"
    "\<And>r t. sch_running_id sch = int r \<Longrightarrow> th sch r t \<Longrightarrow>
       started t \<and> sch1 = put_thread (int r) (t\<lparr>dt_status := DTHREAD_SUSPEND\<rparr>) sch"
proof (cases c)
  case MainCtx
  with ctl have r: "sch_running_id sch = -1" by (simp add: inv_ctl_def)
  then have "none_running sch"
    using core by (auto simp: none_running_def inv_core_def dest: inv_statusD(2))
  with r core show thesis by (intro that [of sch]) (auto simp: suspend_running_def)
next
  case (ThCtx ob)
  with ctl obtain r t where r: "sch_running_id sch = int r" and t: "th sch r t" "started t" by (auto simp: inv_ctl_def)
  then have len: "r < length (sch_dt sch)" by (simp add: th_def)
  let ?t = "t\<lparr>dt_status := DTHREAD_SUSPEND\<rparr>" and ?sch = "put_thread (int r) (t\<lparr>dt_status := DTHREAD_SUSPEND\<rparr>) sch"
  from core have inv: "inv_slots nxt sch" "inv_status sch" "inv_link nxt sch" by (auto simp: inv_core_def)
  have "inv_slots nxt ?sch" using t by (intro inv_slots_put [OF inv(1) t(1)]) (auto simp: started_def dthread_consts)
  moreover have "link_ok nxt sch ?t" using inv(3) t by (auto simp: inv_link_def link_ok_def)
  then have "inv_link nxt ?sch" using t by (intro inv_link_put [OF inv(3) t(1)]) (auto simp: started_def dthread_consts)
  moreover have "inv_status ?sch" using inv(2) by (auto simp: inv_status_def th_put [OF len] dthread_consts)
  moreover have "none_running ?sch"
    using inv_statusD(2) [OF inv(2)] r by (auto simp: none_running_def th_put [OF len] dthread_consts)
  moreover have "th sch r u \<Longrightarrow> u = t" for u using t(1) by (simp add: th_def)
  moreover have "thread_at sch (int r) = Inr t" using t(1) by (simp add: thread_at_th)
  then have "suspend_running (sch_running_id sch) sch = Inr ?sch" by (simp add: suspend_running_def r)
  moreover have "th ?sch i u" if "th sch i u" "int i \<noteq> int r" for i u
    using that by (simp add: th_put [OF len])
  ultimately show thesis
    by (intro that [of ?sch]) (use t(2) r in \<open>simp_all add: inv_core_def\<close>)
qed

text \<open>Switching to a thread when no other one is running.\<close>

lemma start_inv:
  assumes "inv_core nxt sch" "none_running sch" "th sch i t" "dt_status t \<noteq> DTHREAD_DEAD"
    and "dt_obj t' = dt_obj t" "dt_status t' = DTHREAD_RUNNING" "link_ok nxt sch t'"
  shows "inv_core nxt ((put_thread (int i) t' sch)\<lparr>sch_running_id := int i\<rparr>)"
    and "inv_ctl (ThCtx (dt_obj t)) ((put_thread (int i) t' sch)\<lparr>sch_running_id := int i\<rparr>)"
proof -
  have len: "i < length (sch_dt sch)" using assms(3) by (simp add: th_def)
  from assms(1) have inv: "inv_slots nxt sch" "inv_status sch" "inv_link nxt sch" by (auto simp: inv_core_def)
  have "inv_slots nxt (put_thread (int i) t' sch)"
    using assms(4-6) by (intro inv_slots_put [OF inv(1) assms(3)]) (auto simp: dthread_consts)
  moreover have "inv_link nxt (put_thread (int i) t' sch)"
    using assms(4-7) by (intro inv_link_put [OF inv(3) assms(3)]) (auto simp: dthread_consts)
  moreover have "inv_status ((put_thread (int i) t' sch)\<lparr>sch_running_id := int i\<rparr>)"
    using inv(2) assms(2,6) by (auto simp: inv_status_def none_running_def th_put [OF len] dthread_consts)
  ultimately show "inv_core nxt ((put_thread (int i) t' sch)\<lparr>sch_running_id := int i\<rparr>)" by (simp add: inv_core_def)
  show "inv_ctl (ThCtx (dt_obj t)) ((put_thread (int i) t' sch)\<lparr>sch_running_id := int i\<rparr>)"
    using assms(5,6) by (auto simp: inv_ctl_def th_put [OF len] started_def)
qed

lemma put_thread_swap:
  "i \<noteq> j \<Longrightarrow> put_thread (int i) t (put_thread (int j) u sch) = put_thread (int j) u (put_thread (int i) t sch)"
  by (simp add: put_thread_def list_update_swap)

lemma dthread_inv_core:
  "dthread_inv w \<longleftrightarrow> (case dw_sch w of None \<Rightarrow> dw_ctl w = MainCtx
     | Some sch \<Rightarrow> inv_core (dw_next w) sch \<and> inv_ctl (dw_ctl w) sch)"
  by (simp add: dthread_inv_def inv_core_def split: option.splits)

lemma resume_ready_inv:
  assumes core: "inv_core nxt sch" and ctl: "inv_ctl c sch" and t: "th sch i t" "dt_status t = DTHREAD_READY"
    and w: "dw_sch w = Some sch"
  shows "\<exists>sch'. duda_dthread_resume (int i) w = Inr (w\<lparr>dw_sch := Some sch', dw_ctl := ThCtx (dt_obj t)\<rparr>) \<and>
     inv_core nxt sch' \<and> inv_ctl (ThCtx (dt_obj t)) sch'"
proof -
  let ?r = "sch_running_id sch"
  have len: "length (sch_dt sch) = sch_cap sch" using core by (simp add: inv_core_def inv_slots_def)
  then have slot: "slot_of sch (int i) = Inr (Some t)" using t(1) th_slot [of sch "int i" t] by simp
  obtain sch1 where s: "suspend_running ?r sch = Inr sch1" "inv_core nxt sch1" "none_running sch1"
    and "sch_running_id sch1 = ?r" and th: "\<And>j u. th sch j u \<Longrightarrow> int j \<noteq> ?r \<Longrightarrow> th sch1 j u"
    and run: "\<And>r u. ?r = int r \<Longrightarrow> th sch r u \<Longrightarrow> started u \<and> sch1 = put_thread (int r) (u\<lparr>dt_status := DTHREAD_SUSPEND\<rparr>) sch"
    by (rule suspend_running_inv [OF core ctl]) (rule that)
  have ne: "int i \<noteq> ?r" using run [of i t] t by (auto simp: started_def dthread_consts)
  have t1: "th sch1 i t" using th [OF t(1) ne] .
  have parent: "dt_parent_id t = -1" using core t by (auto simp: inv_core_def dest: inv_statusD(3))
  show ?thesis
  proof (cases c)
    case MainCtx
    with ctl have r: "?r = -1" by (simp add: inv_ctl_def)
    let ?t = "t\<lparr>dt_link := Some MainCtx, dt_status := DTHREAD_RUNNING\<rparr>"
    have "link_ok nxt sch1 ?t" using parent by (simp add: link_ok_def)
    from start_inv [OF s(2,3) t1 _ _ _ this] t(2) show ?thesis
      using w slot t(2) r s(1) by (simp add: duda_dthread_resume_def the_sch_def dthread_consts) blast
  next
    case (ThCtx ob)
    with ctl obtain r u where r: "?r = int r" and u: "th sch r u" "started u" by (auto simp: inv_ctl_def)
    from run [OF r u(1)] have sch1: "sch1 = put_thread (int r) (u\<lparr>dt_status := DTHREAD_SUSPEND\<rparr>) sch" by simp
    have rl: "r < length (sch_dt sch)" using u(1) by (simp add: th_def)
    let ?t = "t\<lparr>dt_link := Some (ThCtx (dt_obj u)), dt_parent_id := int r, dt_status := DTHREAD_RUNNING\<rparr>"
    have "dt_obj u < nxt" using core u(1) unfolding inv_core_def inv_slots_def by blast
    moreover have "j = r \<and> dt_status v \<noteq> DTHREAD_READY" if "th sch1 j v" "dt_obj v = dt_obj u" for j v
    proof -
      have "th sch1 r (u\<lparr>dt_status := DTHREAD_SUSPEND\<rparr>)" by (simp add: sch1 th_put [OF rl])
      moreover from this that s(2) have "j = r" unfolding inv_core_def inv_slots_def by fastforce
      ultimately show ?thesis using that(1) by (auto simp: th_def dthread_consts)
    qed
    ultimately have "link_ok nxt sch1 ?t" unfolding link_ok_def by auto
    from start_inv [OF s(2,3) t1 _ _ _ this] t(2) show ?thesis
      using w slot t(2) r s(1) u(1) thread_at_th [of sch "int r" u]
      by (simp add: duda_dthread_resume_def the_sch_def dthread_consts Let_def) blast
  qed
qed

lemma resume_suspended_inv:
  assumes core: "inv_core nxt sch" and ctl: "inv_ctl c sch" and t: "th sch i t" "dt_status t = DTHREAD_SUSPEND"
    and w: "dw_sch w = Some sch"
  shows "\<exists>sch'. duda_dthread_resume (int i) w = Inr (w\<lparr>dw_sch := Some sch', dw_ctl := ThCtx (dt_obj t)\<rparr>) \<and>
     inv_core nxt sch' \<and> inv_ctl (ThCtx (dt_obj t)) sch'"
proof -
  let ?r = "sch_running_id sch" and ?t = "t\<lparr>dt_status := DTHREAD_RUNNING\<rparr>"
  have len: "length (sch_dt sch) = sch_cap sch" using core by (simp add: inv_core_def inv_slots_def)
  then have slot: "slot_of sch (int i) = Inr (Some t)" using t(1) th_slot [of sch "int i" t] by simp
  have il: "i < length (sch_dt sch)" using t(1) by (simp add: th_def)
  obtain sch1 where s: "suspend_running ?r sch = Inr sch1" "inv_core nxt sch1" "none_running sch1"
    and "sch_running_id sch1 = ?r" and th: "\<And>j u. th sch j u \<Longrightarrow> int j \<noteq> ?r \<Longrightarrow> th sch1 j u"
    and run: "\<And>r u. ?r = int r \<Longrightarrow> th sch r u \<Longrightarrow> started u \<and> sch1 = put_thread (int r) (u\<lparr>dt_status := DTHREAD_SUSPEND\<rparr>) sch"
    by (rule suspend_running_inv [OF core ctl]) (rule that)
  show ?thesis
  proof (cases "int i = ?r")
    case True
    have "put_thread (int i) t (put_thread (int i) ?t sch) = sch"
      using t(1) by (simp add: put_thread_def th_def list_update_same_conv)
    moreover have "thread_at (put_thread (int i) ?t sch) (int i) = Inr ?t"
      using il by (simp add: thread_at_th th_put)
    moreover have "t\<lparr>dt_status := DTHREAD_SUSPEND\<rparr> = t" using t(2) by simp
    ultimately have "suspend_running (int i) (put_thread (int i) ?t sch) = Inr sch"
      by (simp add: suspend_running_def)
    then have "duda_dthread_resume (int i) w = Inr (w\<lparr>dw_sch := Some sch, dw_ctl := ThCtx (dt_obj t)\<rparr>)"
      using w slot t(2) True [symmetric] by (simp add: duda_dthread_resume_def the_sch_def dthread_consts)
    moreover have "inv_ctl (ThCtx (dt_obj t)) sch"
      using True t by (auto simp: inv_ctl_def started_def intro!: exI [of _ i])
    ultimately show ?thesis using core by blast
  next
    case False
    have "suspend_running ?r (put_thread (int i) ?t sch) = Inr (put_thread (int i) ?t sch1)"
    proof (cases "?r = -1")
      case True
      with s(1) show ?thesis by (simp add: suspend_running_def)
    next
      case r': False
      with ctl obtain r u where r: "?r = int r" and u: "th sch r u" by (auto simp: inv_ctl_def split: ctx.splits)
      then have "r \<noteq> i" "thread_at (put_thread (int i) ?t sch) (int r) = Inr u"
        using False by (auto simp: thread_at_th th_put [OF il])
      with run [OF r u] show ?thesis
        by (simp add: suspend_running_def r put_thread_swap [of r i])
    qed
    moreover have "link_ok nxt sch1 ?t"
    proof -
      have "th sch1 i t" using th [OF t(1) False] .
      then have "link_ok nxt sch1 t" using s(2) t(2) by (auto simp: inv_core_def inv_link_def started_def)
      then show ?thesis by (simp add: link_ok_def)
    qed
    from start_inv [OF s(2,3) th [OF t(1) False] _ _ _ this] t(2)
    have "inv_core nxt ((put_thread (int i) ?t sch1)\<lparr>sch_running_id := int i\<rparr>)"
      "inv_ctl (ThCtx (dt_obj t)) ((put_thread (int i) ?t sch1)\<lparr>sch_running_id := int i\<rparr>)"
      by (simp_all add: dthread_consts)
    ultimately show ?thesis
      using w slot t(2) by (simp add: duda_dthread_resume_def the_sch_def dthread_consts) blast
  qed
qed

lemma duda_dthread_resume_inv:
  assumes "dthread_inv w" "duda_dthread_resume i w = Inr w'"
  shows "dthread_inv w'"
proof -
  from assms(2) obtain sch d where sch: "dw_sch w = Some sch" "slot_of sch i = Inr d"
    by (auto simp: duda_dthread_resume_def the_sch_def run_bind_eq_Inr split: option.splits)
  with assms(1) have inv: "inv_core (dw_next w) sch" "inv_ctl (dw_ctl w) sch" by (auto simp: dthread_inv_core)
  show ?thesis
  proof (cases d)
    case None
    with assms sch show ?thesis by (simp add: duda_dthread_resume_def the_sch_def)
  next
    case (Some t)
    have "length (sch_dt sch) = sch_cap sch" using inv(1) by (simp add: inv_core_def inv_slots_def)
    with Some sch(2) obtain k where k: "i = int k" "th sch k t"
      by (metis nonneg_int_cases nat_int th_slot)
    show ?thesis
    proof (cases "dt_status t = DTHREAD_READY")
      case True
      from resume_ready_inv [OF inv k(2) True sch(1)] assms(2) k(1) show ?thesis
        by (auto simp: dthread_inv_core)
    next
      case False
      with assms(2) sch Some have "dt_status t = DTHREAD_SUSPEND"
        by (auto simp: duda_dthread_resume_def the_sch_def Let_def split: if_splits)
      from resume_suspended_inv [OF inv k(2) this sch(1)] assms(2) k(1) show ?thesis
        by (auto simp: dthread_inv_core)
    qed
  qed
qed

lemma continue_ctx_th:
  "continue_ctx sch (ThCtx ob) = Inr c \<longleftrightarrow>
     c = ThCtx ob \<and> (\<exists>j u. th sch j u \<and> dt_obj u = ob \<and> dt_status u \<noteq> DTHREAD_DEAD)"
proof -
  have "list_ex (\<lambda>d. case d of None \<Rightarrow> False | Some t \<Rightarrow> dt_obj t = ob \<and> dt_status t \<noteq> DTHREAD_DEAD) (sch_dt sch) \<longleftrightarrow>
      (\<exists>j u. th sch j u \<and> dt_obj u = ob \<and> dt_status u \<noteq> DTHREAD_DEAD)"
    by (auto simp: list_ex_length th_def split: option.splits)
  then show ?thesis by (auto simp: continue_ctx_def)
qed

lemma duda_dthread_finish_inv:
  assumes inv: "dthread_inv w" and w: "dw_ctl w = ThCtx ob" "dw_sch w = Some sch" "thread_at sch i = Inr t" "dt_obj t = ob"
    and fin: "duda_dthread_entry_point_end i w = Inr w'"
  shows "dthread_inv w'"
proof -
  let ?nxt = "dw_next w"
  from inv w have core: "inv_slots ?nxt sch" "inv_status sch" "inv_link ?nxt sch" and ctl: "inv_ctl (ThCtx ob) sch"
    by (auto simp: dthread_inv_def)
  from w(3) obtain k where k: "i = int k" "th sch k t" by (metis nonneg_int_cases nat_int thread_at_th)
  then have kl: "k < length (sch_dt sch)" by (simp add: th_def)
  from ctl obtain r u where r: "sch_running_id sch = int r" "th sch r u" "dt_obj u = ob" "started u" by (auto simp: inv_ctl_def)
  with core(1) k(2) w(4) have "r = k" unfolding inv_slots_def by blast
  with r k(2) have st: "started t" and run: "sch_running_id sch = int k" by (auto simp: th_def)
  let ?d = "t\<lparr>dt_status := DTHREAD_DEAD\<rparr>"
  let ?p = "put_thread (int k) ?d sch"
  let ?s = "?p\<lparr>sch_n_dthread := sch_n_dthread sch - 1, sch_running_id := dt_parent_id t\<rparr>"
  from fin w(2,3) k obtain c c' where c: "dt_link t = Some c" "continue_ctx ?s c = Inr c'" and w': "dw_sch w' = Some ?s" "dw_ctl w' = c'" "dw_next w' = ?nxt"
    by (auto simp: duda_dthread_entry_point_end_def the_sch_def Let_def run_bind_eq_Inr split: option.splits)
  have "live_count (sch_dt ?p) + 1 = live_count (sch_dt sch)"
    using live_count_update [OF kl, of "Some ?d"] k(2) st by (auto simp: put_thread_def th_def started_def dthread_consts split: if_splits)
  moreover have "\<exists>u0. th sch j u0 \<and> dt_obj u0 = dt_obj u" if "th ?p j u" for j u
    using that k(2) by (auto simp: th_put [OF kl] split: if_splits)
  ultimately have 1: "inv_slots ?nxt ?s"
    using core(1) unfolding inv_slots_def by simp metis
  have 2: "inv_link ?nxt ?s"
    using inv_link_put [OF core(3) k(2), of ?d] by (simp add: started_def dthread_consts inv_link_def link_ok_def)
  have 3: "inv_status ?s"
    using core(2) run by (auto simp: inv_status_def th_put [OF kl] dthread_consts)
  have lk: "link_ok ?nxt sch t" using core(3) k(2) st by (simp add: inv_link_def)
  have "inv_ctl c' ?s"
  proof (cases c)
    case MainCtx
    with c lk show ?thesis by (auto simp: inv_ctl_def link_ok_def continue_ctx_def)
  next
    case (ThCtx o')
    with c(2) have "continue_ctx ?s (ThCtx o') = Inr c'" by simp
    then have "c' = ThCtx o' \<and> (\<exists>j u. th ?s j u \<and> dt_obj u = o' \<and> dt_status u \<noteq> DTHREAD_DEAD)"
      by (rule continue_ctx_th [THEN iffD1])
    then obtain j u where u: "th ?p j u" "dt_obj u = o'" "dt_status u \<noteq> DTHREAD_DEAD" "c' = ThCtx o'" by auto
    then have uj: "th sch j u" "j \<noteq> k" by (auto simp: th_put [OF kl] split: if_splits)
    with lk c(1) ThCtx u have p: "dt_parent_id t = int j" "dt_status u \<noteq> DTHREAD_READY"
      by (auto simp: link_ok_def)
    with inv_statusD(1) [OF core(2) uj(1)] u(3) have "started u" by (auto simp: started_def)
    with u p show ?thesis by (auto simp: inv_ctl_def)
  qed
  with 1 2 3 w' show ?thesis by (simp add: dthread_inv_def)
qed

lemma inv_open: "inv_core nxt duda_dthread_open" "inv_ctl MainCtx duda_dthread_open"
  by (auto simp: inv_core_def inv_slots_def inv_status_def inv_link_def inv_ctl_def th_def live_count_def
      duda_dthread_open_def DEFAULT_DTHREAD_NUM_def)

text \<open>
  The slot a new thread gets: inside the array, and free. The array is doubled only when every slot
  is in use.
\<close>

lemma create_slot:
  assumes "inv_slots nxt sch"
  defines "grow \<equiv> sch_n_dthread sch \<ge> int (sch_cap sch)"
  defines "ds \<equiv> (if grow then sch_dt sch @ replicate (sch_cap sch) None else sch_dt sch)"
  defines "i \<equiv> (if grow then sch_cap sch else dt_slot (sch_dt sch) 0)"
  shows "i < length ds" "dt_free (ds ! i)" "live_count ds = live_count (sch_dt sch)"
    "length ds = (if grow then 2 * sch_cap sch else sch_cap sch)"
proof -
  have len: "length (sch_dt sch) = sch_cap sch" "0 < sch_cap sch" "sch_n_dthread sch = int (live_count (sch_dt sch))"
    using assms(1) by (auto simp: inv_slots_def)
  show "length ds = (if grow then 2 * sch_cap sch else sch_cap sch)" using len by (simp add: ds_def)
  show "live_count ds = live_count (sch_dt sch)" by (simp add: ds_def live_count_def)
  have "i < length ds \<and> dt_free (ds ! i)"
  proof (cases grow)
    case True
    then show ?thesis using len by (simp add: i_def ds_def nth_append)
  next
    case False
    then have "live_count (sch_dt sch) < length (sch_dt sch)" using len by (simp add: grow_def)
    from dt_slot_free [OF this, of 0] False show ?thesis by (auto simp: i_def ds_def)
  qed
  then show "i < length ds" "dt_free (ds ! i)" by auto
qed

lemma create_core_inv:
  assumes core: "inv_core nxt sch" and ctl: "inv_ctl c sch" and i: "i < length ds" "dt_free (ds ! i)"
    and ds: "live_count ds = live_count (sch_dt sch)" "length ds = cap" "0 < cap"
      "\<And>j t. j < length ds \<Longrightarrow> ds ! j = Some t \<Longrightarrow> th sch j t" "\<And>j t. th sch j t \<Longrightarrow> j < length ds \<and> ds ! j = Some t"
    and dt: "dt_obj dt = nxt" "dt_status dt = DTHREAD_READY" "dt_parent_id dt = -1"
  defines "sch' \<equiv> sch\<lparr>sch_n_dthread := sch_n_dthread sch + 1, sch_cap := cap, sch_dt := ds[i := Some dt]\<rparr>"
  shows "inv_core (Suc nxt) sch' \<and> inv_ctl c sch'"
proof -
  from core have inv: "inv_slots nxt sch" "inv_status sch" "inv_link nxt sch" by (auto simp: inv_core_def)
  have th: "th sch' j t \<longleftrightarrow> (if j = i then t = dt else th sch j t)" for j t
  proof -
    have old: "th sch j t \<longleftrightarrow> j < length ds \<and> ds ! j = Some t" using ds(4,5) by blast
    have "th sch' j t \<longleftrightarrow> j < length ds \<and> ds[i := Some dt] ! j = Some t" by (simp add: sch'_def th_def)
    with i(1) show ?thesis by (cases "j = i") (auto simp: old)
  qed
  have run: "sch_running_id sch' = sch_running_id sch" by (simp add: sch'_def)
  have old: "dt_obj t < nxt" if "th sch j t" for j t using that inv(1) unfolding inv_slots_def by blast
  have "live_count (ds[i := Some dt]) = live_count ds + 1"
    using live_count_update [OF i(1), of "Some dt"] i(2) dt(2) by (simp add: dthread_consts)
  then have "sch_n_dthread sch' = int (live_count (sch_dt sch'))" "length (sch_dt sch') = sch_cap sch'" "0 < sch_cap sch'"
    using inv(1) ds(1-3) by (simp_all add: sch'_def inv_slots_def)
  moreover have "dt_obj t < Suc nxt" if "th sch' j t" for j t
    using that old [of j t] dt(1) by (auto simp: th split: if_splits)
  moreover have "j = k" if "th sch' j t" "th sch' k u" "dt_obj t = dt_obj u" for j k t u
  proof -
    have "th sch j t \<Longrightarrow> th sch k u \<Longrightarrow> j = k" using that(3) inv(1) unfolding inv_slots_def by blast
    moreover have "if j = i then t = dt else th sch j t" "if k = i then u = dt else th sch k u"
      using that(1,2) unfolding th .
    ultimately show ?thesis using old [of j t] old [of k u] dt(1) that(3) by (metis less_irrefl)
  qed
  ultimately have 1: "inv_slots (Suc nxt) sch'" unfolding inv_slots_def by blast
  have 2: "inv_status sch'"
    using inv(2) dt(2,3) unfolding inv_status_def th run by (simp add: dthread_consts)
  have link: "link_ok (Suc nxt) sch' t" if "link_ok nxt sch t" for t
  proof -
    have "dt_parent_id t = int j \<and> dt_status u \<noteq> DTHREAD_READY"
      if "ob < nxt" "\<forall>j u. th sch j u \<and> dt_obj u = ob \<and> dt_status u \<noteq> DTHREAD_DEAD \<longrightarrow>
           dt_parent_id t = int j \<and> dt_status u \<noteq> DTHREAD_READY" "th sch' j u" "dt_obj u = ob" "dt_status u \<noteq> DTHREAD_DEAD" for ob j u
      using that dt(1) by (cases "j = i") (simp_all add: th)
    with that show ?thesis unfolding link_ok_def by (metis less_SucI)
  qed
  have 3: "inv_link (Suc nxt) sch'"
  proof -
    have "link_ok (Suc nxt) sch' t" if "th sch' j t" "started t" for j t
      using that inv(3) dt(2) link by (cases "j = i") (auto simp: th inv_link_def started_def dthread_consts)
    then show ?thesis unfolding inv_link_def by blast
  qed
  have "inv_ctl c sch'"
  proof (cases c)
    case (ThCtx ob)
    with ctl obtain k t where k: "sch_running_id sch = int k" "th sch k t" "dt_obj t = ob" "started t" by (auto simp: inv_ctl_def)
    with ds(5) [OF k(2)] i(2) have "k \<noteq> i" by (auto simp: started_def dthread_consts)
    with k ThCtx show ?thesis by (auto simp: inv_ctl_def run th)
  qed (use ctl run in \<open>simp add: inv_ctl_def\<close>)
  with 1 2 3 show ?thesis by (simp add: inv_core_def)
qed

lemma duda_dthread_create_inv:
  assumes "dthread_inv w" "duda_dthread_create f d w = Inr (i, w')"
  shows "dthread_inv w'"
proof -
  define sch where "sch = (case dw_sch w of None \<Rightarrow> duda_dthread_open | Some s \<Rightarrow> s)"
  have inv: "inv_core (dw_next w) sch" "inv_ctl (dw_ctl w) sch"
    using assms(1) inv_open by (auto simp: dthread_inv_core sch_def split: option.splits)
  then have slots: "inv_slots (dw_next w) sch" by (simp add: inv_core_def)
  define grow where "grow = (sch_n_dthread sch \<ge> int (sch_cap sch))"
  define ds where "ds = (if grow then sch_dt sch @ replicate (sch_cap sch) None else sch_dt sch)"
  define k where "k = (if grow then sch_cap sch else dt_slot (sch_dt sch) 0)"
  define dt where "dt = \<lparr>dt_obj = dw_next w, dt_func = f, dt_data = d, dt_status = DTHREAD_READY,
                dt_parent_id = -1, dt_link = None, dt_chan_list = []\<rparr>"
  note slot = create_slot [OF slots, folded grow_def, folded ds_def k_def]
  let ?cap = "if grow then 2 * sch_cap sch else sch_cap sch"
  let ?sch = "sch\<lparr>sch_n_dthread := sch_n_dthread sch + 1, sch_cap := ?cap, sch_dt := ds[k := Some dt]\<rparr>"
  have w': "w' = w\<lparr>dw_sch := Some ?sch, dw_next := dw_next w + 1\<rparr>"
  proof -
    have "duda_dthread_create f d w = Inr (int k, w\<lparr>dw_sch := Some ?sch, dw_next := dw_next w + 1\<rparr>)"
      unfolding duda_dthread_create_def Let_def sch_def [symmetric] grow_def [symmetric] ds_def [symmetric] k_def [symmetric]
        dt_def [symmetric] using slot(1) by (simp only: wr_ok run_bind_Inr)
    with assms(2) show ?thesis by simp
  qed
  have len: "length (sch_dt sch) = sch_cap sch" "0 < sch_cap sch" using slots by (auto simp: inv_slots_def)
  have a: "th sch j t" if "j < length ds" "ds ! j = Some t" for j t
    using that len by (auto simp: ds_def th_def nth_append split: if_splits)
  have b: "j < length ds \<and> ds ! j = Some t" if "th sch j t" for j t
    using that len by (auto simp: ds_def th_def nth_append)
  have cap: "0 < ?cap" using len(2) by simp
  have "inv_core (Suc (dw_next w)) ?sch \<and> inv_ctl (dw_ctl w) ?sch"
    by (rule create_core_inv [OF inv slot cap a b]) (simp_all add: dt_def)
  then show ?thesis by (simp add: w' dthread_inv_core)
qed

lemma dstep_inv: "dstep w a w' \<Longrightarrow> dthread_inv w \<Longrightarrow> dthread_inv w'"
  by (erule dstepE) (auto intro: duda_dthread_create_inv duda_dthread_resume_inv duda_dthread_yield_inv duda_dthread_finish_inv)

lemma dsteps_inv: "dsteps w ops w' \<Longrightarrow> dthread_inv w \<Longrightarrow> dthread_inv w'"
  by (induction rule: dsteps.induct) (auto intro: dstep_inv)

section \<open>Executing a list of operations\<close>

definition executing_slot :: "nat \<Rightarrow> duda_dthread_scheduler_t \<Rightarrow> nat" where
  "executing_slot ob sch =
     length (takeWhile (\<lambda>d. case d of None \<Rightarrow> True | Some t \<Rightarrow> dt_obj t \<noteq> ob) (sch_dt sch))"

definition dfinish :: "dworker \<Rightarrow> dworker run" where
  "dfinish w = (case (dw_ctl w, dw_sch w) of
     (ThCtx ob, Some sch) \<Rightarrow> duda_dthread_entry_point_end (int (executing_slot ob sch)) w | _ \<Rightarrow> Inl Aborted)"

fun dexec :: "dop \<Rightarrow> dworker \<Rightarrow> dworker run" where
  "dexec (Create f d) w = run_bind (duda_dthread_create f d w) (\<lambda>(_, w'). Inr w')"
| "dexec (Resume i) w = duda_dthread_resume i w"
| "dexec Yield w = duda_dthread_yield w"
| "dexec Finish w = dfinish w"

primrec dexecs :: "dop list \<Rightarrow> dworker \<Rightarrow> dworker run" where
  "dexecs [] w = Inr w"
| "dexecs (a # ops) w = run_bind (dexec a w) (dexecs ops)"

lemma executing_slot_th:
  assumes "thread_at sch (int (executing_slot ob sch)) = Inr t"
  shows "dt_obj t = ob"
proof -
  let ?P = "\<lambda>d. case d of None \<Rightarrow> True | Some t \<Rightarrow> dt_obj t \<noteq> ob"
  from assms have "th sch (executing_slot ob sch) t" by (simp add: thread_at_th)
  then have "length (takeWhile ?P (sch_dt sch)) < length (sch_dt sch)"
    "sch_dt sch ! length (takeWhile ?P (sch_dt sch)) = Some t" by (auto simp: th_def executing_slot_def)
  with nth_length_takeWhile [of ?P "sch_dt sch"] show ?thesis by simp
qed

lemma dexec_dstep: "dexec a w = Inr w' \<Longrightarrow> dstep w a w'"
proof (cases a)
  case Finish
  assume "dexec a w = Inr w'"
  with Finish obtain ob sch where w: "dw_ctl w = ThCtx ob" "dw_sch w = Some sch"
    and e: "duda_dthread_entry_point_end (int (executing_slot ob sch)) w = Inr w'"
    by (auto simp: dfinish_def split: ctx.splits option.splits)
  from e w obtain t where "thread_at sch (int (executing_slot ob sch)) = Inr t"
    by (auto simp: duda_dthread_entry_point_end_def the_sch_def run_bind_eq_Inr)
  with w e Finish show ?thesis using executing_slot_th by (auto intro: dstep.finish)
qed (auto simp: run_bind_eq_Inr intro: dstep.intros)

lemma dexecs_dsteps: "dexecs ops w' = Inr w'' \<Longrightarrow> dsteps w pre w' \<Longrightarrow> dsteps w (pre @ ops) w''"
proof (induction ops arbitrary: pre w')
  case (Cons a ops)
  from Cons.prems(1) obtain w1 where "dexec a w' = Inr w1" "dexecs ops w1 = Inr w''" by (auto simp: run_bind_eq_Inr)
  with Cons.IH [of w1 "pre @ [a]"] dsteps.snoc [OF Cons.prems(2) dexec_dstep] show ?case by simp
qed (simp)

section \<open>Properties\<close>

text \<open>
  C5. In every state a worker reaches by creating, resuming, yielding and finishing threads, in
  any order and by any thread: the stack that executes is the one \<open>running_id\<close> names (the worker's
  own when it is -1), \<open>n_dthread\<close> is the number of threads that have not finished, at most the
  named thread has the status running, and no two slots hold the same thread object.
\<close>

theorem duda_dthread_reachable_invariant:
  assumes "dsteps dworker_init ops w" "dw_sch w = Some sch"
  shows "(case dw_ctl w of MainCtx \<Rightarrow> sch_running_id sch = -1
      | ThCtx ob \<Rightarrow> \<exists>i t. sch_running_id sch = int i \<and> i < sch_cap sch \<and> sch_dt sch ! i = Some t \<and> dt_obj t = ob \<and>
          dt_status t \<in> {DTHREAD_RUNNING, DTHREAD_SUSPEND}) \<and>
    sch_n_dthread sch = int (length (filter (\<lambda>d. \<not> dt_free d) (sch_dt sch))) \<and>
    (\<forall>i < sch_cap sch. \<forall>t. sch_dt sch ! i = Some t \<and> dt_status t = DTHREAD_RUNNING \<longrightarrow> sch_running_id sch = int i) \<and>
    (\<forall>i < sch_cap sch. \<forall>j < sch_cap sch. \<forall>t u. sch_dt sch ! i = Some t \<and> sch_dt sch ! j = Some u \<and> dt_obj t = dt_obj u \<longrightarrow> i = j)"
proof -
  have "dthread_inv dworker_init" by (simp add: dthread_inv_def dworker_init_def)
  with assms(1) have "dthread_inv w" by (rule dsteps_inv)
  with assms(2) have inv: "inv_slots (dw_next w) sch" "inv_status sch" "inv_ctl (dw_ctl w) sch" by (auto simp: dthread_inv_def)
  then have len: "length (sch_dt sch) = sch_cap sch" by (simp add: inv_slots_def)
  have "case dw_ctl w of MainCtx \<Rightarrow> sch_running_id sch = -1
      | ThCtx ob \<Rightarrow> \<exists>i t. sch_running_id sch = int i \<and> i < sch_cap sch \<and> sch_dt sch ! i = Some t \<and> dt_obj t = ob \<and>
          dt_status t \<in> {DTHREAD_RUNNING, DTHREAD_SUSPEND}"
    using inv(3) len by (auto simp: inv_ctl_def th_def started_def split: ctx.splits)
  moreover have "sch_n_dthread sch = int (length (filter (\<lambda>d. \<not> dt_free d) (sch_dt sch)))"
    using inv(1) by (simp add: inv_slots_def live_count_def)
  moreover have "sch_running_id sch = int i" if "i < sch_cap sch" "sch_dt sch ! i = Some t" "dt_status t = DTHREAD_RUNNING" for i t
    using that len inv_statusD(2) [OF inv(2), of i t] by (simp add: th_def)
  moreover have "i = j" if "i < sch_cap sch" "j < sch_cap sch" "sch_dt sch ! i = Some t" "sch_dt sch ! j = Some u" "dt_obj t = dt_obj u" for i j t u
    using that len inv(1) unfolding inv_slots_def th_def by metis
  ultimately show ?thesis by blast
qed

theorem duda_dthread_reachable_invariant_witness:
  "\<exists>w sch. dexecs [Create 1 2, Resume 0] dworker_init = Inr w \<and> dw_sch w = Some sch \<and> dw_ctl w = ThCtx 0 \<and>
    (\<exists>i t. sch_running_id sch = int i \<and> i < sch_cap sch \<and> sch_dt sch ! i = Some t \<and> dt_obj t = 0)"
proof -
  have "(case dexecs [Create 1 2, Resume 0] dworker_init of Inl e \<Rightarrow> None
      | Inr w \<Rightarrow> (case dw_sch w of None \<Rightarrow> None | Some _ \<Rightarrow> Some (dw_ctl w))) = Some (ThCtx 0)" by code_simp
  then obtain w where w: "dexecs [Create 1 2, Resume 0] dworker_init = Inr w" and ctl: "dw_ctl w = ThCtx 0" "\<exists>sch. dw_sch w = Some sch"
    by (auto split: sum.splits option.splits)
  from ctl(2) obtain sch where sch: "dw_sch w = Some sch" by blast
  from duda_dthread_reachable_invariant [OF dexecs_dsteps [OF w dsteps.nil, simplified] sch] ctl(1) sch w
  show ?thesis by auto
qed

text \<open>
  Creating a thread in any reachable state succeeds; the returned index is inside the table,
  its slot was empty or held a finished thread, the new thread is ready there, and every thread
  that has not finished keeps its slot and its state, also when the table is doubled.
\<close>

theorem duda_dthread_create_keeps_threads:
  assumes "dsteps dworker_init ops w"
  defines "old \<equiv> (case dw_sch w of None \<Rightarrow> duda_dthread_open | Some s \<Rightarrow> s)"
  shows "\<exists>i w' sch. duda_dthread_create f d w = Inr (int i, w') \<and> dw_sch w' = Some sch \<and> i < sch_cap sch \<and>
    (i < sch_cap old \<longrightarrow> dt_free (sch_dt old ! i)) \<and>
    (\<exists>t. sch_dt sch ! i = Some t \<and> dt_status t = DTHREAD_READY \<and> dt_func t = f \<and> dt_data t = d) \<and>
    (\<forall>j t. th old j t \<and> dt_status t \<noteq> DTHREAD_DEAD \<longrightarrow> j \<noteq> i \<and> th sch j t)"
proof -
  have "dthread_inv dworker_init" by (simp add: dthread_inv_def dworker_init_def)
  with assms(1) have "dthread_inv w" by (rule dsteps_inv)
  then have slots: "inv_slots (dw_next w) old"
    using inv_open by (auto simp: dthread_inv_core inv_core_def old_def split: option.splits)
  define grow where "grow = (sch_n_dthread old \<ge> int (sch_cap old))"
  define ds where "ds = (if grow then sch_dt old @ replicate (sch_cap old) None else sch_dt old)"
  define k where "k = (if grow then sch_cap old else dt_slot (sch_dt old) 0)"
  define dt where "dt = \<lparr>dt_obj = dw_next w, dt_func = f, dt_data = d, dt_status = DTHREAD_READY,
                dt_parent_id = -1, dt_link = None, dt_chan_list = []\<rparr>"
  note slot = create_slot [OF slots, folded grow_def, folded ds_def k_def]
  let ?cap = "if grow then 2 * sch_cap old else sch_cap old"
  let ?sch = "old\<lparr>sch_n_dthread := sch_n_dthread old + 1, sch_cap := ?cap, sch_dt := ds[k := Some dt]\<rparr>"
  have create: "duda_dthread_create f d w = Inr (int k, w\<lparr>dw_sch := Some ?sch, dw_next := dw_next w + 1\<rparr>)"
    unfolding duda_dthread_create_def Let_def old_def [symmetric] grow_def [symmetric] ds_def [symmetric] k_def [symmetric]
      dt_def [symmetric] using slot(1) by (simp only: wr_ok run_bind_Inr)
  have len: "length (sch_dt old) = sch_cap old" using slots by (simp add: inv_slots_def)
  have old: "j < length ds \<and> ds ! j = sch_dt old ! j" if "j < sch_cap old" for j
    using that len by (simp add: ds_def nth_append)
  have "j \<noteq> k \<and> th ?sch j t" if "th old j t" "dt_status t \<noteq> DTHREAD_DEAD" for j t
  proof -
    have "j < sch_cap old" "ds ! j = Some t" using that(1) old [of j] len by (auto simp: th_def)
    with that(2) slot(2) have "j \<noteq> k" by auto
    with \<open>ds ! j = Some t\<close> old [OF \<open>j < sch_cap old\<close>] show ?thesis by (simp add: th_def)
  qed
  moreover have "k < sch_cap old \<longrightarrow> dt_free (sch_dt old ! k)" using slot(2) old [of k] by auto
  moreover have "k < sch_cap ?sch" using slot(1,4) by simp
  moreover have "sch_dt ?sch ! k = Some dt" using slot(1) by simp
  moreover have "dt_status dt = DTHREAD_READY" "dt_func dt = f" "dt_data dt = d" by (simp_all add: dt_def)
  moreover have "dw_sch (w\<lparr>dw_sch := Some ?sch, dw_next := dw_next w + 1\<rparr>) = Some ?sch" by simp
  ultimately show ?thesis using create by blast
qed

theorem duda_dthread_create_keeps_threads_witness:
  "\<exists>i w' sch. duda_dthread_create 4 5 dworker_init = Inr (int i, w') \<and> dw_sch w' = Some sch \<and> i < sch_cap sch \<and>
    (\<exists>t. sch_dt sch ! i = Some t \<and> dt_status t = DTHREAD_READY \<and> dt_func t = 4 \<and> dt_data t = 5)"
  using duda_dthread_create_keeps_threads [OF dsteps.nil, of 4 5] by blast

text \<open>
  A thread that outlives the thread that first resumed it continues a dead stack when it
  ends: the worker resumes the first thread, which resumes the second one; the second yields, the
  first is resumed and ends, the second is resumed and ends. Its \<open>uc_link\<close> is the context of the
  finished first thread.
\<close>

theorem duda_dthread_orphan_continues_dead_context:
  "\<exists>w. dsteps dworker_init [Create 1 0, Create 2 0, Resume 0, Resume 1, Yield, Resume 0, Finish, Resume 1] w \<and>
     dw_ctl w = ThCtx 1 \<and> duda_dthread_entry_point_end 1 w = Inl DeadContext"
proof -
  let ?ops = "[Create 1 0, Create 2 0, Resume 0, Resume 1, Yield, Resume 0, Finish, Resume 1]"
  have "case dexecs ?ops dworker_init of Inl e \<Rightarrow> False
      | Inr w \<Rightarrow> dw_ctl w = ThCtx 1 \<and> (case duda_dthread_entry_point_end 1 w of Inl DeadContext \<Rightarrow> True | _ \<Rightarrow> False)"
    by code_simp
  then obtain w where w: "dexecs ?ops dworker_init = Inr w" "dw_ctl w = ThCtx 1" "duda_dthread_entry_point_end 1 w = Inl DeadContext"
    by (auto split: sum.splits fault.splits)
  with dexecs_dsteps [OF w(1) dsteps.nil] show ?thesis by auto
qed

end
