(* ===== verification/Duda_Dthread_Channel.thy ===== *)
theory Duda_Dthread_Channel
  imports Duda_Dthread
begin

text \<open>
  \<open>lib/objects/duda_dthread_channel.c\<close> and its header: channels between cooperative threads. A
  sender that finds the channel full and a receiver that finds it empty resume the other thread;
  what happens to the channel until control comes back is the argument \<open>resume\<close>. Element data are
  numbers (the code copies pointers without looking at them).
\<close>

section \<open>State and operations\<close>

definition DTHREAD_CHANNEL_OK :: int where "DTHREAD_CHANNEL_OK = 0"
definition DTHREAD_CHANNEL_BROKEN :: int where "DTHREAD_CHANNEL_BROKEN = -32"

record duda_dthread_channel_t =
  ch_size :: int
  ch_used :: int
  ch_bufs :: "nat list"
  ch_sender :: int
  ch_receiver :: int
  ch_ended :: int
  ch_done :: int

definition duda_dthread_channel_create :: "int \<Rightarrow> duda_dthread_channel_t" where
  "duda_dthread_channel_create sz =
     \<lparr>ch_size = sz + 1, ch_used = 0, ch_bufs = [], ch_sender = -1, ch_receiver = -1, ch_ended = 0, ch_done = 0\<rparr>"

text \<open>
  Releasing a channel unlinks it from the list \<open>chans\<close> of its receiver when it has one; the
  elements still buffered are not released (the result is the list and the leaked elements).
\<close>

definition duda_dthread_channel_free :: "nat \<Rightarrow> duda_dthread_channel_t \<Rightarrow> nat list \<Rightarrow> nat list \<times> nat list" where
  "duda_dthread_channel_free self chan chans =
     ((if ch_receiver chan \<noteq> -1 then remove1 self chans else chans), ch_bufs chan)"

definition duda_dthread_channel_send ::
  "nat mk_list_adder \<Rightarrow> (int \<Rightarrow> duda_dthread_channel_t \<Rightarrow> duda_dthread_channel_t run) \<Rightarrow> nat \<Rightarrow> duda_dthread_channel_t \<Rightarrow>
     (int \<times> duda_dthread_channel_t) run" where
  "duda_dthread_channel_send add resume data chan =
     (if ch_receiver chan = -1 then Inr (DTHREAD_CHANNEL_BROKEN, chan)
      else run_bind (if ch_used chan = ch_size chan then resume (ch_receiver chan) chan else Inr chan) (\<lambda>chan.
        Inr (DTHREAD_CHANNEL_OK, chan\<lparr>ch_bufs := add data (ch_bufs chan), ch_used := ch_used chan + 1\<rparr>)))"

text \<open>
  \<open>mk_list_entry_first\<close> on an empty list yields an address computed from the list head itself, which
  is no element: reading its data is \<open>OutOfBounds\<close>.
\<close>

definition duda_dthread_channel_recv ::
  "(int \<Rightarrow> duda_dthread_channel_t \<Rightarrow> duda_dthread_channel_t run) \<Rightarrow> duda_dthread_channel_t \<Rightarrow>
     (nat \<times> duda_dthread_channel_t) run" where
  "duda_dthread_channel_recv resume chan =
     (if ch_done chan \<noteq> 0 then Inl Aborted
      else run_bind (if ch_used chan = 0 then resume (ch_sender chan) chan else Inr chan) (\<lambda>chan.
        case ch_bufs chan of [] \<Rightarrow> Inl OutOfBounds
        | data # rest \<Rightarrow>
            (let chan1 = chan\<lparr>ch_bufs := rest, ch_used := ch_used chan - 1\<rparr>
             in Inr (data, if ch_used chan1 = 0 \<and> ch_ended chan1 \<noteq> 0 then chan1\<lparr>ch_done := 1\<rparr> else chan1))))"

definition duda_dthread_channel_get_sender :: "duda_dthread_channel_t \<Rightarrow> int" where
  "duda_dthread_channel_get_sender chan = ch_sender chan"

definition duda_dthread_channel_set_sender :: "duda_dthread_channel_t \<Rightarrow> int \<Rightarrow> duda_dthread_channel_t" where
  "duda_dthread_channel_set_sender chan s = chan\<lparr>ch_sender := s\<rparr>"

definition duda_dthread_channel_get_receiver :: "duda_dthread_channel_t \<Rightarrow> int" where
  "duda_dthread_channel_get_receiver chan = ch_receiver chan"

text \<open>The new receiver also gets the channel in its list, which its end walks.\<close>

definition duda_dthread_channel_set_receiver ::
  "nat mk_list_adder \<Rightarrow> nat \<Rightarrow> duda_dthread_channel_t \<Rightarrow> int \<Rightarrow> dworker \<Rightarrow> (duda_dthread_channel_t \<times> dworker) run" where
  "duda_dthread_channel_set_receiver add self chan r w =
     run_bind (duda_dthread_add_channel add r self w) (\<lambda>w'. Inr (chan\<lparr>ch_receiver := r\<rparr>, w'))"

definition duda_dthread_channel_done :: "duda_dthread_channel_t \<Rightarrow> int" where
  "duda_dthread_channel_done chan = ch_done chan"

definition duda_dthread_channel_end :: "duda_dthread_channel_t \<Rightarrow> duda_dthread_channel_t" where
  "duda_dthread_channel_end chan = chan\<lparr>ch_ended := 1\<rparr>"

section \<open>Histories\<close>

text \<open>
  A history lists what happens to a channel, in the order of the effects. A call that had to wait
  was made in an earlier state \<open>c0\<close> of the channel (full for a send, empty for a receive) and takes
  effect in the present one; a call that does not wait takes effect where it is made.
\<close>

datatype chan_ev = Sent nat | Received nat | Ended | SenderSet int | ReceiverSet int

inductive chan_step :: "nat mk_list_adder \<Rightarrow> duda_dthread_channel_t \<Rightarrow> chan_ev \<Rightarrow> duda_dthread_channel_t \<Rightarrow> bool"
  for add where
  sent: "(ch_used c0 \<noteq> ch_size c0 \<longrightarrow> c0 = c) \<Longrightarrow>
    duda_dthread_channel_send add (\<lambda>_ _. Inr c) d c0 = Inr (DTHREAD_CHANNEL_OK, c') \<Longrightarrow> chan_step add c (Sent d) c'"
| received: "(ch_used c0 \<noteq> 0 \<longrightarrow> c0 = c) \<Longrightarrow>
    duda_dthread_channel_recv (\<lambda>_ _. Inr c) c0 = Inr (d, c') \<Longrightarrow> chan_step add c (Received d) c'"
| ended: "chan_step add c Ended (duda_dthread_channel_end c)"
| sender_set: "chan_step add c (SenderSet s) (duda_dthread_channel_set_sender c s)"
| receiver_set: "chan_step add c (ReceiverSet r) (c\<lparr>ch_receiver := r\<rparr>)"

inductive_cases chan_stepE: "chan_step add c a c'"

inductive chan_steps :: "nat mk_list_adder \<Rightarrow> duda_dthread_channel_t \<Rightarrow> chan_ev list \<Rightarrow> duda_dthread_channel_t \<Rightarrow> bool"
  for add c where
  nil: "chan_steps add c [] c"
| snoc: "chan_steps add c evs c' \<Longrightarrow> chan_step add c' a c'' \<Longrightarrow> chan_steps add c (evs @ [a]) c''"

fun ev_sent :: "chan_ev \<Rightarrow> nat list" where
  "ev_sent (Sent d) = [d]"
| "ev_sent _ = []"

fun ev_received :: "chan_ev \<Rightarrow> nat list" where
  "ev_received (Received d) = [d]"
| "ev_received _ = []"

definition sent_data :: "chan_ev list \<Rightarrow> nat list" where
  "sent_data evs = concat (map ev_sent evs)"

definition received_data :: "chan_ev list \<Rightarrow> nat list" where
  "received_data evs = concat (map ev_received evs)"

lemma chan_data_snoc [simp]:
  "sent_data (evs @ [a]) = sent_data evs @ ev_sent a"
  "received_data (evs @ [a]) = received_data evs @ ev_received a"
  "sent_data [] = []" "received_data [] = []"
  by (simp_all add: sent_data_def received_data_def)

lemma chan_step_sent:
  assumes "chan_step add c (Sent d) c'"
  shows "c' = c\<lparr>ch_bufs := add d (ch_bufs c), ch_used := ch_used c + 1\<rparr>"
  using assms by (rule chan_stepE)
    (auto simp: duda_dthread_channel_send_def DTHREAD_CHANNEL_OK_def DTHREAD_CHANNEL_BROKEN_def split: if_splits)

lemma chan_step_received:
  assumes "chan_step add c (Received d) c'"
  shows "\<exists>rest. ch_bufs c = d # rest \<and>
    c' = (let c1 = c\<lparr>ch_bufs := rest, ch_used := ch_used c - 1\<rparr>
          in if ch_used c1 = 0 \<and> ch_ended c1 \<noteq> 0 then c1\<lparr>ch_done := 1\<rparr> else c1)"
  using assms by (rule chan_stepE)
    (auto simp: duda_dthread_channel_recv_def Let_def split: if_splits list.splits)

definition chan_ok :: "chan_ev list \<Rightarrow> duda_dthread_channel_t \<Rightarrow> bool" where
  "chan_ok evs c \<longleftrightarrow> sent_data evs = received_data evs @ ch_bufs c \<and> ch_used c = int (length (ch_bufs c))"

lemma chan_step_ok:
  assumes "mk_list_appends add" "chan_step add c a c'" "chan_ok evs c"
  shows "chan_ok (evs @ [a]) c'"
proof (cases a)
  case (Sent d)
  then show ?thesis
    using assms chan_step_sent [of add c d c'] by (simp add: chan_ok_def mk_list_appendsD)
next
  case (Received d)
  then obtain rest where "ch_bufs c = d # rest"
    "c' = (let c1 = c\<lparr>ch_bufs := rest, ch_used := ch_used c - 1\<rparr>
          in if ch_used c1 = 0 \<and> ch_ended c1 \<noteq> 0 then c1\<lparr>ch_done := 1\<rparr> else c1)"
    using assms(2) chan_step_received by blast
  then show ?thesis using Received assms(3) by (simp add: chan_ok_def Let_def)
next
  case Ended
  with assms(2,3) show ?thesis by (auto simp: chan_ok_def duda_dthread_channel_end_def elim: chan_stepE)
next
  case (SenderSet s)
  with assms(2,3) show ?thesis by (auto simp: chan_ok_def duda_dthread_channel_set_sender_def elim: chan_stepE)
next
  case (ReceiverSet r)
  with assms(2,3) show ?thesis by (auto simp: chan_ok_def elim: chan_stepE)
qed

lemma chan_steps_ok:
  assumes "chan_steps add c evs c'" "mk_list_appends add" "chan_ok [] c"
  shows "chan_ok evs c'"
  using assms by (induction rule: chan_steps.induct) (simp_all add: chan_step_ok)

lemma chan_create_ok: "chan_ok [] (duda_dthread_channel_create sz)"
  by (simp add: chan_ok_def duda_dthread_channel_create_def)

text \<open>
  The flags: the channel is marked done by a receive that empties it after the end was announced.
\<close>

lemma chan_steps_no_end:
  assumes "chan_steps add c evs c'" "Ended \<notin> set evs" "ch_ended c = 0" "ch_done c = 0"
  shows "ch_ended c' = 0 \<and> ch_done c' = 0"
  using assms
proof (induction rule: chan_steps.induct)
  case (snoc evs c' a c'')
  then have "ch_ended c' = 0" "ch_done c' = 0" "a \<noteq> Ended" by auto
  with snoc.hyps(2) show ?case
    by (cases a) (auto simp: duda_dthread_channel_set_sender_def Let_def
        dest!: chan_step_sent chan_step_received elim: chan_stepE)
qed simp

lemma chan_steps_after_end:
  assumes "chan_steps add c evs c'" "set evs \<subseteq> range Received" "ch_ended c \<noteq> 0" "ch_done c = 0"
    "ch_used c = int (length (ch_bufs c))"
  shows "ch_used c' = int (length (ch_bufs c')) \<and> ch_ended c' \<noteq> 0 \<and> (ch_done c' \<noteq> 0 \<longleftrightarrow> evs \<noteq> [] \<and> ch_bufs c' = [])"
  using assms
proof (induction rule: chan_steps.induct)
  case (snoc evs c' a c'')
  then have IH: "ch_used c' = int (length (ch_bufs c'))" "ch_ended c' \<noteq> 0" "ch_done c' \<noteq> 0 \<longleftrightarrow> evs \<noteq> [] \<and> ch_bufs c' = []"
    by simp_all
  from snoc.prems(1) obtain d where "a = Received d" by auto
  with snoc.hyps(2) chan_step_received obtain rest where r: "ch_bufs c' = d # rest"
    "c'' = (let c1 = c'\<lparr>ch_bufs := rest, ch_used := ch_used c' - 1\<rparr>
          in if ch_used c1 = 0 \<and> ch_ended c1 \<noteq> 0 then c1\<lparr>ch_done := 1\<rparr> else c1)"
    by blast
  with IH show ?case by (simp add: Let_def)
qed simp

section \<open>Properties\<close>

text \<open>
  C6. A channel is a first-in first-out queue under every interleaving of its threads: the data
  sent so far are the data received so far followed by the buffered ones, and \<open>used\<close> is the number
  of buffered elements. A receive therefore returns the oldest element that was not received.
\<close>

theorem duda_dthread_channel_fifo:
  assumes "mk_list_appends add" "chan_steps add (duda_dthread_channel_create sz) evs c"
  shows "sent_data evs = received_data evs @ ch_bufs c \<and> ch_used c = int (length (ch_bufs c)) \<and>
    (ch_done c = 0 \<and> ch_bufs c \<noteq> [] \<longrightarrow>
       (\<exists>c'. duda_dthread_channel_recv resume c = Inr (sent_data evs ! length (received_data evs), c') \<and>
             ch_bufs c' = tl (ch_bufs c)))"
proof -
  have ok: "chan_ok evs c" using assms(2,1) chan_create_ok by (rule chan_steps_ok)
  show ?thesis
  proof (cases "ch_bufs c")
    case Nil
    with ok show ?thesis by (simp add: chan_ok_def)
  next
    case (Cons d rest)
    with ok show ?thesis by (simp add: chan_ok_def duda_dthread_channel_recv_def Let_def nth_append)
  qed
qed

theorem duda_dthread_channel_fifo_witness:
  "\<exists>c. chan_steps (\<lambda>x xs. xs @ [x]) (duda_dthread_channel_create 1) [ReceiverSet 0, Sent 7, Sent 8] c \<and>
    [7, 8] = ch_bufs c"
proof -
  let ?add = "\<lambda>x xs. xs @ [x]"
  let ?c0 = "duda_dthread_channel_create 1"
  let ?c1 = "?c0\<lparr>ch_receiver := 0\<rparr>"
  let ?c2 = "?c1\<lparr>ch_bufs := [7], ch_used := 1\<rparr>"
  let ?c3 = "?c2\<lparr>ch_bufs := [7, 8], ch_used := 2\<rparr>"
  have "chan_steps ?add ?c0 ([] @ [ReceiverSet 0]) ?c1" by (rule chan_steps.snoc [OF chan_steps.nil receiver_set])
  moreover have "chan_step ?add ?c1 (Sent 7) ?c2"
    by (rule sent [where ?c0.0 = ?c1]) (simp_all add: duda_dthread_channel_send_def duda_dthread_channel_create_def)
  moreover have "chan_step ?add ?c2 (Sent 8) ?c3"
    by (rule sent [where ?c0.0 = ?c2]) (simp_all add: duda_dthread_channel_send_def duda_dthread_channel_create_def)
  ultimately have "chan_steps ?add ?c0 ((([] @ [ReceiverSet 0]) @ [Sent 7]) @ [Sent 8]) ?c3"
    by (rule chan_steps.snoc [OF chan_steps.snoc])
  then have steps: "chan_steps ?add ?c0 [ReceiverSet 0, Sent 7, Sent 8] ?c3" by simp
  from duda_dthread_channel_fifo [OF _ steps] have "[7, 8] = ch_bufs ?c3" by (simp add: sent_data_def received_data_def)
  with steps show ?thesis by blast
qed

text \<open>
  \<open>chan_done\<close> does not report every finished channel: when the sender announces the end and
  sends nothing more, the channel counts as done exactly when it is empty and something was
  received after the announcement. Announcing the end of an already empty channel leaves it open,
  and the next receive reads an element that does not exist when the sender adds none.
\<close>

theorem duda_dthread_channel_done_iff:
  assumes "mk_list_appends add" "Ended \<notin> set pre" "set post \<subseteq> range Received"
    "chan_steps add (duda_dthread_channel_create sz) pre c"
    "chan_steps add (duda_dthread_channel_end c) post c'"
  shows "(duda_dthread_channel_done c' \<noteq> 0 \<longleftrightarrow> post \<noteq> [] \<and> ch_bufs c' = []) \<and>
    (post = [] \<and> ch_bufs c' = [] \<longrightarrow> duda_dthread_channel_recv (\<lambda>_ c. Inr c) c' = Inl OutOfBounds)"
proof -
  have ok: "chan_ok pre c" using assms(4,1) chan_create_ok by (rule chan_steps_ok)
  have flags: "ch_ended c = 0 \<and> ch_done c = 0" using assms(4,2)
    by (rule chan_steps_no_end) (simp_all add: duda_dthread_channel_create_def)
  have "ch_used c' = int (length (ch_bufs c')) \<and> ch_ended c' \<noteq> 0 \<and> (ch_done c' \<noteq> 0 \<longleftrightarrow> post \<noteq> [] \<and> ch_bufs c' = [])"
    using assms(5,3) by (rule chan_steps_after_end) (use ok flags in \<open>simp_all add: duda_dthread_channel_end_def chan_ok_def\<close>)
  then show ?thesis by (auto simp: duda_dthread_channel_done_def duda_dthread_channel_recv_def)
qed

theorem duda_dthread_channel_done_iff_witness:
  "duda_dthread_channel_done (duda_dthread_channel_end (duda_dthread_channel_create 4)) = 0 \<and>
   duda_dthread_channel_recv (\<lambda>_ c. Inr c) (duda_dthread_channel_end (duda_dthread_channel_create 4)) = Inl OutOfBounds"
  using duda_dthread_channel_done_iff [OF mk_list_appends_snoc _ _ chan_steps.nil chan_steps.nil, of 4]
  by (simp add: duda_dthread_channel_end_def duda_dthread_channel_create_def)

end
