(* ===== verification/Duda_Registry.thy ===== *)
theory Duda_Registry
  imports Duda_Prelude
begin

text \<open>
  Several components keep a linked list of nodes per worker thread and look nodes up by their
  socket: event handlers, websocket connections. The locale states what such a list promises: new
  nodes go to the end, a lookup returns the first node of a socket, a deletion removes it. Seen
  through \<open>of_socket\<close> the list is one queue of nodes per socket.
\<close>

text \<open>\<open>mk_list_foreach\<close> with a return at the first node that matches.\<close>

primrec first_node :: "('n \<Rightarrow> int) \<Rightarrow> int \<Rightarrow> 'n list \<Rightarrow> 'n option" where
  "first_node key fd [] = None"
| "first_node key fd (n # ns) = (if key n = fd then Some n else first_node key fd ns)"

text \<open>\<open>mk_list_foreach_safe\<close> with \<open>mk_list_del\<close> and a return at the first node that matches.\<close>

primrec without_first :: "('n \<Rightarrow> int) \<Rightarrow> int \<Rightarrow> 'n list \<Rightarrow> 'n list" where
  "without_first key fd [] = []"
| "without_first key fd (n # ns) = (if key n = fd then ns else n # without_first key fd ns)"

lemma first_node_filter: "first_node key fd ns = (case filter (\<lambda>n. key n = fd) ns of [] \<Rightarrow> None | n # _ \<Rightarrow> Some n)"
  by (induction ns) simp_all

lemma without_first_filter:
  "filter (\<lambda>n. key n = k) (without_first key fd ns) =
     (if k = fd then tl (filter (\<lambda>n. key n = k) ns) else filter (\<lambda>n. key n = k) ns)"
  by (induction ns) auto

lemma without_first_none: "first_node key fd ns = None \<Longrightarrow> without_first key fd ns = ns"
  by (induction ns) (auto split: if_splits)

lemma first_node_key: "first_node key fd ns = Some n \<Longrightarrow> key n = fd \<and> n \<in> set ns"
  by (induction ns) (auto split: if_splits)

lemma without_first_subset: "set (without_first key fd ns) \<subseteq> set ns"
  by (induction ns) auto

locale socket_list =
  fixes key :: "'n \<Rightarrow> int"
    and insert_node :: "'n \<Rightarrow> 'n list \<Rightarrow> 'n list"
    and lookup_node :: "int \<Rightarrow> 'n list \<Rightarrow> 'n option"
    and delete_node :: "int \<Rightarrow> 'n list \<Rightarrow> int \<times> 'n list"
  assumes insert_law: "insert_node n ns = ns @ [n]"
    and lookup_law: "lookup_node fd ns = first_node key fd ns"
    and delete_law: "delete_node fd ns = (if first_node key fd ns = None then (-1, ns) else (0, without_first key fd ns))"
begin

definition of_socket :: "'n list \<Rightarrow> int \<Rightarrow> 'n list" where
  "of_socket ns k = filter (\<lambda>n. key n = k) ns"

lemma lookup_first: "lookup_node fd ns = (case of_socket ns fd of [] \<Rightarrow> None | n # _ \<Rightarrow> Some n)"
  by (simp add: lookup_law first_node_filter of_socket_def)

lemma insert_last: "of_socket (insert_node n ns) k = (if k = key n then of_socket ns k @ [n] else of_socket ns k)"
  by (simp add: insert_law of_socket_def)

lemma delete_first:
  "of_socket (snd (delete_node fd ns)) k = (if k = fd then tl (of_socket ns k) else of_socket ns k)"
  "fst (delete_node fd ns) = (if of_socket ns fd = [] then -1 else 0)"
  by (auto simp: delete_law of_socket_def without_first_filter first_node_filter split: list.splits)

text \<open>At most one node per socket, and the operation that keeps it so: delete, then insert.\<close>

definition unique :: "'n list \<Rightarrow> bool" where
  "unique ns \<longleftrightarrow> distinct (map key ns)"

lemma unique_of_socket: "unique ns \<longleftrightarrow> (\<forall>k. length (of_socket ns k) \<le> 1)"
proof (induction ns)
  case (Cons n ns)
  have "length (of_socket (n # ns) k) = (if key n = k then Suc (length (of_socket ns k)) else length (of_socket ns k))" for k
    by (simp add: of_socket_def)
  moreover have "key n \<notin> key ` set ns \<longleftrightarrow> of_socket ns (key n) = []"
    unfolding of_socket_def filter_empty_conv image_iff by metis
  ultimately show ?case using Cons by (auto simp: unique_def)
qed (simp add: unique_def of_socket_def)

lemma unique_tl: "unique ns \<Longrightarrow> tl (of_socket ns k) = []"
proof -
  assume "unique ns"
  then have "length (of_socket ns k) \<le> 1" by (simp add: unique_of_socket)
  then show ?thesis by (cases "of_socket ns k") simp_all
qed

lemma delete_unique: "unique ns \<Longrightarrow> unique (snd (delete_node fd ns))"
  unfolding unique_of_socket delete_first by (auto intro: le_trans [OF diff_le_self])

lemma replace_unique:
  assumes "unique ns"
  shows "unique (insert_node n (snd (delete_node (key n) ns)))"
proof -
  show ?thesis using assms unique_tl [OF assms] unfolding unique_of_socket insert_last delete_first by simp
qed

lemma replace_lookup:
  assumes "unique ns"
  shows "lookup_node k (insert_node n (snd (delete_node (key n) ns))) = (if k = key n then Some n else lookup_node k ns)"
proof -
  show ?thesis using unique_tl [OF assms] unfolding lookup_first insert_last delete_first by simp
qed

end

end
