(* ===== verification/Duda_Event.thy ===== *)
theory Duda_Event
  imports Duda_Registry Duda_Dr_List
begin

text \<open>
  \<open>lib/duda_event.c\<close>: the event handlers of a worker thread, and the pipes that carry signal values
  to the workers. A callback is named by a number, \<open>None\<close> is a null function pointer; the list of
  handlers is \<open>None\<close> before the thread has created it.
\<close>

section \<open>Event handlers\<close>

record duda_event_handler =
  eh_sockfd :: int
  eh_mode :: int
  eh_behavior :: int
  eh_cb_on_read :: "nat option"
  eh_cb_on_write :: "nat option"
  eh_cb_on_error :: "nat option"
  eh_cb_on_close :: "nat option"
  eh_cb_on_timeout :: "nat option"
  eh_cb_data :: nat

text \<open>
  \<open>ok\<close> says whether \<open>mem_alloc_z\<close> returns memory, \<open>mk_read\<close> is Monkey's \<open>MK_EVENT_READ\<close>. The node is
  linked before the mode is checked, and the process ends on a bad mode.
\<close>

definition duda_event_add ::
    "duda_event_handler mk_list_adder \<Rightarrow> int \<Rightarrow> bool \<Rightarrow> int \<Rightarrow> int \<Rightarrow> int \<Rightarrow> nat option \<Rightarrow> nat option \<Rightarrow> nat option \<Rightarrow>
     nat option \<Rightarrow> nat option \<Rightarrow> nat \<Rightarrow> duda_event_handler list option \<Rightarrow> (int \<times> duda_event_handler list option) run" where
  "duda_event_add add mk_read ok sockfd init_mode behavior cb_on_read cb_on_write cb_on_error cb_on_close cb_on_timeout data events =
     (if \<not> ok then Inr (-1, events)
      else
        (let eh = \<lparr>eh_sockfd = sockfd, eh_mode = init_mode, eh_behavior = behavior, eh_cb_on_read = cb_on_read,
           eh_cb_on_write = cb_on_write, eh_cb_on_error = cb_on_error, eh_cb_on_close = cb_on_close,
           eh_cb_on_timeout = cb_on_timeout, eh_cb_data = data\<rparr>
         in case events of None \<Rightarrow> Inl NullDeref
            | Some l \<Rightarrow> if init_mode < mk_read then Inl Exited else Inr (0, Some (add eh l))))"

definition duda_event_lookup :: "int \<Rightarrow> duda_event_handler list option \<Rightarrow> duda_event_handler option" where
  "duda_event_lookup sockfd events =
     (case events of None \<Rightarrow> None
      | Some l \<Rightarrow> if l = [] then None else first_node eh_sockfd sockfd l)"

text \<open>\<open>change\<close> is Monkey's \<open>event_socket_change_mode\<close>.\<close>

definition duda_event_mode :: "(int \<Rightarrow> int \<Rightarrow> int \<Rightarrow> int) \<Rightarrow> int \<Rightarrow> int \<Rightarrow> int \<Rightarrow> duda_event_handler list option \<Rightarrow> int" where
  "duda_event_mode change sockfd mode behavior events =
     (case duda_event_lookup sockfd events of None \<Rightarrow> -1 | Some eh \<Rightarrow> change sockfd mode behavior)"

text \<open>
  The result also has the sockets passed to Monkey's \<open>event_del\<close>. The active request is looked up in
  the tree \<open>drs\<close> with the socket itself as the key.
\<close>

definition duda_event_delete ::
    "duda_request tree option \<Rightarrow> int \<Rightarrow> duda_event_handler list option \<Rightarrow> int \<times> duda_event_handler list option \<times> int list" where
  "duda_event_delete drs sockfd events =
     (case events of None \<Rightarrow> (-1, None, [])
      | Some l \<Rightarrow>
          (case first_node eh_sockfd sockfd l of None \<Rightarrow> (-1, Some l, [])
           | Some eh \<Rightarrow> (0, Some (without_first eh_sockfd sockfd l),
               (case duda_dr_list_get sockfd drs of None \<Rightarrow> [sockfd]
                | Some dr \<Rightarrow> if sockfd \<noteq> dr_socket dr then [sockfd] else []))))"

section \<open>Signals\<close>

text \<open>
  A pipe: its two descriptors and the values in it, oldest first. The write end belongs to the
  channel alone and every write and read has \<open>sizeof(uint64_t)\<close> bytes, so the content is a list of
  whole values.
\<close>

record pipe =
  pipe_r :: int
  pipe_w :: int
  pipe_data :: "64 word list"

record duda_event_signal_channel =
  fd_r :: int
  fd_w :: int

record signal_state =
  ss_pipes :: "pipe list"
  ss_signals_list :: "duda_event_signal_channel list"

text \<open>POSIX \<open>write\<close> and \<open>read\<close> of one value; \<open>None\<close> when the pipe does not have a whole one.\<close>

definition pipe_write :: "int \<Rightarrow> 64 word \<Rightarrow> pipe list \<Rightarrow> pipe list" where
  "pipe_write fd val = map (\<lambda>p. if pipe_w p = fd then p\<lparr>pipe_data := pipe_data p @ [val]\<rparr> else p)"

primrec pipe_read :: "int \<Rightarrow> pipe list \<Rightarrow> 64 word option \<times> pipe list" where
  "pipe_read fd [] = (None, [])"
| "pipe_read fd (p # ps) =
     (if pipe_r p = fd then
        (case pipe_data p of [] \<Rightarrow> (None, p # ps) | val # rest \<Rightarrow> (Some val, p\<lparr>pipe_data := rest\<rparr> # ps))
      else (let (val, ps') = pipe_read fd ps in (val, p # ps')))"

text \<open>\<open>room\<close> says for which descriptors the write succeeds; a failed one is only reported.\<close>

primrec signal_loop :: "(int \<Rightarrow> bool) \<Rightarrow> 64 word \<Rightarrow> duda_event_signal_channel list \<Rightarrow> pipe list \<Rightarrow> pipe list" where
  "signal_loop room val [] ps = ps"
| "signal_loop room val (esc # list) ps =
     signal_loop room val list (if room (fd_w esc) then pipe_write (fd_w esc) val ps else ps)"

definition duda_event_signal :: "(int \<Rightarrow> bool) \<Rightarrow> 64 word \<Rightarrow> signal_state \<Rightarrow> int \<times> signal_state" where
  "duda_event_signal room val s = (0, s\<lparr>ss_pipes := signal_loop room val (ss_signals_list s) (ss_pipes s)\<rparr>)"

text \<open>
  \<open>services\<close> has the \<open>event_signal_cb\<close> of every loaded service. The result has the calls made:
  callback, descriptor and value.
\<close>

type_synonym signal_call = "nat \<times> int \<times> 64 word"

definition signal_calls :: "nat option list \<Rightarrow> int \<Rightarrow> 64 word \<Rightarrow> signal_call list" where
  "signal_calls services fd val = concat (map (\<lambda>cb. case cb of None \<Rightarrow> [] | Some f \<Rightarrow> [(f, fd, val)]) services)"

definition duda_event_fd_read :: "int \<Rightarrow> nat option list \<Rightarrow> int \<Rightarrow> signal_state \<Rightarrow> int \<times> signal_call list \<times> signal_state" where
  "duda_event_fd_read owned services fd s =
     (case pipe_read fd (ss_pipes s) of
        (None, _) \<Rightarrow> (-1, [], s)
      | (Some val, ps) \<Rightarrow> (owned, signal_calls services fd val, s\<lparr>ss_pipes := ps\<rparr>))"

text \<open>\<open>fds\<close> is what \<open>pipe\<close> gave, \<open>None\<close> when it failed; \<open>ok\<close> whether \<open>mem_alloc\<close> returned memory.\<close>

definition duda_event_create_signal_fd ::
    "duda_event_signal_channel mk_list_adder \<Rightarrow> (int \<times> int) option \<Rightarrow> bool \<Rightarrow> signal_state \<Rightarrow> (int \<times> signal_state) run" where
  "duda_event_create_signal_fd add fds ok s =
     (case fds of None \<Rightarrow> Inr (-1, s)
      | Some (r, w) \<Rightarrow>
          if \<not> ok then Inl NullDeref
          else Inr (r, s\<lparr>ss_pipes := ss_pipes s @ [\<lparr>pipe_r = r, pipe_w = w, pipe_data = []\<rparr>],
                         ss_signals_list := add \<lparr>fd_r = r, fd_w = w\<rparr> (ss_signals_list s)\<rparr>))"

definition duda_event_loop_wait :: "('l \<Rightarrow> int) \<Rightarrow> 'l \<Rightarrow> int" where
  "duda_event_loop_wait ev_wait loop = ev_wait loop"

section \<open>The handlers are a socket list\<close>

text \<open>Adding a handler given as a record.\<close>

definition event_add_handler ::
    "duda_event_handler mk_list_adder \<Rightarrow> int \<Rightarrow> bool \<Rightarrow> duda_event_handler \<Rightarrow> duda_event_handler list option \<Rightarrow>
     (int \<times> duda_event_handler list option) run" where
  "event_add_handler add mk_read ok eh =
     duda_event_add add mk_read ok (eh_sockfd eh) (eh_mode eh) (eh_behavior eh) (eh_cb_on_read eh) (eh_cb_on_write eh)
       (eh_cb_on_error eh) (eh_cb_on_close eh) (eh_cb_on_timeout eh) (eh_cb_data eh)"

lemma event_add_handler_simp:
  "event_add_handler add mk_read ok eh (Some l) =
     (if \<not> ok then Inr (-1, Some l) else if eh_mode eh < mk_read then Inl Exited else Inr (0, Some (add eh l)))"
  by (cases eh) (simp add: event_add_handler_def duda_event_add_def)

text \<open>The insertion of a handler whose mode is accepted: the threshold is the mode itself.\<close>

interpretation evl: socket_list eh_sockfd
  "\<lambda>eh l. case event_add_handler (\<lambda>x xs. xs @ [x]) (eh_mode eh) True eh (Some l) of Inr (_, Some l') \<Rightarrow> l' | _ \<Rightarrow> l"
  "\<lambda>fd l. duda_event_lookup fd (Some l)"
  "\<lambda>fd l. case duda_event_delete None fd (Some l) of (ret, Some l', _) \<Rightarrow> (ret, l') | (ret, None, _) \<Rightarrow> (ret, [])"
  by unfold_locales
    (auto simp: event_add_handler_simp duda_event_lookup_def duda_event_delete_def split: option.splits)

section \<open>Sequences of registrations\<close>

datatype event_op = EvAdd bool duda_event_handler | EvDelete int

primrec event_step ::
    "duda_event_handler mk_list_adder \<Rightarrow> int \<Rightarrow> duda_request tree option \<Rightarrow> event_op \<Rightarrow> duda_event_handler list option \<Rightarrow>
     (int \<times> duda_event_handler list option) run" where
  "event_step add mk_read drs (EvAdd ok eh) events = event_add_handler add mk_read ok eh events"
| "event_step add mk_read drs (EvDelete fd) events =
     (case duda_event_delete drs fd events of (ret, events', _) \<Rightarrow> Inr (ret, events'))"

primrec event_run ::
    "duda_event_handler mk_list_adder \<Rightarrow> int \<Rightarrow> duda_request tree option \<Rightarrow> event_op list \<Rightarrow> duda_event_handler list option \<Rightarrow>
     (int list \<times> duda_event_handler list option) run" where
  "event_run add mk_read drs [] events = Inr ([], events)"
| "event_run add mk_read drs (op # ops) events =
     run_bind (event_step add mk_read drs op events) (\<lambda>(ret, events').
       run_bind (event_run add mk_read drs ops events') (\<lambda>(rets, events''). Inr (ret # rets, events'')))"

text \<open>The contract: one queue of handlers per socket.\<close>

primrec spec_step :: "event_op \<Rightarrow> (int \<Rightarrow> duda_event_handler list) \<Rightarrow> int \<times> (int \<Rightarrow> duda_event_handler list)" where
  "spec_step (EvAdd ok eh) q = (if ok then (0, q(eh_sockfd eh := q (eh_sockfd eh) @ [eh])) else (-1, q))"
| "spec_step (EvDelete fd) q = (if q fd = [] then (-1, q) else (0, q(fd := tl (q fd))))"

primrec spec_run :: "event_op list \<Rightarrow> (int \<Rightarrow> duda_event_handler list) \<Rightarrow> int list \<times> (int \<Rightarrow> duda_event_handler list)" where
  "spec_run [] q = ([], q)"
| "spec_run (op # ops) q = (let (ret, q') = spec_step op q; (rets, q'') = spec_run ops q' in (ret # rets, q''))"

primrec op_mode_ok :: "int \<Rightarrow> event_op \<Rightarrow> bool" where
  "op_mode_ok mk_read (EvAdd ok eh) \<longleftrightarrow> mk_read \<le> eh_mode eh"
| "op_mode_ok mk_read (EvDelete fd) \<longleftrightarrow> True"


lemma event_step_spec:
  assumes "mk_list_appends add" "op_mode_ok mk_read op" "evl.of_socket l = q"
  shows "\<exists>l'. event_step add mk_read drs op (Some l) = Inr (fst (spec_step op q), Some l') \<and> evl.of_socket l' = snd (spec_step op q)"
proof (cases op)
  case (EvAdd ok eh)
  have "evl.of_socket (l @ [eh]) = q(eh_sockfd eh := q (eh_sockfd eh) @ [eh])"
    using assms(3) by (auto simp: evl.of_socket_def)
  with EvAdd assms show ?thesis by (simp add: event_add_handler_simp mk_list_appendsD)
next
  case (EvDelete fd)
  have q: "q k = filter (\<lambda>n. eh_sockfd n = k) l" for k using assms(3) by (auto simp: evl.of_socket_def)
  show ?thesis
  proof (cases "q fd")
    case Nil
    then have "first_node eh_sockfd fd l = None" by (simp add: first_node_filter q)
    with EvDelete Nil assms(3) show ?thesis by (simp add: duda_event_delete_def)
  next
    case (Cons eh rest)
    then have "first_node eh_sockfd fd l = Some eh" by (simp add: first_node_filter q)
    moreover have "evl.of_socket (without_first eh_sockfd fd l) = q(fd := tl (q fd))"
      by (rule ext) (simp add: evl.of_socket_def without_first_filter q)
    ultimately show ?thesis using EvDelete Cons by (simp add: duda_event_delete_def)
  qed
qed

lemma event_run_spec:
  assumes "mk_list_appends add" "list_all (op_mode_ok mk_read) ops" "evl.of_socket l = q"
  shows "\<exists>l'. event_run add mk_read drs ops (Some l) = Inr (fst (spec_run ops q), Some l') \<and> evl.of_socket l' = snd (spec_run ops q)"
  using assms(2,3)
proof (induction ops arbitrary: l q)
  case (Cons op ops)
  obtain l1 where l1: "event_step add mk_read drs op (Some l) = Inr (fst (spec_step op q), Some l1)" "evl.of_socket l1 = snd (spec_step op q)"
    using event_step_spec [OF assms(1) _ Cons.prems(2)] Cons.prems(1) by fastforce
  from Cons.IH [OF _ l1(2)] Cons.prems(1) obtain l2 where
    "event_run add mk_read drs ops (Some l1) = Inr (fst (spec_run ops (snd (spec_step op q))), Some l2)"
    "evl.of_socket l2 = snd (spec_run ops (snd (spec_step op q)))" by auto
  with l1(1) show ?case by (auto simp: case_prod_beta Let_def)
qed simp

section \<open>Delivery of signals\<close>

text \<open>
  Every channel has its own pipe: the descriptors are distinct, and the pipes are those of the
  channels.
\<close>

definition channels_ok :: "signal_state \<Rightarrow> bool" where
  "channels_ok s \<longleftrightarrow> distinct (map pipe_w (ss_pipes s)) \<and> distinct (map pipe_r (ss_pipes s)) \<and>
     map fd_w (ss_signals_list s) = map pipe_w (ss_pipes s) \<and> map fd_r (ss_signals_list s) = map pipe_r (ss_pipes s)"

lemma pipe_write_fds [simp]: "map pipe_w (pipe_write fd v ps) = map pipe_w ps" "map pipe_r (pipe_write fd v ps) = map pipe_r ps"
  by (auto simp: pipe_write_def)

lemma signal_loop_all:
  assumes "distinct (map fd_w cs)" "\<forall>esc \<in> set cs. room (fd_w esc)"
  shows "signal_loop room val cs ps = map (\<lambda>p. if pipe_w p \<in> fd_w ` set cs then p\<lparr>pipe_data := pipe_data p @ [val]\<rparr> else p) ps"
  using assms by (induction cs arbitrary: ps) (auto simp: pipe_write_def)

lemma pipe_push_fds [simp]: "pipe_w (p\<lparr>pipe_data := d\<rparr>) = pipe_w p" "pipe_r (p\<lparr>pipe_data := d\<rparr>) = pipe_r p"
  by simp_all

definition push_values :: "64 word list \<Rightarrow> pipe list \<Rightarrow> pipe list" where
  "push_values vals = map (\<lambda>p. p\<lparr>pipe_data := pipe_data p @ vals\<rparr>)"

lemma duda_event_signal_all:
  assumes "channels_ok s" "\<forall>esc \<in> set (ss_signals_list s). room (fd_w esc)"
  shows "duda_event_signal room val s = (0, s\<lparr>ss_pipes := push_values [val] (ss_pipes s)\<rparr>)"
proof -
  have "distinct (map fd_w (ss_signals_list s))" using assms(1) by (simp add: channels_ok_def)
  moreover have "fd_w ` set (ss_signals_list s) = pipe_w ` set (ss_pipes s)"
    using assms(1) unfolding channels_ok_def by (metis set_map)
  ultimately show ?thesis
    using signal_loop_all [OF _ assms(2)] by (auto simp: duda_event_signal_def push_values_def)
qed

text \<open>Several signals in a row, and several reads of one descriptor.\<close>

primrec signal_all :: "(int \<Rightarrow> bool) \<Rightarrow> 64 word list \<Rightarrow> signal_state \<Rightarrow> signal_state" where
  "signal_all room [] s = s"
| "signal_all room (v # vs) s = signal_all room vs (snd (duda_event_signal room v s))"

primrec fd_read_n :: "int \<Rightarrow> nat option list \<Rightarrow> int \<Rightarrow> nat \<Rightarrow> signal_state \<Rightarrow> int list \<times> signal_call list \<times> signal_state" where
  "fd_read_n owned services fd 0 s = ([], [], s)"
| "fd_read_n owned services fd (Suc n) s =
     (let (ret, calls, s1) = duda_event_fd_read owned services fd s;
          (rets, calls', s2) = fd_read_n owned services fd n s1
      in (ret # rets, calls @ calls', s2))"

lemma channels_ok_push: "channels_ok s \<Longrightarrow> channels_ok (s\<lparr>ss_pipes := push_values vs (ss_pipes s)\<rparr>)"
  by (simp add: channels_ok_def push_values_def comp_def)

lemma push_values_append: "push_values ws (push_values vs ps) = push_values (vs @ ws) ps"
  by (simp add: push_values_def)

lemma signal_all_push:
  assumes "channels_ok s" "\<forall>esc \<in> set (ss_signals_list s). room (fd_w esc)"
  shows "signal_all room vals s = s\<lparr>ss_pipes := push_values vals (ss_pipes s)\<rparr>"
  using assms
proof (induction vals arbitrary: s)
  case (Cons v vals)
  with Cons.IH [of "s\<lparr>ss_pipes := push_values [v] (ss_pipes s)\<rparr>"] show ?case
    by (simp add: duda_event_signal_all channels_ok_push push_values_append)
qed (simp add: push_values_def)

lemma pipe_read_found:
  assumes "distinct (map pipe_r ps)" "p \<in> set ps" "pipe_data p = v # rest"
  shows "\<exists>ps'. pipe_read (pipe_r p) ps = (Some v, ps') \<and> map pipe_r ps' = map pipe_r ps \<and> p\<lparr>pipe_data := rest\<rparr> \<in> set ps'"
  using assms by (induction ps) (auto split: prod.splits)

lemma fd_read_n_values:
  assumes "distinct (map pipe_r (ss_pipes s))" "p \<in> set (ss_pipes s)" "pipe_data p = vals @ rest"
  shows "\<exists>s'. fd_read_n owned services (pipe_r p) (length vals) s =
    (replicate (length vals) owned, concat (map (signal_calls services (pipe_r p)) vals), s')"
  using assms
proof (induction vals arbitrary: s p)
  case (Cons v vals)
  then obtain ps' where ps': "pipe_read (pipe_r p) (ss_pipes s) = (Some v, ps')" "map pipe_r ps' = map pipe_r (ss_pipes s)"
    "p\<lparr>pipe_data := vals @ rest\<rparr> \<in> set ps'" using pipe_read_found [of "ss_pipes s" p v "vals @ rest"] by auto
  from Cons.IH [of "s\<lparr>ss_pipes := ps'\<rparr>" "p\<lparr>pipe_data := vals @ rest\<rparr>"] Cons.prems(1) ps'(2,3) obtain s' where
    "fd_read_n owned services (pipe_r p) (length vals) (s\<lparr>ss_pipes := ps'\<rparr>) =
      (replicate (length vals) owned, concat (map (signal_calls services (pipe_r p)) vals), s')" by auto
  moreover have "duda_event_fd_read owned services (pipe_r p) s =
      (owned, signal_calls services (pipe_r p) v, s\<lparr>ss_pipes := ps'\<rparr>)"
    by (simp add: duda_event_fd_read_def ps'(1))
  ultimately show ?case by simp
qed simp

text \<open>The channels of several workers, created one after the other from the pipes the system gave.\<close>

primrec create_channels ::
    "duda_event_signal_channel mk_list_adder \<Rightarrow> (int \<times> int) list \<Rightarrow> signal_state \<Rightarrow> signal_state run" where
  "create_channels add [] s = Inr s"
| "create_channels add (fds # rest) s =
     run_bind (duda_event_create_signal_fd add (Some fds) True s) (\<lambda>(_, s'). create_channels add rest s')"

lemma create_channels_ok:
  assumes "mk_list_appends add"
  shows "create_channels add fdss s =
    Inr \<lparr>ss_pipes = ss_pipes s @ map (\<lambda>(r, w). \<lparr>pipe_r = r, pipe_w = w, pipe_data = []\<rparr>) fdss,
         ss_signals_list = ss_signals_list s @ map (\<lambda>(r, w). \<lparr>fd_r = r, fd_w = w\<rparr>) fdss\<rparr>"
  by (induction fdss arbitrary: s)
    (simp_all add: duda_event_create_signal_fd_def mk_list_appendsD [OF assms] case_prod_beta split: prod.splits)

section \<open>Properties\<close>

text \<open>
  C23. Registering and deleting handlers implements one queue of handlers per socket: for every
  sequence of additions with accepted modes and of deletions, each call returns what the queue
  returns, and afterwards a lookup gives the oldest handler of the socket that was not deleted. A
  second handler for a socket is therefore hidden until the first one is deleted.
\<close>

theorem duda_event_refines_queues:
  assumes "mk_list_appends add" "list_all (op_mode_ok mk_read) ops"
  shows "\<exists>l. event_run add mk_read drs ops (Some []) = Inr (fst (spec_run ops (\<lambda>_. [])), Some l) \<and>
    (\<forall>fd. duda_event_lookup fd (Some l) = (case snd (spec_run ops (\<lambda>_. [])) fd of [] \<Rightarrow> None | eh # _ \<Rightarrow> Some eh))"
proof -
  have "evl.of_socket [] = (\<lambda>_. [])" by (auto simp: evl.of_socket_def)
  from event_run_spec [OF assms this] obtain l where
    "event_run add mk_read drs ops (Some []) = Inr (fst (spec_run ops (\<lambda>_. [])), Some l)"
    "evl.of_socket l = snd (spec_run ops (\<lambda>_. []))" by auto
  then show ?thesis by (auto simp: evl.lookup_first)
qed

definition example_handler :: "int \<Rightarrow> nat \<Rightarrow> duda_event_handler" where
  "example_handler fd n = \<lparr>eh_sockfd = fd, eh_mode = 1, eh_behavior = 0, eh_cb_on_read = Some n, eh_cb_on_write = None,
     eh_cb_on_error = None, eh_cb_on_close = None, eh_cb_on_timeout = None, eh_cb_data = 0\<rparr>"

theorem duda_event_refines_queues_witness:
  "\<exists>l. event_run (\<lambda>x xs. xs @ [x]) 1 None [EvAdd True (example_handler 4 1), EvAdd True (example_handler 4 2), EvDelete 4, EvDelete 5] (Some []) =
      Inr ([0, 0, 0, -1], Some l) \<and> duda_event_lookup 4 (Some l) = Some (example_handler 4 2)"
  using duda_event_refines_queues [of "\<lambda>x xs. xs @ [x]" 1
      "[EvAdd True (example_handler 4 1), EvAdd True (example_handler 4 2), EvDelete 4, EvDelete 5]" None]
  by (auto simp: example_handler_def)



end
