(* ===== verification/Duda_Hash.thy ===== *)
theory Duda_Hash
  imports Duda_Bytes
begin

text \<open>
  What the SHA-1 and the SHA-256 package share: messages are absorbed in blocks of 64 bytes, the
  last incomplete block waits in a buffer, and the end of the message is padded with a one bit,
  zero bits and the length. The locale \<open>block_stream\<close> states what a package promises about one
  call of its update and finish routines; its lemmas give the digest of a message that arrives in
  any number of pieces.
\<close>

unbundle bit_operations_syntax

type_synonym u32 = "32 word"

section \<open>Blocks\<close>

text \<open>
  The loop \<open>while (len >= 64)\<close> of both packages: it returns the new state and the bytes that are
  left.
\<close>

function absorb_blocks :: "('s \<Rightarrow> byte list \<Rightarrow> 's) \<Rightarrow> 's \<Rightarrow> byte list \<Rightarrow> 's \<times> byte list" where
  "absorb_blocks f s d = (if 64 \<le> length d then absorb_blocks f (f s (take 64 d)) (drop 64 d) else (s, d))"
  by auto
termination by (relation "measure (\<lambda>(f, s, d). length d)") auto

declare absorb_blocks.simps [simp del]

lemma absorb_short [simp]: "length d < 64 \<Longrightarrow> absorb_blocks f s d = (s, d)"
  by (subst absorb_blocks.simps) simp

lemma absorb_block: "length b = 64 \<Longrightarrow> absorb_blocks f s (b @ d) = absorb_blocks f (f s b) d"
  by (subst absorb_blocks.simps) simp

lemma absorb_append: "absorb_blocks f s (x @ y) = (case absorb_blocks f s x of (s', r) \<Rightarrow> absorb_blocks f s' (r @ y))"
proof (induction f s x rule: absorb_blocks.induct)
  case (1 f s d)
  show ?case
  proof (cases "64 \<le> length d")
    case True
    then have "absorb_blocks f s (d @ y) = absorb_blocks f (f s (take 64 d)) (drop 64 d @ y)"
      by (subst absorb_blocks.simps) simp
    with 1 [OF True] True show ?thesis by (subst (2) absorb_blocks.simps) simp
  qed simp
qed

lemma absorb_rest_length: "length (snd (absorb_blocks f s d)) = length d mod 64"
proof (induction f s d rule: absorb_blocks.induct)
  case (1 f s d)
  then show ?case by (subst absorb_blocks.simps) (simp add: le_mod_geq)
qed

text \<open>The bytes that are left of an input after it has completed the pending block.\<close>

lemma block_fill: "64 - n mod 64 \<le> l \<Longrightarrow> (n + l) mod 64 = (l - (64 - n mod 64)) mod (64 :: nat)"
proof -
  assume le: "64 - n mod 64 \<le> l"
  obtain q r where "q = n div 64" "r = n mod 64" by simp
  then have n: "n = 64 * q + r" "r < 64" by simp_all
  have "64 - r \<le> l" using le by (simp only: \<open>r = n mod 64\<close>)
  with n(2) have "n + l = (l - (64 - r)) + 64 * (q + 1)" unfolding n(1) by simp
  then have "(n + l) mod 64 = (l - (64 - r)) mod 64" by (simp only: mod_mult_self2)
  then show ?thesis by (simp only: \<open>r = n mod 64\<close>)
qed

lemma absorb_simulates:
  assumes "\<And>s b. R s \<Longrightarrow> length b = 64 \<Longrightarrow> R (f s b) \<and> h (f s b) = g (h s) b" "R s"
  shows "absorb_blocks g (h s) d = (h (fst (absorb_blocks f s d)), snd (absorb_blocks f s d)) \<and> R (fst (absorb_blocks f s d))"
  using assms
proof (induction f s d rule: absorb_blocks.induct)
  case (1 f s d)
  show ?case
  proof (cases "64 \<le> length d")
    case True
    have step: "R (f s (take 64 d)) \<and> h (f s (take 64 d)) = g (h s) (take 64 d)"
      using True by (intro 1(2) 1(3)) simp
    have eq: "absorb_blocks f s d = absorb_blocks f (f s (take 64 d)) (drop 64 d)"
      "absorb_blocks g (h s) d = absorb_blocks g (g (h s) (take 64 d)) (drop 64 d)"
      using True by (simp_all add: absorb_blocks.simps [of _ _ d])
    from 1(1) [OF True 1(2) conjunct1 [OF step]] show ?thesis unfolding eq conjunct2 [OF step] .
  qed (use 1(3) in simp)
qed

section \<open>Padding\<close>

text \<open>The bytes of a 32-bit value and of a 64-bit length, most significant first.\<close>

definition be32 :: "'a::len word \<Rightarrow> byte list" where
  "be32 n = [ucast (drop_bit 24 n), ucast (drop_bit 16 n), ucast (drop_bit 8 n), ucast n]"

definition be64 :: "nat \<Rightarrow> byte list" where
  "be64 n = map (\<lambda>i. of_nat (n div 256 ^ i)) [7, 6, 5, 4, 3, 2, 1, 0]"

definition pad_zeros :: "nat \<Rightarrow> nat" where
  "pad_zeros n = (119 - n mod 64) mod 64"

definition md_pad :: "byte list \<Rightarrow> byte list" where
  "md_pad m = m @ 0x80 # replicate (pad_zeros (length m)) 0 @ be64 (8 * length m)"

lemma pad_zeros_eq: "pad_zeros n = (if n mod 64 < 56 then 55 - n mod 64 else 119 - n mod 64)"
proof -
  have "n mod 64 < 64" by simp
  then show ?thesis by (auto simp: pad_zeros_def le_mod_geq)
qed

text \<open>The 32-bit value of four bytes, most significant first, and its computation by shifts.\<close>

definition be_word :: "byte list \<Rightarrow> nat \<Rightarrow> u32" where
  "be_word b i = of_nat (unat (b ! i) * 256 ^ 3 + unat (b ! (i + 1)) * 256 ^ 2 + unat (b ! (i + 2)) * 256 + unat (b ! (i + 3)))"

lemma unat_shift_or:
  assumes "32 \<le> LENGTH('a::len)"
  shows "unat (push_bit 24 (ucast b0) OR push_bit 16 (ucast b1) OR push_bit 8 (ucast b2) OR ucast b3 :: 'a word) =
    unat (b0 :: byte) * 256 ^ 3 + unat (b1 :: byte) * 256 ^ 2 + unat (b2 :: byte) * 256 + unat (b3 :: byte)"
proof -
  let ?A = "ucast b0 :: 'a word" and ?B = "ucast b1 :: 'a word" and ?C = "ucast b2 :: 'a word" and ?D = "ucast b3 :: 'a word"
  have pow: "(2 :: nat) ^ 32 \<le> 2 ^ LENGTH('a)" using assms by (rule power_increasing) simp
  have byte: "unat (ucast c :: 'a word) = unat c" for c :: byte
  proof -
    have "unat c < 2 ^ 32" using byte_unat_less [of c] by (rule less_trans) simp
    then have "unat c < 2 ^ LENGTH('a)" using pow by (rule less_le_trans)
    then show ?thesis by (simp add: unsigned_ucast_eq take_bit_nat_eq_self_iff)
  qed
  have step: "unat (push_bit 8 x OR ucast c :: 'a word) = unat x * 256 + unat c" if "unat x < 2 ^ 24" for x and c :: byte
  proof -
    have "unat x * 2 ^ 8 < 2 ^ 32" using that by simp
    then have "unat x * 2 ^ 8 < 2 ^ LENGTH('a)" using pow by (rule less_le_trans)
    moreover have "8 \<le> LENGTH('a)" using assms by simp
    ultimately show ?thesis using unat_push_or_word [of "ucast c :: 'a word" 8 x] by (simp add: byte)
  qed
  have nest: "push_bit 24 ?A OR push_bit 16 ?B OR push_bit 8 ?C OR ?D = push_bit 8 (push_bit 8 (push_bit 8 ?A OR ?B) OR ?C) OR ?D"
    by (simp add: push_bit_or push_bit_push_bit or.assoc)
  have gen: "p < 2 ^ 24" "p * 256 + q < 2 ^ 24" "(p * 256 + q) * 256 + r < 2 ^ 24" if "p < 256" "q < 256" "r < 256" for p q r :: nat
    using that by simp_all
  note small = gen [OF byte_unat_less byte_unat_less byte_unat_less]
  have s1: "unat (push_bit 8 ?A OR ?B) = unat b0 * 256 + unat b1" using step [of ?A b1, unfolded byte, OF small(1)] .
  have s2: "unat (push_bit 8 (push_bit 8 ?A OR ?B) OR ?C) = (unat b0 * 256 + unat b1) * 256 + unat b2"
    using step [of "push_bit 8 ?A OR ?B" b2, unfolded s1, OF small(2)] .
  have s3: "unat (push_bit 8 (push_bit 8 (push_bit 8 ?A OR ?B) OR ?C) OR ?D) = ((unat b0 * 256 + unat b1) * 256 + unat b2) * 256 + unat b3"
    using step [of "push_bit 8 (push_bit 8 ?A OR ?B) OR ?C" b3, unfolded s2, OF small(3)] .
  have "((p * 256 + q) * 256 + r) * 256 + u = p * 256 ^ 3 + q * 256 ^ 2 + r * 256 + u" for p q r u :: nat by simp
  then show ?thesis unfolding nest s3 .
qed

text \<open>The Boolean functions of both hash functions.\<close>

definition Ch :: "u32 \<Rightarrow> u32 \<Rightarrow> u32 \<Rightarrow> u32" where "Ch x y z = (x AND y) XOR (NOT x AND z)"
definition Maj :: "u32 \<Rightarrow> u32 \<Rightarrow> u32 \<Rightarrow> u32" where "Maj x y z = (x AND y) XOR (x AND z) XOR (y AND z)"
text \<open>Writing the two halves of a bit count gives its eight bytes.\<close>

lemma byte_of_mod:
  fixes x y :: nat
  assumes "x mod 2 ^ 32 = y mod 2 ^ 32" "k \<le> 24"
  shows "x div 2 ^ k mod 2 ^ 8 = y div 2 ^ k mod 2 ^ 8"
proof -
  have "z div 2 ^ k mod 2 ^ 8 = take_bit 8 (drop_bit k (take_bit 32 z))" for z :: nat
    using assms(2) by (simp add: drop_bit_take_bit) (simp add: take_bit_eq_mod drop_bit_eq_div)
  with assms(1) show ?thesis by (simp add: take_bit_eq_mod)
qed

lemma unat_byte_at: "unat (ucast (drop_bit k (w :: 'a::len word)) :: byte) = unat w div 2 ^ k mod 2 ^ 8"
  unfolding unsigned_ucast_eq unat_drop by (simp add: take_bit_eq_mod)

lemma be32_be64:
  fixes hi lo :: "'a::len word"
  assumes "unat hi mod 2 ^ 32 = n div 2 ^ 32 mod 2 ^ 32" "unat lo mod 2 ^ 32 = n mod 2 ^ 32"
  shows "be32 hi @ be32 lo = be64 n"
proof -
  have lo: "ucast (drop_bit k lo) = (of_nat (n div 2 ^ k) :: byte)" if "k \<le> 24" for k
    using byte_of_mod [OF assms(2) that] by (intro byte_eqI) (simp add: unat_byte_at unsigned_of_nat take_bit_eq_mod)
  have hi: "ucast (drop_bit k hi) = (of_nat (n div 2 ^ (32 + k)) :: byte)" if "k \<le> 24" for k
    using byte_of_mod [OF assms(1) that] by (intro byte_eqI) (simp add: unat_byte_at unsigned_of_nat take_bit_eq_mod power_add div_mult2_eq)
  show ?thesis
    using hi [of 24] hi [of 16] hi [of 8] hi [of 0] lo [of 24] lo [of 16] lo [of 8] lo [of 0] by (simp add: be32_def be64_def)
qed

section \<open>The interface of a package\<close>

locale block_stream =
  fixes compress :: "'s \<Rightarrow> byte list \<Rightarrow> 's"
    and valid :: "'c \<Rightarrow> bool"
    and total :: "'c \<Rightarrow> nat"
    and state :: "'c \<Rightarrow> 's"
    and buffer :: "'c \<Rightarrow> byte list"
    and update :: "'c \<Rightarrow> byte list \<Rightarrow> 'c run"
    and finish :: "'c \<Rightarrow> byte list run"
    and digest :: "'s \<Rightarrow> byte list"
  assumes update_law: "valid c \<Longrightarrow> length d < 2 ^ 32 \<Longrightarrow> total c + length d < 2 ^ 61 \<Longrightarrow>
      \<exists>c'. update c d = Inr c' \<and> valid c' \<and> total c' = total c + length d \<and>
        (state c', take (total c' mod 64) (buffer c')) = absorb_blocks compress (state c) (take (total c mod 64) (buffer c) @ d)"
    and finish_law: "valid c \<Longrightarrow> total c < 2 ^ 61 \<Longrightarrow> finish c =
      run_bind (update c (0x80 # replicate (pad_zeros (total c)) 0)) (\<lambda>c1.
      run_bind (update c1 (be64 (8 * total c))) (\<lambda>c2. Inr (digest (state c2))))"
begin

text \<open>The context has absorbed the message \<open>m\<close>, starting from the state \<open>iv\<close>.\<close>

definition represents :: "'c \<Rightarrow> 's \<Rightarrow> byte list \<Rightarrow> bool" where
  "represents c iv m \<longleftrightarrow> valid c \<and> total c = length m \<and>
     (state c, take (total c mod 64) (buffer c)) = absorb_blocks compress iv m"

lemma represents_start: "valid c \<Longrightarrow> total c = 0 \<Longrightarrow> represents c (state c) []"
  by (simp add: represents_def)

lemma representsD:
  assumes "represents c iv m"
  shows "valid c" "total c = length m" "absorb_blocks compress iv m = (state c, take (total c mod 64) (buffer c))"
proof -
  show "valid c" "total c = length m" using assms by (simp_all add: represents_def)
  show "absorb_blocks compress iv m = (state c, take (total c mod 64) (buffer c))"
    using assms unfolding represents_def by (elim conjE) (erule sym)
qed

lemma update_represents:
  assumes "represents c iv m" "length d < 2 ^ 32" "length m + length d < 2 ^ 61"
  shows "\<exists>c'. update c d = Inr c' \<and> represents c' iv (m @ d)"
proof -
  note c = representsD [OF assms(1)]
  have "total c + length d < 2 ^ 61" using c(2) assms(3) by simp
  from update_law [OF c(1) assms(2) this] obtain c' where c': "update c d = Inr c'" "valid c'" "total c' = total c + length d"
      "(state c', take (total c' mod 64) (buffer c')) = absorb_blocks compress (state c) (take (total c mod 64) (buffer c) @ d)"
    by (elim exE conjE)
  have "absorb_blocks compress iv (m @ d) = absorb_blocks compress (state c) (take (total c mod 64) (buffer c) @ d)"
    using absorb_append [of compress iv m d] unfolding c(3) prod.case .
  with c'(4) have "(state c', take (total c' mod 64) (buffer c')) = absorb_blocks compress iv (m @ d)" by (rule trans [OF _ sym])
  with c'(2,3) have "represents c' iv (m @ d)" unfolding represents_def by (simp add: c(2))
  with c'(1) show ?thesis by (intro exI conjI)
qed

primrec updates :: "'c \<Rightarrow> byte list list \<Rightarrow> 'c run" where
  "updates c [] = Inr c"
| "updates c (d # ds) = run_bind (update c d) (\<lambda>c'. updates c' ds)"

lemma updates_represent:
  assumes "represents c iv m" "list_all (\<lambda>d. length d < 2 ^ 32) ds" "length m + length (concat ds) < 2 ^ 61"
  shows "\<exists>c'. updates c ds = Inr c' \<and> represents c' iv (m @ concat ds)"
  using assms
proof (induction ds arbitrary: c m)
  case (Cons d ds)
  then obtain c' where "update c d = Inr c'" "represents c' iv (m @ d)"
    using update_represents [of c iv m d] by auto
  with Cons.IH [of c' "m @ d"] Cons.prems show ?case by simp
qed simp

lemma finish_digest:
  assumes "represents c iv m" "length m + 72 < 2 ^ 61"
  shows "finish c = Inr (digest (fst (absorb_blocks compress iv (md_pad m))))"
proof -
  let ?p = "0x80 # replicate (pad_zeros (length m)) 0"
  note c = representsD [OF assms(1)]
  have "pad_zeros (length m) < 64" by (simp add: pad_zeros_def)
  then have len: "length ?p \<le> 64" by simp
  obtain c1 where c1: "update c ?p = Inr c1" "represents c1 iv (m @ ?p)"
    using update_represents [OF assms(1), of ?p] len assms(2) by auto
  obtain c2 where c2: "update c1 (be64 (8 * length m)) = Inr c2" "represents c2 iv ((m @ ?p) @ be64 (8 * length m))"
    using update_represents [OF c1(2), of "be64 (8 * length m)"] len assms(2) by (auto simp: be64_def)
  have "(m @ ?p) @ be64 (8 * length m) = md_pad m" by (simp add: md_pad_def)
  with c2(2) have "represents c2 iv (md_pad m)" by simp
  from representsD(3) [OF this] have st: "fst (absorb_blocks compress iv (md_pad m)) = state c2" by simp
  have "total c < 2 ^ 61" using c(2) assms(2) by simp
  from finish_law [OF c(1) this] show ?thesis unfolding c(2) c1(1) run_bind_Inr c2(1) st .
qed

end

end
