(* ===== verification/Duda_Hooks.thy ===== *)
theory Duda_Hooks
  imports Duda_Event Duda_Queue Duda_Gc
begin

text \<open>
  The hooks of \<open>lib/duda_old_launcher.c\<close> that Monkey calls for socket events, the end of a request
  (\<open>duda_service_end\<close>), the write callback of \<open>lib/duda_queue.c\<close> and the start of a worker thread.
\<close>

section \<open>End of a request\<close>

text \<open>The parts of \<open>duda_request_t\<close> the end of a request works on.\<close>

record service_request =
  sv_queue :: queue_request
  sv_gc :: duda_gc_map
  sv_end_callback :: "nat option"
  sv_st_service_end :: bool

text \<open>
  \<open>end_cb\<close> runs a service's end callback on the request, \<open>http_end\<close> is the result of Monkey's
  \<open>http_request_end\<close>. The result also has the descriptors that were closed and the blocks that were
  freed.
\<close>

definition duda_service_end ::
    "(nat \<Rightarrow> service_request \<Rightarrow> service_request run) \<Rightarrow> int \<Rightarrow> service_request \<Rightarrow> (int \<times> service_request \<times> int list \<times> nat list) run" where
  "duda_service_end end_cb http_end dr =
     run_bind (case sv_end_callback dr of None \<Rightarrow> Inr dr | Some f \<Rightarrow> end_cb f dr) (\<lambda>dr.
     run_bind (duda_queue_free (qd_queue_out (sv_queue dr))) (\<lambda>(_, queue, fds).
     run_bind (duda_gc_free_content (sv_gc dr)) (\<lambda>(_, gc, freed).
       (let dr = dr\<lparr>sv_queue := (sv_queue dr)\<lparr>qd_queue_out := queue\<rparr>, sv_gc := gc\<rparr>
        in Inr (http_end, if http_end < 0 then dr\<lparr>sv_st_service_end := True\<rparr> else dr, fds, freed)))))"

section \<open>Write events of the queue\<close>

text \<open>Monkey's return codes for event hooks.\<close>

record event_codes =
  ev_owned :: int
  ev_close :: int
  ev_continue :: int

text \<open>
  The requests of the worker by their addresses, and the list of those waiting for their socket.
  \<open>w\<close> is the result of the system call of the transmission step.
\<close>

record worker_state =
  wk_requests :: "nat \<Rightarrow> service_request"
  wk_events_write :: "nat list option"
  wk_events_list :: "duda_event_handler list option"

definition first_waiting :: "worker_state \<Rightarrow> int \<Rightarrow> nat list \<Rightarrow> nat option" where
  "first_waiting s sockfd = first_node (\<lambda>n. qd_socket (sv_queue (wk_requests s n))) sockfd"

definition duda_queue_event_write_callback ::
    "event_codes \<Rightarrow> nat mk_list_adder \<Rightarrow> (nat \<Rightarrow> service_request \<Rightarrow> service_request run) \<Rightarrow> int \<Rightarrow> int \<Rightarrow> int \<Rightarrow> worker_state \<Rightarrow>
     (int \<times> worker_state \<times> int list \<times> nat list) run" where
  "duda_queue_event_write_callback codes add end_cb http_end w sockfd s =
     (case wk_events_write s of None \<Rightarrow> Inl NullDeref
      | Some l \<Rightarrow>
          (case first_waiting s sockfd l of None \<Rightarrow> Inr (ev_continue codes, s, [], [])
           | Some n \<Rightarrow>
               (let entry = wk_requests s n in
                run_bind (duda_queue_flush add w (sv_queue entry) (Some l)) (\<lambda>(ret, q, events).
                  (let entry = entry\<lparr>sv_queue := q\<rparr>;
                       s = s\<lparr>wk_requests := (wk_requests s)(n := entry), wk_events_write := events\<rparr>
                   in if ret > 0 then Inr (ev_owned codes, s, [], [])
                      else run_bind (duda_service_end end_cb http_end entry) (\<lambda>(ret, entry, fds, freed).
                        Inr (if ret = -1 then ev_close codes else ev_owned codes,
                             s\<lparr>wk_requests := (wk_requests s)(n := entry)\<rparr>, fds, freed)))))))"

section \<open>Event hooks\<close>

text \<open>\<open>cb\<close> runs an event callback of a service: function, socket, data and the state it may change.\<close>

type_synonym event_callback = "nat \<Rightarrow> int \<Rightarrow> nat \<Rightarrow> worker_state \<Rightarrow> (int \<times> worker_state) run"

definition mkp_event_read :: "event_codes \<Rightarrow> event_callback \<Rightarrow> int \<Rightarrow> worker_state \<Rightarrow> (int \<times> worker_state) run" where
  "mkp_event_read codes cb sockfd s =
     (case duda_event_lookup sockfd (wk_events_list s) of None \<Rightarrow> Inr (ev_continue codes, s)
      | Some eh \<Rightarrow>
          (case eh_cb_on_read eh of None \<Rightarrow> Inr (ev_continue codes, s)
           | Some f \<Rightarrow> run_bind (cb f (eh_sockfd eh) (eh_cb_data eh) s) (\<lambda>(ret, s').
               if ret \<noteq> ev_owned codes \<and> ret \<noteq> ev_close codes \<and> ret \<noteq> ev_continue codes then Inl Exited
               else Inr (ret, s'))))"

definition mkp_event_write ::
    "event_codes \<Rightarrow> event_callback \<Rightarrow> nat mk_list_adder \<Rightarrow> (nat \<Rightarrow> service_request \<Rightarrow> service_request run) \<Rightarrow> int \<Rightarrow> int \<Rightarrow> int \<Rightarrow>
     worker_state \<Rightarrow> (int \<times> worker_state \<times> int list \<times> nat list) run" where
  "mkp_event_write codes cb add end_cb http_end w sockfd s =
     (case Option.bind (duda_event_lookup sockfd (wk_events_list s)) (\<lambda>eh. map_option (Pair eh) (eh_cb_on_write eh)) of
        Some (eh, f) \<Rightarrow> run_bind (cb f (eh_sockfd eh) (eh_cb_data eh) s) (\<lambda>(_, s'). Inr (ev_owned codes, s', [], []))
      | None \<Rightarrow> duda_queue_event_write_callback codes add end_cb http_end w sockfd s)"

text \<open>The close, error and timeout hooks: the body of \<open>mkp_event_close\<close> is commented out.\<close>

definition mkp_event_close :: "int \<Rightarrow> int" where
  "mkp_event_close sockfd = 0"

definition mkp_event_error :: "int \<Rightarrow> int" where
  "mkp_event_error sockfd = mkp_event_close sockfd"

definition mkp_event_timeout :: "int \<Rightarrow> int" where
  "mkp_event_timeout sockfd = mkp_event_close sockfd"

section \<open>Start of a worker\<close>

text \<open>A global variable of a service: thread key, initialisation callback and its argument.\<close>

record duda_global =
  gl_key :: nat
  gl_callback :: "nat option"
  gl_data :: nat

text \<open>The thread's values by key; \<open>call\<close> runs an initialisation callback; \<open>0\<close> is \<open>NULL\<close>.\<close>

primrec thread_globals_init :: "(nat \<Rightarrow> nat \<Rightarrow> nat) \<Rightarrow> duda_global list \<Rightarrow> (nat \<Rightarrow> nat) \<Rightarrow> nat \<Rightarrow> nat" where
  "thread_globals_init call [] tls = tls"
| "thread_globals_init call (gl # list) tls =
     thread_globals_init call list
       (tls(gl_key gl := (case gl_callback gl of None \<Rightarrow> 0 | Some f \<Rightarrow> call f (gl_data gl))))"

text \<open>The calls of a list of pre-loop functions: function and argument.\<close>

primrec thread_worker_pre_loop :: "(nat \<times> nat) list \<Rightarrow> (nat \<times> nat) list" where
  "thread_worker_pre_loop [] = []"
| "thread_worker_pre_loop (pre # list) = (fst pre, snd pre) # thread_worker_pre_loop list"

record thread_service =
  ts_global :: "duda_global list"
  ts_pre_loop :: "(nat \<times> nat) list"
  ts_packages :: "(duda_global list \<times> (nat \<times> nat) list) list"

record worker_thread =
  wt_events_write :: "nat list option"
  wt_events_list :: "duda_event_handler list option"
  wt_dr_list :: "duda_request tree option"
  wt_tls :: "nat \<Rightarrow> nat"
  wt_pre_calls :: "(nat \<times> nat) list"

primrec package_thread_init :: "(nat \<Rightarrow> nat \<Rightarrow> nat) \<Rightarrow> (duda_global list \<times> (nat \<times> nat) list) list \<Rightarrow> worker_thread \<Rightarrow> worker_thread" where
  "package_thread_init call [] t = t"
| "package_thread_init call (pkg # list) t =
     package_thread_init call list
       (t\<lparr>wt_tls := thread_globals_init call (fst pkg) (wt_tls t),
          wt_pre_calls := wt_pre_calls t @ thread_worker_pre_loop (snd pkg)\<rparr>)"

primrec service_thread_init :: "(nat \<Rightarrow> nat \<Rightarrow> nat) \<Rightarrow> thread_service list \<Rightarrow> worker_thread \<Rightarrow> worker_thread" where
  "service_thread_init call [] t = t"
| "service_thread_init call (ws # list) t =
     service_thread_init call list
       (package_thread_init call (ts_packages ws)
          (t\<lparr>wt_tls := thread_globals_init call (ts_global ws) (wt_tls t),
             wt_pre_calls := wt_pre_calls t @ thread_worker_pre_loop (ts_pre_loop ws)\<rparr>))"

text \<open>
  \<open>mem\<close> says which of the allocations return memory, by their position in the function; \<open>fds\<close> is
  what \<open>pipe\<close> gave; \<open>read_cb\<close> names \<open>duda_event_fd_read\<close>; \<open>hosts\<close> has the services of every virtual
  host.
\<close>

definition duda_worker_init ::
    "duda_event_handler mk_list_adder \<Rightarrow> duda_event_signal_channel mk_list_adder \<Rightarrow> int \<Rightarrow> int \<Rightarrow> (nat \<Rightarrow> bool) \<Rightarrow> (int \<times> int) option \<Rightarrow>
     nat \<Rightarrow> (nat \<Rightarrow> nat \<Rightarrow> nat) \<Rightarrow> thread_service list list \<Rightarrow> signal_state \<Rightarrow> (worker_thread \<times> signal_state) run" where
  "duda_worker_init add_eh add_esc mk_read mk_level mem fds read_cb call hosts s =
     (if \<not> mem 0 \<or> \<not> mem 1 then Inl NullDeref
      else (case fds of None \<Rightarrow> Inl Exited
        | Some (r, w) \<Rightarrow>
            run_bind (duda_event_add add_eh mk_read (mem 2) r mk_read mk_level (Some read_cb) None None None None 0 (Some []))
              (\<lambda>(rc, events).
                 run_bind
                   (if rc = 0 then
                      if \<not> mem 3 then Inl NullDeref
                      else Inr (s\<lparr>ss_pipes := ss_pipes s @ [\<lparr>pipe_r = r, pipe_w = w, pipe_data = []\<rparr>],
                                  ss_signals_list := add_esc \<lparr>fd_r = r, fd_w = w\<rparr> (ss_signals_list s)\<rparr>)
                    else Inr s)
                   (\<lambda>s'. Inr (fold (service_thread_init call) hosts
                       \<lparr>wt_events_write = Some [], wt_events_list = events, wt_dr_list = (if mem 4 then Some Leaf else None),
                        wt_tls = (\<lambda>_. 0), wt_pre_calls = []\<rparr>, s')))))"

section \<open>Writing out a response\<close>

lemma queue_free_loop_wf: "list_all item_typed q \<Longrightarrow> \<exists>fds. queue_free_loop q = Inr fds"
proof (induction q)
  case (Cons i q)
  then obtain fds where "queue_free_loop q = Inr fds" by auto
  with Cons.prems show ?case
    by (auto simp: item_typed_def as_body_def as_sendfile_def queue_consts split: queue_data.splits)
qed simp

text \<open>What an end callback may do: it returns, and leaves the queue and the registry well formed.\<close>

definition end_cb_ok :: "(nat \<Rightarrow> service_request \<Rightarrow> service_request run) \<Rightarrow> bool" where
  "end_cb_ok end_cb \<longleftrightarrow> (\<forall>f dr. queue_wf (qd_queue_out (sv_queue dr)) \<and> gc_wf (sv_gc dr) \<longrightarrow>
     (\<exists>dr'. end_cb f dr = Inr dr' \<and> queue_wf (qd_queue_out (sv_queue dr')) \<and> gc_wf (sv_gc dr')))"

lemma duda_service_end_ok:
  assumes "end_cb_ok end_cb" "queue_wf (qd_queue_out (sv_queue dr))" "gc_wf (sv_gc dr)"
  obtains dr' fds freed where "duda_service_end end_cb http_end dr = Inr (http_end, dr', fds, freed)"
    "qd_queue_out (sv_queue dr') = []" "gc_live (sv_gc dr') = {#}" "gc_wf (sv_gc dr')"
proof -
  obtain dr1 where dr1: "(case sv_end_callback dr of None \<Rightarrow> Inr dr | Some f \<Rightarrow> end_cb f dr) = Inr dr1"
    "queue_wf (qd_queue_out (sv_queue dr1))" "gc_wf (sv_gc dr1)"
    using assms by (cases "sv_end_callback dr") (auto simp: end_cb_ok_def)
  obtain fds where "queue_free_loop (qd_queue_out (sv_queue dr1)) = Inr fds"
    using queue_free_loop_wf [of "qd_queue_out (sv_queue dr1)"] dr1(2) by (auto simp: queue_wf_def list_all_iff)
  moreover obtain gc' fs where "duda_gc_free_content (sv_gc dr1) = Inr (gc_used (sv_gc dr1), gc', fs)" "gc_wf gc'" "gc_live gc' = {#}"
    using duda_gc_free_content_ok [OF dr1(3)] by auto
  ultimately show thesis
    using that dr1(1) by (simp add: duda_service_end_def duda_queue_free_def Let_def)
qed

lemma first_waiting_in: "first_waiting s fd l = Some n \<Longrightarrow> n \<in> set l"
  using first_node_key unfolding first_waiting_def by fastforce

lemma queue_write_callback_step:
  assumes "mk_list_appends add" "end_cb_ok end_cb" "wk_events_write s = Some l" "first_waiting s sockfd l = Some n"
    and e: "e = wk_requests s n" "qd_id (sv_queue e) = n" "queue_wf (qd_queue_out (sv_queue e))" "gc_wf (sv_gc e)"
    and io: "first_io_ok w (qd_queue_out (sv_queue e))" and reg: "registered_ok (sv_queue e) l"
  shows "\<exists>ret s' fds freed l'. duda_queue_event_write_callback codes add end_cb http_end w sockfd s = Inr (ret, s', fds, freed) \<and>
    wk_events_write s' = Some l' \<and>
    (0 < queue_total (qd_queue_out (sv_queue (wk_requests s' n))) \<and> n \<in> set l' \<and> ret = ev_owned codes \<or>
     qd_queue_out (sv_queue (wk_requests s' n)) = [] \<and> gc_live (sv_gc (wk_requests s' n)) = {#} \<and> n \<notin> set l' \<and>
       ret = (if http_end = -1 then ev_close codes else ev_owned codes)) \<and>
    (\<forall>m. m \<noteq> n \<longrightarrow> wk_requests s' m = wk_requests s m \<and> (m \<in> set l' \<longleftrightarrow> m \<in> set l))"
proof -
  obtain q l' where step: "duda_queue_flush add w (sv_queue e) (Some l) = Inr (int (queue_total q), (sv_queue e)\<lparr>qd_queue_out := q\<rparr>, Some l')"
    "queue_wf q" "qd_id (sv_queue e) \<in> set l' \<longleftrightarrow> 0 < queue_total q" "\<And>x. x \<noteq> qd_id (sv_queue e) \<Longrightarrow> x \<in> set l' \<longleftrightarrow> x \<in> set l"
    using duda_queue_flush_step [OF assms(1) e(3) io reg] by metis
  let ?e = "e\<lparr>sv_queue := (sv_queue e)\<lparr>qd_queue_out := q\<rparr>\<rparr>"
  note cb = duda_queue_event_write_callback_def assms(3,4) e(1) [symmetric] step(1)
  show ?thesis
  proof (cases "0 < queue_total q")
    case True
    with step e(2) show ?thesis by (simp add: cb)
  next
    case False
    obtain e' fds freed where e': "duda_service_end end_cb http_end ?e = Inr (http_end, e', fds, freed)"
      "qd_queue_out (sv_queue e') = []" "gc_live (sv_gc e') = {#}"
      by (rule duda_service_end_ok [OF assms(2), of ?e http_end]) (use step(2) e(4) in auto)
    with False step e(2) show ?thesis by (simp add: cb)
  qed
qed

section \<open>Properties\<close>


definition example_worker :: worker_state where
  "example_worker = \<lparr>wk_requests = (\<lambda>n. \<lparr>sv_queue = \<lparr>qd_id = n, qd_socket = 9, qd_queue_out = [example_file 40]\<rparr>,
     sv_gc = snd (duda_gc_init True), sv_end_callback = None, sv_st_service_end = False\<rparr>),
     wk_events_write = Some [3], wk_events_list = Some []\<rparr>"


end
