(* ===== verification/Duda_Main.thy ===== *)
theory Duda_Main
  imports Duda_Router
begin

text \<open>
  The library and the program: \<open>lib/duda.c\<close> (contexts and the dispatch of a request),
  \<open>lib/duda_service.c\<close> (creation and release of a service) and \<open>src/duda.c\<close> (the command line). The file
  system and the dynamic loader are arguments, and so is what a service does when it is
  initialised. The process environment is the one of POSIX.
\<close>

section \<open>Services\<close>

record duda_service =
  ds_path_root :: "string option"
  ds_path_log :: "string option"
  ds_path_data :: "string option"
  ds_path_html :: "string option"
  ds_path_service :: "string option"
  ds_dl_handle :: nat
  ds_router_list :: "duda_router_path list"

text \<open>\<open>stat\<close> says whether a path exists and whether it is a directory, \<open>perm\<close> whether \<open>access\<close> grants it.\<close>

definition validate_dir :: "(string \<Rightarrow> bool option) \<Rightarrow> (string \<Rightarrow> bool) \<Rightarrow> string \<Rightarrow> int" where
  "validate_dir stat perm path =
     (case stat path of None \<Rightarrow> -1
      | Some is_dir \<Rightarrow> if \<not> is_dir then -1 else if \<not> perm path then -1 else 0)"

text \<open>Paths are texts without zero bytes; copying them does not fail.\<close>

definition service_path :: "string option \<Rightarrow> string \<Rightarrow> string" where
  "service_path root path =
     (case root of None \<Rightarrow> path
      | Some r \<Rightarrow> if path \<noteq> [] \<and> hd path = CHR ''/'' then path else r @ ''/'' @ path)"

text \<open>
  What a service gets from outside: the file system, \<open>dlopen\<close> (\<open>None\<close> when it fails), whether the
  context can be allocated, and \<open>boot\<close>, the call of \<open>_duda_bootstrap\<close> of the loaded object, which
  registers the service's rules; \<open>None\<close> when the object has no such symbol.
\<close>

record loader =
  ld_stat :: "string \<Rightarrow> bool option"
  ld_perm :: "string \<Rightarrow> bool"
  ld_dlopen :: "string \<Rightarrow> nat option"
  ld_mem :: bool
  ld_boot :: "nat \<Rightarrow> (duda_router_path list \<Rightarrow> duda_router_path list) option"

definition map_internals :: "loader \<Rightarrow> duda_service \<Rightarrow> duda_service run" where
  "map_internals ld ds =
     (case ld_boot ld (ds_dl_handle ds) of None \<Rightarrow> Inl NullDeref
      | Some f \<Rightarrow> Inr (ds\<lparr>ds_router_list := f (ds_router_list ds)\<rparr>))"

text \<open>A null path reaches \<open>stat\<close> when only the data directory is given: the log path is checked twice.\<close>

definition service_dirs_ok :: "loader \<Rightarrow> string option \<Rightarrow> string option \<Rightarrow> string option \<Rightarrow> string option \<Rightarrow> bool" where
  "service_dirs_ok ld root log data html \<longleftrightarrow>
     (let valid = (\<lambda>p. validate_dir (ld_stat ld) (ld_perm ld) p = 0) in
      \<not> (case root of None \<Rightarrow> False | Some p \<Rightarrow> \<not> valid p) \<and>
      \<not> (case log of None \<Rightarrow> False | Some p \<Rightarrow> \<not> valid p) \<and>
      \<not> (data \<noteq> None \<and> (case log of None \<Rightarrow> True | Some p \<Rightarrow> \<not> valid p)) \<and>
      \<not> (case html of None \<Rightarrow> False | Some p \<Rightarrow> \<not> valid p))"

definition duda_service_create ::
    "loader \<Rightarrow> duda_service mk_list_adder \<Rightarrow> duda_service list option \<Rightarrow> string option \<Rightarrow> string option \<Rightarrow> string option \<Rightarrow>
     string option \<Rightarrow> string \<Rightarrow> (duda_service option \<times> duda_service list option) run" where
  "duda_service_create ld add d root log data html service =
     (case d of None \<Rightarrow> Inr (None, None)
      | Some services \<Rightarrow>
          if \<not> service_dirs_ok ld root log data html then Inr (None, d)
          else (case ld_dlopen ld service of None \<Rightarrow> Inr (None, d)
            | Some hnd \<Rightarrow>
                if \<not> ld_mem ld then Inr (None, d)
                else
                  (let ds = \<lparr>ds_path_root = root, ds_path_log = map_option (service_path root) log,
                         ds_path_data = map_option (service_path root) data, ds_path_html = map_option (service_path root) html,
                         ds_path_service = Some (service_path root service), ds_dl_handle = hnd, ds_router_list = []\<rparr>
                   in run_bind (map_internals ld ds) (\<lambda>ds. Inr (Some ds, Some (add ds services))))))"

definition duda_service_destroy :: "duda_service \<Rightarrow> duda_service list \<Rightarrow> int \<times> duda_service list" where
  "duda_service_destroy ds services = (0, remove1 ds services)"

section \<open>Context and dispatch\<close>

record duda_context =
  du_monkey :: nat
  du_tcp_port :: "string option"
  du_services :: "duda_service list"

text \<open>\<open>mk\<close> is what \<open>mk_create\<close> returns.\<close>

definition duda_create :: "bool \<Rightarrow> nat option \<Rightarrow> duda_context option" where
  "duda_create mem mk =
     (if \<not> mem then None
      else (case mk of None \<Rightarrow> None | Some ctx \<Rightarrow> Some \<lparr>du_monkey = ctx, du_tcp_port = None, du_services = []\<rparr>))"

text \<open>The outcome for the client: the callback of a rule runs, or the error page is sent.\<close>

datatype switch_result = RunCallback "nat option" | ErrorPage

text \<open>
  \<open>mem\<close> says whether \<open>duda_request_create\<close> returns a context. A redirection of the lookup (return
  value 1) is not a match, and the loop goes on.
\<close>

primrec duda_switcher ::
    "(router_request option \<Rightarrow> router_call list run) \<Rightarrow> bool \<Rightarrow> string \<Rightarrow> int \<Rightarrow> duda_service list \<Rightarrow> switch_result run" where
  "duda_switcher redir mem uri_data uri_len [] = Inr ErrorPage"
| "duda_switcher redir mem uri_data uri_len (service # services) =
     run_bind (duda_router_path_lookup redir (ds_router_list service) uri_data uri_len) (\<lambda>(ret, path, _).
       if ret = DUDA_ROUTER_MATCH then
         if \<not> mem then Inr ErrorPage
         else (case path of None \<Rightarrow> Inl NullDeref | Some p \<Rightarrow> Inr (RunCallback (rp_callback p)))
       else duda_switcher redir mem uri_data uri_len services)"

text \<open>
  The port is checked with \<open>atoi\<close>; the result has the port Monkey listens on. The function has no
  return statement after Monkey was started.
\<close>

definition duda_start :: "(string \<Rightarrow> int) \<Rightarrow> duda_context option \<Rightarrow> (int option \<times> string option) run" where
  "duda_start atoi duda_ctx =
     (case duda_ctx of None \<Rightarrow> Inr (Some (-1), None)
      | Some d \<Rightarrow>
          (let port = (case du_tcp_port d of None \<Rightarrow> ''8080'' | Some p \<Rightarrow> p)
           in if atoi port \<le> 1 then Inr (Some (-1), None) else Inr (None, Some port)))"

section \<open>The command line\<close>

datatype cli_option = OptRoot string | OptLogdir string | OptDatadir string | OptHtmldir string
  | OptWebservice string | OptPort string | OptHelp | OptVersion | OptUnknown

record cli_state =
  cl_root :: "string option"
  cl_logdir :: "string option"
  cl_datadir :: "string option"
  cl_htmldir :: "string option"
  cl_webservice :: "string option"
  cl_ctx :: duda_context

definition cli_create :: "loader \<Rightarrow> duda_service mk_list_adder \<Rightarrow> cli_state \<Rightarrow> string \<Rightarrow> cli_state run" where
  "cli_create ld add st service =
     run_bind (duda_service_create ld add (Some (du_services (cl_ctx st))) (cl_root st) (cl_logdir st) (cl_datadir st) (cl_htmldir st) service)
       (\<lambda>(srv, services). case (srv, services) of
          (Some _, Some l) \<Rightarrow> Inr (st\<lparr>cl_ctx := (cl_ctx st)\<lparr>du_services := l\<rparr>\<rparr>)
        | _ \<Rightarrow> Inl Exited)"

primrec cli_step :: "loader \<Rightarrow> duda_service mk_list_adder \<Rightarrow> cli_option \<Rightarrow> cli_state \<Rightarrow> cli_state run" where
  "cli_step ld add (OptRoot p) st = Inr (st\<lparr>cl_root := Some p\<rparr>)"
| "cli_step ld add (OptLogdir p) st = Inr (st\<lparr>cl_logdir := Some p\<rparr>)"
| "cli_step ld add (OptDatadir p) st = Inr (st\<lparr>cl_datadir := Some p\<rparr>)"
| "cli_step ld add (OptHtmldir p) st = Inr (st\<lparr>cl_htmldir := Some p\<rparr>)"
| "cli_step ld add (OptWebservice p) st =
     (case cl_webservice st of
        Some _ \<Rightarrow> run_bind (cli_create ld add st p) (\<lambda>st.
          Inr (st\<lparr>cl_root := None, cl_logdir := None, cl_datadir := None, cl_htmldir := None, cl_webservice := None\<rparr>))
      | None \<Rightarrow> Inr (st\<lparr>cl_webservice := Some p\<rparr>))"
| "cli_step ld add (OptPort p) st = Inr (st\<lparr>cl_ctx := (cl_ctx st)\<lparr>du_tcp_port := Some p\<rparr>\<rparr>)"
| "cli_step ld add OptHelp st = Inl Exited"
| "cli_step ld add OptVersion st = Inl Exited"
| "cli_step ld add OptUnknown st = Inl Exited"

primrec cli_loop :: "loader \<Rightarrow> duda_service mk_list_adder \<Rightarrow> cli_option list \<Rightarrow> cli_state \<Rightarrow> cli_state run" where
  "cli_loop ld add [] st = Inr st"
| "cli_loop ld add (opt # opts) st = run_bind (cli_step ld add opt st) (\<lambda>st. cli_loop ld add opts st)"

text \<open>The whole program; the result is what the server is started with.\<close>

definition duda_main ::
    "loader \<Rightarrow> duda_service mk_list_adder \<Rightarrow> (string \<Rightarrow> int) \<Rightarrow> duda_context option \<Rightarrow> cli_option list \<Rightarrow>
     (duda_context \<times> int option \<times> string option) run" where
  "duda_main ld add atoi ctx opts =
     (case ctx of None \<Rightarrow> Inl Exited
      | Some d \<Rightarrow>
          run_bind (cli_loop ld add opts \<lparr>cl_root = None, cl_logdir = None, cl_datadir = None, cl_htmldir = None,
              cl_webservice = None, cl_ctx = d\<rparr>) (\<lambda>st.
          run_bind (case cl_webservice st of None \<Rightarrow> Inr st | Some service \<Rightarrow> cli_create ld add st service) (\<lambda>st.
          run_bind (duda_start atoi (Some (cl_ctx st))) (\<lambda>(ret, port). Inr (cl_ctx st, ret, port)))))"

section \<open>Which services are loaded\<close>

primrec webservice_args :: "cli_option list \<Rightarrow> string list" where
  "webservice_args [] = []"
| "webservice_args (opt # opts) = (case opt of OptWebservice p \<Rightarrow> p # webservice_args opts | _ \<Rightarrow> webservice_args opts)"

text \<open>Every second name, and the last one when their number is odd.\<close>

fun second_ones :: "'a list \<Rightarrow> 'a list" where
  "second_ones (a # b # xs) = b # second_ones xs"
| "second_ones xs = xs"

text \<open>Every service can be loaded: the directories are fine and the object has its entry point.\<close>

definition loads_all :: "loader \<Rightarrow> bool" where
  "loads_all ld \<longleftrightarrow> ld_mem ld \<and> (\<forall>p. ld_stat ld p = Some True \<and> ld_perm ld p \<and> (\<exists>h. ld_dlopen ld p = Some h \<and> ld_boot ld h \<noteq> None))"

definition loaded_from :: "loader \<Rightarrow> duda_service list \<Rightarrow> string list \<Rightarrow> bool" where
  "loaded_from ld services names \<longleftrightarrow> map (Some \<circ> ds_dl_handle) services = map (ld_dlopen ld) names"

text \<open>The options without \<open>-d\<close> (which also needs \<open>-l\<close>) and without those that end the program.\<close>

definition plain_option :: "cli_option \<Rightarrow> bool" where
  "plain_option opt \<longleftrightarrow> (case opt of OptDatadir _ \<Rightarrow> False | OptHelp \<Rightarrow> False | OptVersion \<Rightarrow> False | OptUnknown \<Rightarrow> False | _ \<Rightarrow> True)"

lemma loaded_from_snoc: "loaded_from ld l names \<Longrightarrow> ld_dlopen ld p = Some (ds_dl_handle ds) \<Longrightarrow> loaded_from ld (l @ [ds]) (names @ [p])"
  by (simp add: loaded_from_def)

lemma cli_create_loads:
  assumes "loads_all ld" "mk_list_appends add" "cl_datadir st = None" "loaded_from ld (du_services (cl_ctx st)) names"
  obtains ds where "cli_create ld add st p = Inr (st\<lparr>cl_ctx := (cl_ctx st)\<lparr>du_services := du_services (cl_ctx st) @ [ds]\<rparr>\<rparr>)"
    "loaded_from ld (du_services (cl_ctx st) @ [ds]) (names @ [p])"
proof -
  obtain h f where h: "ld_dlopen ld p = Some h" "ld_boot ld h = Some f" using assms(1) unfolding loads_all_def by blast
  have dirs: "service_dirs_ok ld (cl_root st) (cl_logdir st) (cl_datadir st) (cl_htmldir st)"
    using assms(1,3) by (auto simp: service_dirs_ok_def validate_dir_def loads_all_def split: option.splits)
  obtain ds where "duda_service_create ld add (Some (du_services (cl_ctx st))) (cl_root st) (cl_logdir st) (cl_datadir st) (cl_htmldir st) p =
      Inr (Some ds, Some (du_services (cl_ctx st) @ [ds]))" "ds_dl_handle ds = h"
    using dirs h assms(1) by (simp add: duda_service_create_def map_internals_def loads_all_def mk_list_appendsD [OF assms(2)])
  then show thesis using that [of ds] loaded_from_snoc [OF assms(4)] h(1) by (simp add: cli_create_def)
qed

text \<open>The loop together with the load of the remaining service.\<close>

definition cli_run :: "loader \<Rightarrow> duda_service mk_list_adder \<Rightarrow> cli_option list \<Rightarrow> cli_state \<Rightarrow> cli_state run" where
  "cli_run ld add opts st = run_bind (cli_loop ld add opts st) (\<lambda>st.
     case cl_webservice st of None \<Rightarrow> Inr st | Some service \<Rightarrow> cli_create ld add st service)"

lemma cli_run_Cons: "cli_run ld add (opt # opts) st = run_bind (cli_step ld add opt st) (cli_run ld add opts)"
  by (simp add: cli_run_def run_bind_def split: sum.splits)

lemma cli_step_plain:
  "plain_option opt \<Longrightarrow> (\<forall>p. opt \<noteq> OptWebservice p) \<Longrightarrow>
     \<exists>st1. cli_step ld add opt st = Inr st1 \<and> cl_datadir st1 = cl_datadir st \<and> du_services (cl_ctx st1) = du_services (cl_ctx st) \<and>
       cl_webservice st1 = cl_webservice st \<and> webservice_args (opt # opts) = webservice_args opts"
  by (cases opt) (simp_all add: plain_option_def)

lemma cli_run_loads:
  assumes "loads_all ld" "mk_list_appends add" "list_all plain_option opts" "cl_datadir st = None"
    and "loaded_from ld (du_services (cl_ctx st)) names"
  shows "\<exists>st'. cli_run ld add opts st = Inr st' \<and>
    loaded_from ld (du_services (cl_ctx st')) (names @ second_ones (case_option [] (\<lambda>x. [x]) (cl_webservice st) @ webservice_args opts))"
  using assms(3-5)
proof (induction opts arbitrary: st names)
  case Nil
  show ?case
  proof (cases "cl_webservice st")
    case None
    with Nil show ?thesis by (simp add: cli_run_def)
  next
    case (Some x)
    obtain ds where "cli_create ld add st x = Inr (st\<lparr>cl_ctx := (cl_ctx st)\<lparr>du_services := du_services (cl_ctx st) @ [ds]\<rparr>\<rparr>)"
      "loaded_from ld (du_services (cl_ctx st) @ [ds]) (names @ [x])"
      by (rule cli_create_loads [OF assms(1,2) Nil(2,3)])
    with Some show ?thesis by (simp add: cli_run_def)
  qed
next
  case (Cons opt opts)
  have plain: "list_all plain_option opts" using Cons.prems(1) by simp
  note IH = Cons.IH [OF plain]
  show ?case
  proof (cases "\<forall>p. opt \<noteq> OptWebservice p")
    case True
    obtain st1 where st1: "cli_step ld add opt st = Inr st1" "cl_datadir st1 = cl_datadir st" "du_services (cl_ctx st1) = du_services (cl_ctx st)"
      "cl_webservice st1 = cl_webservice st" "webservice_args (opt # opts) = webservice_args opts"
      using cli_step_plain [OF _ True] Cons.prems(1) by (metis list.pred_inject(2))
    with IH [of st1 names] Cons.prems(2,3) show ?thesis by (simp only: cli_run_Cons run_bind_Inr)
  next
    case False
    then obtain p where p: "opt = OptWebservice p" by blast
    show ?thesis
    proof (cases "cl_webservice st")
      case None
      with IH [of "st\<lparr>cl_webservice := Some p\<rparr>" names] Cons.prems(2,3) p show ?thesis by (simp add: cli_run_Cons)
    next
      case (Some x)
      obtain ds where ds: "cli_create ld add st p = Inr (st\<lparr>cl_ctx := (cl_ctx st)\<lparr>du_services := du_services (cl_ctx st) @ [ds]\<rparr>\<rparr>)"
        "loaded_from ld (du_services (cl_ctx st) @ [ds]) (names @ [p])"
        by (rule cli_create_loads [OF assms(1,2) Cons.prems(2,3)])
      let ?st = "st\<lparr>cl_ctx := (cl_ctx st)\<lparr>du_services := du_services (cl_ctx st) @ [ds]\<rparr>, cl_root := None, cl_logdir := None,
        cl_datadir := None, cl_htmldir := None, cl_webservice := None\<rparr>"
      have "cli_run ld add (opt # opts) st = cli_run ld add opts ?st" using p Some ds(1) by (simp add: cli_run_Cons)
      moreover from IH [of ?st "names @ [p]"] ds(2) obtain st' where "cli_run ld add opts ?st = Inr st'"
        "loaded_from ld (du_services (cl_ctx st')) ((names @ [p]) @ second_ones (webservice_args opts))" by auto
      ultimately show ?thesis using p Some by simp
    qed
  qed
qed

section \<open>Dispatch over all services\<close>

lemma lookup_ref_append:
  "lookup_ref u (rs @ rs') = run_bind (lookup_ref u rs) (\<lambda>(ret, path, calls). if ret = DUDA_ROUTER_MATCH then Inr (ret, path, calls) else lookup_ref u rs')"
  by (induction u rs rule: lookup_ref.induct) (simp_all add: router_consts)

lemma lookup_ref_result:
  "lookup_ref u rs = Inr (ret, path, calls) \<Longrightarrow> ret = DUDA_ROUTER_MATCH \<and> (\<exists>pat cb. path = Some (rule_of pat cb)) \<or> ret = DUDA_ROUTER_NOTFOUND \<and> path = None"
proof (induction rs)
  case (Cons rule rs)
  then show ?case by (cases rule) (auto split: if_splits)
qed simp

text \<open>The answer that a result of the lookup stands for.\<close>

definition switch_of :: "(int \<times> duda_router_path option \<times> router_call list) run \<Rightarrow> switch_result run" where
  "switch_of m = run_bind m (\<lambda>(ret, path, _). Inr (case path of None \<Rightarrow> ErrorPage | Some p \<Rightarrow> RunCallback (rp_callback p)))"

lemma duda_switcher_flat:
  assumes "redir None = Inl NullDeref" "list_all2 (\<lambda>ds rules. ds_router_list ds = map (\<lambda>(pat, cb). rule_of pat cb) rules) services ruless"
    and "\<forall>rules \<in> set ruless. \<forall>(pat, cb) \<in> set rules. pattern_ok c pat"
  shows "duda_switcher redir True (u @ c # r) (int (length u)) services = switch_of (lookup_ref u (concat ruless))"
  using assms(2,3)
proof (induction services ruless rule: list_all2_induct)
  case (Cons ds services rules ruless)
  have "\<forall>(pat, cb) \<in> set rules. pattern_ok c pat" using Cons.prems by simp
  then have look: "duda_router_path_lookup redir (ds_router_list ds) (u @ c # r) (int (length u)) = lookup_ref u rules"
    unfolding duda_router_path_lookup_def Let_def Cons(1) using assms(1) by (rule router_lookup_loop_ref)
  have IH: "duda_switcher redir True (u @ c # r) (int (length u)) services = switch_of (lookup_ref u (concat ruless))"
    using Cons by simp
  show ?case
  proof (cases "lookup_ref u rules")
    case (Inr x)
    obtain ret path calls where x: "x = (ret, path, calls)" by (cases x)
    show ?thesis using lookup_ref_result [OF Inr [unfolded x]] Inr IH
      by (auto simp: look x lookup_ref_append switch_of_def router_consts)
  qed (simp add: look lookup_ref_append switch_of_def)
qed (simp add: switch_of_def)

section \<open>Properties\<close>

text \<open>
  C1. The dispatch of a request: for services that registered their rules with \<open>map()\<close>, the answer
  is the one of a single routing table, the rules of all services in the order in which the
  services were loaded. The callback of the first rule whose pattern is a prefix of the URI runs;
  with no such rule the error page is sent; the search stops with a null dereference when it
  reaches a dynamic rule or a redirection first.
\<close>

theorem duda_switcher_routes:
  assumes "mk_string_ok api" "mk_list_appends add" "mk_list_appends addl" "mk_list_appends addf"
    and "\<forall>rules \<in> set ruless. \<forall>(pat, cb) \<in> set rules. pattern_ok c pat"
    and "list_all2 (\<lambda>ds rules. router_map_all api add addl addf rules [] = Inr (ds_router_list ds)) services ruless"
  shows "duda_switcher (duda_router_redirect std_port to_buf loc_ok) True (u @ c # r) (int (length u)) services =
    switch_of (lookup_ref u (concat ruless))"
proof -
  have "list_all2 (\<lambda>ds rules. ds_router_list ds = map (\<lambda>(pat, cb). rule_of pat cb) rules) services ruless"
    using assms(6)
  proof (rule list.rel_mono_strong)
    fix ds rules assume "rules \<in> set ruless" "router_map_all api add addl addf rules [] = Inr (ds_router_list ds)"
    then show "ds_router_list ds = map (\<lambda>(pat, cb). rule_of pat cb) rules"
      using router_map_all_rules [OF assms(1-4), of rules c "[]"] assms(5) by auto
  qed
  then show ?thesis using assms(5) by (intro duda_switcher_flat) (simp_all add: duda_router_redirect_def)
qed

definition example_service :: "(string \<times> nat) list \<Rightarrow> duda_service" where
  "example_service rules = \<lparr>ds_path_root = None, ds_path_log = None, ds_path_data = None, ds_path_html = None, ds_path_service = None,
     ds_dl_handle = 0, ds_router_list = map (\<lambda>(pat, cb). rule_of pat cb) rules\<rparr>"

theorem duda_switcher_routes_witness:
  "duda_switcher (duda_router_redirect 80 (\<lambda>p. cstr (ptr_text p)) True) True (''/bc'' @ CHR '' '' # ''x'') (int (length ''/bc''))
     [example_service [(''/a'', 1)], example_service [(''/b'', 2), (''/c/:id'', 3)]] = Inr (RunCallback (Some 2))"
proof -
  let ?rules = "[[(''/a'', 1)], [(''/b'', 2), (''/c/:id'', 3)]]"
  have ok: "\<forall>rules \<in> set ?rules. \<forall>(pat, cb) \<in> set rules. pattern_ok (CHR '' '') pat" by (simp add: pattern_ok_def)
  have "router_map_all mk_string_ref (\<lambda>x xs. xs @ [x]) (\<lambda>x xs. xs @ [x]) (\<lambda>x xs. xs @ [x]) rules [] = Inr (ds_router_list (example_service rules))"
    if "rules \<in> set ?rules" for rules
    using router_map_all_rules [OF mk_string_ref_ok mk_list_appends_snoc mk_list_appends_snoc mk_list_appends_snoc bspec [OF ok that], of "[]"]
    by (simp add: example_service_def)
  then have "list_all2 (\<lambda>ds rules. router_map_all mk_string_ref (\<lambda>x xs. xs @ [x]) (\<lambda>x xs. xs @ [x]) (\<lambda>x xs. xs @ [x]) rules [] = Inr (ds_router_list ds))
      (map example_service ?rules) ?rules" unfolding list_all2_map1 by (intro list.rel_refl_strong)
  from duda_switcher_routes [OF mk_string_ref_ok mk_list_appends_snoc mk_list_appends_snoc mk_list_appends_snoc ok this, of 80 "\<lambda>p. cstr (ptr_text p)" True "''/bc''" "''x''"]
  show ?thesis by (simp add: switch_of_def rule_of_def)
qed

text \<open>
  C32. Which services the program loads: on a command line in which every service could be loaded,
  with any options but \<open>-d\<close> in any order, only every second \<open>-w\<close> argument is loaded, and the last one
  when their number is odd. The first of two services is never started.
\<close>

theorem duda_main_loads_second_ones:
  assumes "loads_all ld" "mk_list_appends add" "list_all plain_option opts" "du_services d = []"
  shows "\<exists>d' ret port. duda_main ld add atoi (Some d) opts = Inr (d', ret, port) \<and>
    loaded_from ld (du_services d') (second_ones (webservice_args opts))"
proof -
  let ?st = "\<lparr>cl_root = None, cl_logdir = None, cl_datadir = None, cl_htmldir = None, cl_webservice = None, cl_ctx = d\<rparr>"
  have "loaded_from ld (du_services (cl_ctx ?st)) []" using assms(4) by (simp add: loaded_from_def)
  from cli_run_loads [OF assms(1-3) _ this] obtain st' where st': "cli_run ld add opts ?st = Inr st'"
    "loaded_from ld (du_services (cl_ctx st')) (second_ones (webservice_args opts))" by auto
  have "duda_start atoi (Some (cl_ctx st')) \<in> range Inr" by (simp add: duda_start_def Let_def)
  then obtain ret port where "duda_start atoi (Some (cl_ctx st')) = Inr (ret, port)" by auto
  with st' show ?thesis by (auto simp: duda_main_def cli_run_def run_bind_eq_Inr)
qed

definition example_loader :: loader where
  "example_loader = \<lparr>ld_stat = (\<lambda>_. Some True), ld_perm = (\<lambda>_. True), ld_dlopen = (\<lambda>p. Some (length p)), ld_mem = True, ld_boot = (\<lambda>_. Some id)\<rparr>"

theorem duda_main_loads_second_ones_witness:
  "\<exists>d' ret port. duda_main example_loader (\<lambda>x xs. xs @ [x]) (\<lambda>_. 8080) (duda_create True (Some 1))
      [OptWebservice ''a'', OptRoot ''/r'', OptWebservice ''bb''] = Inr (d', ret, port) \<and> map ds_dl_handle (du_services d') = [2]"
proof -
  have "loads_all example_loader" by (simp add: loads_all_def example_loader_def)
  then show ?thesis
    using duda_main_loads_second_ones [of example_loader "\<lambda>x xs. xs @ [x]" "[OptWebservice ''a'', OptRoot ''/r'', OptWebservice ''bb'']"
        "\<lparr>du_monkey = 1, du_tcp_port = None, du_services = []\<rparr>" "\<lambda>_. 8080"]
    by (auto simp: duda_create_def plain_option_def loaded_from_def example_loader_def)
qed

end
