(* ===== verification/Duda_Response.thy ===== *)
theory Duda_Response
  imports Duda_Queue
begin

text \<open>
  \<open>lib/objects/duda_response.c\<close>: the methods that build and end a response. What the methods ask of
  Monkey is a list of calls; what Monkey answers is an argument. Code behind an early return is
  left out.
\<close>

section \<open>State\<close>

datatype response_call = HeaderPrepare | HeaderAdd string int | HttpSend string | CorkOff int | ChangeMode int int int

text \<open>
  The members of the request context: the two flags, the body counter, the content length (-2 when
  not set), Monkey's status and content length, the queue, the end callback, and the calls so far.
\<close>

record response =
  rs_headers_off :: bool
  rs_headers_sent :: bool
  rs_body_writes :: int
  rs_content_length :: int
  rs_hdr_status :: int
  rs_hdr_content_length :: int
  rs_queue :: queue_request
  rs_end_callback :: "nat option"
  rs_calls :: "response_call list"

definition called :: "response_call \<Rightarrow> response \<Rightarrow> response" where
  "called c dr = dr\<lparr>rs_calls := rs_calls dr @ [c]\<rparr>"

section \<open>Headers\<close>

definition duda_response_headers_off :: "response \<Rightarrow> int \<times> response" where
  "duda_response_headers_off dr = (0, dr\<lparr>rs_headers_off := True\<rparr>)"

text \<open>\<open>r\<close> is the result of Monkey's \<open>header_prepare\<close>.\<close>

definition duda_response_send_headers :: "int \<Rightarrow> response \<Rightarrow> (int \<times> response) run" where
  "duda_response_send_headers r dr =
     (if rs_headers_off dr then Inr (0, dr\<lparr>rs_headers_sent := True\<rparr>)
      else if rs_headers_sent dr then Inr (-1, dr)
      else if rs_body_writes dr > 0 then Inr (-1, dr)
      else
        (let dr = (if rs_content_length dr \<ge> 0 then dr\<lparr>rs_hdr_content_length := rs_content_length dr\<rparr> else dr)
         in if rs_hdr_status dr \<le> 0 then Inl Aborted
            else if r \<noteq> 0 then Inr (-1, called HeaderPrepare dr)
            else Inr (0, (called HeaderPrepare dr)\<lparr>rs_headers_sent := True\<rparr>)))"

text \<open>\<open>set_status\<close> is what Monkey's \<open>mk_http_status\<close> leaves as the status.\<close>

definition duda_response_http_status :: "(int \<Rightarrow> int) \<Rightarrow> int \<Rightarrow> response \<Rightarrow> int \<times> response" where
  "duda_response_http_status set_status status dr = (0, dr\<lparr>rs_hdr_status := set_status status\<rparr>)"

text \<open>\<open>n\<close> is the result of Monkey's \<open>header_add\<close>.\<close>

definition duda_response_http_header :: "int \<Rightarrow> string \<Rightarrow> response \<Rightarrow> int \<times> response" where
  "duda_response_http_header n row dr = (n, called (HeaderAdd row (int (length row))) dr)"

definition duda_response_http_header_n :: "int \<Rightarrow> string \<Rightarrow> int \<Rightarrow> response \<Rightarrow> int \<times> response" where
  "duda_response_http_header_n n row len dr = (n, called (HeaderAdd row len) dr)"

definition duda_response_http_content_length :: "int \<Rightarrow> response \<Rightarrow> int \<times> response" where
  "duda_response_http_content_length len dr = (0, dr\<lparr>rs_content_length := len\<rparr>)"

definition duda_response_http_content_type :: "(string \<Rightarrow> string option) \<Rightarrow> string \<Rightarrow> response \<Rightarrow> int \<times> response" where
  "duda_response_http_content_type mimetype_lookup ext dr = (case mimetype_lookup ext of None \<Rightarrow> (-1, dr) | Some m \<Rightarrow> (0, dr))"

section \<open>Body\<close>

text \<open>\<open>mk_http_send\<close> gets the first \<open>len\<close> bytes of \<open>raw\<close>.\<close>

definition print_raw :: "string \<Rightarrow> int \<Rightarrow> response \<Rightarrow> int \<times> response" where
  "print_raw raw len dr = (0, called (HttpSend (take (nat len) raw)) dr)"

definition duda_response_print :: "string \<Rightarrow> int \<Rightarrow> response \<Rightarrow> int \<times> response" where
  "duda_response_print raw len dr = print_raw raw len dr"

text \<open>
  The loop of \<open>printf\<close>: \<open>n\<close> is what \<open>vsnprintf\<close> returns for the arguments, the length of the text or a
  negative number; \<open>size\<close> is a 32-bit \<open>int\<close>, and \<open>grow\<close> says for which sizes \<open>mem_realloc\<close> returns
  memory. The result is the final size, \<open>None\<close> when memory ran out. A loop that does not end has no
  result at all.
\<close>

partial_function (option) printf_loop :: "(int \<Rightarrow> bool) \<Rightarrow> int \<Rightarrow> 32 word \<Rightarrow> int option option" where
  "printf_loop grow n sz =
     (if n > -1 \<and> n < sint sz then Some (Some (sint sz))
      else if grow (sint (sz * 2)) then printf_loop grow n (sz * 2)
      else Some None)"

text \<open>\<open>mem\<close> says whether the first block can be allocated; \<open>text\<close> is the formatted text.\<close>

definition duda_response_printf :: "bool \<Rightarrow> (int \<Rightarrow> bool) \<Rightarrow> string option \<Rightarrow> response \<Rightarrow> (int \<times> response) option" where
  "duda_response_printf mem grow text dr =
     (if \<not> mem then Some (-1, dr)
      else
        (let n = (case text of None \<Rightarrow> -1 | Some t \<Rightarrow> int (length t))
         in case printf_loop grow n 128 of None \<Rightarrow> None
            | Some None \<Rightarrow> Some (-1, dr)
            | Some (Some sz) \<Rightarrow> Some (print_raw (case text of None \<Rightarrow> [] | Some t \<Rightarrow> cstr t) n dr)))"

text \<open>\<open>ok\<close> says whether the queue item can be allocated.\<close>

definition duda_response_sendfile_range ::
    "duda_queue_item mk_list_adder \<Rightarrow> bool \<Rightarrow> (string \<Rightarrow> file_info option) \<Rightarrow> (string \<Rightarrow> int) \<Rightarrow> string \<Rightarrow> int \<Rightarrow> 64 word \<Rightarrow> response \<Rightarrow> (int \<times> response) run" where
  "duda_response_sendfile_range add ok file_get_info open_fd path offset cnt dr =
     (case duda_sendfile_new file_get_info open_fd path offset cnt of None \<Rightarrow> Inr (-1, dr)
      | Some sf \<Rightarrow>
          (case duda_queue_item_new ok DUDA_QTYPE_SENDFILE of None \<Rightarrow> Inl NullDeref
           | Some item \<Rightarrow>
               (let q = rs_queue dr
                in Inr (0, dr\<lparr>rs_queue := q\<lparr>qd_queue_out := snd (duda_queue_add add (item\<lparr>qi_data := SendFile sf\<rparr>) (qd_queue_out q))\<rparr>\<rparr>))))"

definition duda_response_sendfile ::
    "duda_queue_item mk_list_adder \<Rightarrow> bool \<Rightarrow> (string \<Rightarrow> file_info option) \<Rightarrow> (string \<Rightarrow> int) \<Rightarrow> string \<Rightarrow> response \<Rightarrow> (int \<times> response) run" where
  "duda_response_sendfile add ok file_get_info open_fd path dr =
     (case duda_sendfile_new file_get_info open_fd path 0 0 of None \<Rightarrow> Inr (-1, dr)
      | Some sf \<Rightarrow>
          (case duda_queue_item_new ok DUDA_QTYPE_SENDFILE of None \<Rightarrow> Inl NullDeref
           | Some item \<Rightarrow>
               (let q = rs_queue dr
                in Inr (0, dr\<lparr>rs_queue := q\<lparr>qd_queue_out := snd (duda_queue_add add (item\<lparr>qi_data := SendFile sf\<rparr>) (qd_queue_out q))\<rparr>\<rparr>))))"

section \<open>Waiting and ending\<close>

text \<open>\<open>n\<close> is the result of Monkey's \<open>event_socket_change_mode\<close>, \<open>mk_sleep\<close> its \<open>MK_EVENT_SLEEP\<close>.\<close>

definition duda_response_wait :: "int \<Rightarrow> int \<Rightarrow> response \<Rightarrow> int \<times> response" where
  "duda_response_wait mk_sleep n dr = (n, called (ChangeMode (qd_socket (rs_queue dr)) mk_sleep (-1)) dr)"

definition duda_response_continue :: "int \<Rightarrow> response \<Rightarrow> int \<times> response" where
  "duda_response_continue n dr = (n, called (ChangeMode (qd_socket (rs_queue dr)) (-1) (-1)) dr)"

definition duda_response_end :: "int \<Rightarrow> nat option \<Rightarrow> response \<Rightarrow> (int \<times> response) run" where
  "duda_response_end r end_cb dr =
     (if rs_hdr_status dr = 0 \<and> \<not> rs_headers_off dr then Inl Aborted
      else run_bind (duda_response_send_headers r (dr\<lparr>rs_end_callback := end_cb\<rparr>)) (\<lambda>(ret, dr).
        if ret = -1 then Inr (-1, dr) else Inr (0, called (CorkOff (qd_socket (rs_queue dr))) dr)))"

definition duda_response_finalize :: "response \<Rightarrow> nat option \<Rightarrow> int" where
  "duda_response_finalize dr end_cb = 0"

definition duda_response_flush :: "nat mk_list_adder \<Rightarrow> int \<Rightarrow> response \<Rightarrow> nat list option \<Rightarrow> (int \<times> response \<times> nat list option) run" where
  "duda_response_flush add w dr events =
     run_bind (duda_queue_flush add w (rs_queue dr) events) (\<lambda>(ret, q, events). Inr (ret, dr\<lparr>rs_queue := q\<rparr>, events))"

section \<open>Sequences of calls\<close>

text \<open>The calls of a callback of a service, with what Monkey answers to each.\<close>

datatype response_op = RespHeadersOff | RespSendHeaders int | RespStatus int | RespHeader int string | RespLength int
  | RespPrint string int | RespEnd int "nat option"

primrec response_step :: "(int \<Rightarrow> int) \<Rightarrow> response_op \<Rightarrow> response \<Rightarrow> (int \<times> response) run" where
  "response_step set_status RespHeadersOff dr = Inr (duda_response_headers_off dr)"
| "response_step set_status (RespSendHeaders r) dr = duda_response_send_headers r dr"
| "response_step set_status (RespStatus st) dr = Inr (duda_response_http_status set_status st dr)"
| "response_step set_status (RespHeader n row) dr = Inr (duda_response_http_header n row dr)"
| "response_step set_status (RespLength len) dr = Inr (duda_response_http_content_length len dr)"
| "response_step set_status (RespPrint raw len) dr = Inr (duda_response_print raw len dr)"
| "response_step set_status (RespEnd r end_cb) dr = duda_response_end r end_cb dr"

primrec response_run :: "(int \<Rightarrow> int) \<Rightarrow> response_op list \<Rightarrow> response \<Rightarrow> (int list \<times> response) run" where
  "response_run set_status [] dr = Inr ([], dr)"
| "response_run set_status (op # ops) dr =
     run_bind (response_step set_status op dr) (\<lambda>(ret, dr).
       run_bind (response_run set_status ops dr) (\<lambda>(rets, dr). Inr (ret # rets, dr)))"

definition new_response :: "queue_request \<Rightarrow> response" where
  "new_response q = \<lparr>rs_headers_off = False, rs_headers_sent = False, rs_body_writes = 0, rs_content_length = -2, rs_hdr_status = 0,
     rs_hdr_content_length = -1, rs_queue = q, rs_end_callback = None, rs_calls = []\<rparr>"

section \<open>The loop of printf\<close>

lemma sint_power: "k \<le> 30 \<Longrightarrow> sint (2 ^ k :: 32 word) = 2 ^ k"
proof -
  assume k: "k \<le> 30"
  have "(2 :: int) ^ k \<le> 2 ^ 30" using k by (intro power_increasing) simp_all
  then have "signed_take_bit 31 (2 ^ k :: int) = 2 ^ k" by (intro signed_take_bit_int_eq_self) (simp_all add: order_trans [of _ 0])
  then have "sint (word_of_int (2 ^ k) :: 32 word) = 2 ^ k" by (simp only: signed_of_int) simp
  then show ?thesis by simp
qed

lemma printf_loop_ends:
  assumes "0 \<le> n" "n < 2 ^ 30" "k \<le> 30"
  shows "\<exists>r. printf_loop grow n (2 ^ k) = Some r \<and> (case r of None \<Rightarrow> \<not> (\<forall>j. k < j \<and> j \<le> 30 \<longrightarrow> grow (2 ^ j)) | Some sz \<Rightarrow> n < sz)"
  using assms(3)
proof (induction "30 - k" arbitrary: k)
  case 0
  then have "k = 30" by simp
  then show ?case using assms(1,2) sint_power [of 30] by (subst printf_loop.simps) simp
next
  case (Suc d)
  then have k: "k < 30" "d = 30 - Suc k" by simp_all
  have two: "(2 :: 32 word) ^ k * 2 = 2 ^ Suc k" by simp
  show ?case
  proof (cases "n < 2 ^ k")
    case True
    with assms(1) k sint_power [of k] show ?thesis by (subst printf_loop.simps) simp
  next
    case False
    note step = printf_loop.simps [of grow n "2 ^ k", unfolded two]
    have sk: "sint (2 ^ k :: 32 word) = 2 ^ k" "sint (2 ^ Suc k :: 32 word) = 2 ^ Suc k" using k by (simp_all only: sint_power Suc_leI less_imp_le)
    show ?thesis
    proof (cases "grow (2 ^ Suc k)")
      case True
      with Suc.hyps(1) [of "Suc k"] k(2) k(1) obtain r where r: "printf_loop grow n (2 ^ Suc k) = Some r"
        "case r of None \<Rightarrow> \<not> (\<forall>j. Suc k < j \<and> j \<le> 30 \<longrightarrow> grow (2 ^ j)) | Some sz \<Rightarrow> n < sz" by auto
      have "printf_loop grow n (2 ^ k) = Some r" using step r(1) True False by (simp only: sk if_False simp_thms if_True)
      with r(2) show ?thesis by (auto split: option.splits intro: Suc_lessD)
    next
      case no: False
      have "printf_loop grow n (2 ^ k) = Some None" using step no False by (simp only: sk if_False simp_thms)
      moreover have "\<not> (\<forall>j. k < j \<and> j \<le> 30 \<longrightarrow> grow (2 ^ j))" using no k(1) by (auto intro!: exI [of _ "Suc k"])
      ultimately show ?thesis by simp
    qed
  qed
qed

lemma printf_loop_diverges: "printf_loop (\<lambda>_. True) (-1) sz = None"
proof -
  have "\<not> (g = (\<lambda>_. True) \<and> n = -1)" if "printf_loop g n s = Some y" for g n s y
    using that by (rule printf_loop.raw_induct [rotated]) (auto split: if_splits)
  from this [of "\<lambda>_. True" "-1" sz] show ?thesis by (cases "printf_loop (\<lambda>_. True) (-1) sz") auto
qed

section \<open>Headers are prepared once\<close>

text \<open>Every \<open>header_prepare\<close> succeeds.\<close>

primrec prepare_ok :: "response_op \<Rightarrow> bool" where
  "prepare_ok RespHeadersOff = True"
| "prepare_ok (RespSendHeaders r) = (r = 0)"
| "prepare_ok (RespStatus st) = True"
| "prepare_ok (RespHeader n row) = True"
| "prepare_ok (RespLength len) = True"
| "prepare_ok (RespPrint raw len) = True"
| "prepare_ok (RespEnd r end_cb) = (r = 0)"

definition prepared :: "response \<Rightarrow> nat" where
  "prepared dr = count_list (rs_calls dr) HeaderPrepare"

definition headers_inv :: "response \<Rightarrow> bool" where
  "headers_inv dr \<longleftrightarrow> prepared dr \<le> 1 \<and> (prepared dr = 1 \<longrightarrow> rs_headers_sent dr) \<and>
     (rs_headers_sent dr \<longrightarrow> prepared dr = 1 \<or> rs_headers_off dr)"

lemma prepared_simps [simp]:
  "prepared (called c dr) = prepared dr + (if c = HeaderPrepare then 1 else 0)"
  "prepared (dr\<lparr>rs_headers_sent := b\<rparr>) = prepared dr" "prepared (dr\<lparr>rs_headers_off := b\<rparr>) = prepared dr"
  "prepared (dr\<lparr>rs_hdr_status := i\<rparr>) = prepared dr" "prepared (dr\<lparr>rs_content_length := i\<rparr>) = prepared dr"
  "prepared (dr\<lparr>rs_hdr_content_length := i\<rparr>) = prepared dr" "prepared (dr\<lparr>rs_end_callback := e\<rparr>) = prepared dr"
  by (simp_all add: prepared_def called_def)

lemma called_simps [simp]: "rs_headers_sent (called c dr) = rs_headers_sent dr" "rs_headers_off (called c dr) = rs_headers_off dr"
  by (simp_all add: called_def)

lemma send_headers_inv:
  "headers_inv dr \<Longrightarrow> r = 0 \<Longrightarrow> duda_response_send_headers r dr = Inr (ret, dr') \<Longrightarrow> headers_inv dr'"
  by (auto simp: duda_response_send_headers_def headers_inv_def Let_def split: if_splits)

lemma headers_inv_called: "c \<noteq> HeaderPrepare \<Longrightarrow> headers_inv (called c dr) = headers_inv dr"
  by (simp add: headers_inv_def)

lemma response_end_inv:
  assumes "headers_inv dr" "duda_response_end 0 end_cb dr = Inr (ret, dr')"
  shows "headers_inv dr'"
proof -
  have inv: "headers_inv (dr\<lparr>rs_end_callback := end_cb\<rparr>)" using assms(1) by (simp add: headers_inv_def)
  obtain ret1 dr1 where "duda_response_send_headers 0 (dr\<lparr>rs_end_callback := end_cb\<rparr>) = Inr (ret1, dr1)"
    "dr' = dr1 \<or> dr' = called (CorkOff (qd_socket (rs_queue dr1))) dr1"
    using assms(2) unfolding duda_response_end_def by (auto simp: run_bind_eq_Inr split: if_splits)
  with send_headers_inv [OF inv refl] show ?thesis by (auto simp: headers_inv_called)
qed

lemma response_step_inv:
  assumes "headers_inv dr" "prepare_ok op" "response_step set_status op dr = Inr (ret, dr')"
  shows "headers_inv dr'"
proof (cases op)
  case (RespEnd r end_cb)
  with assms response_end_inv [of dr end_cb ret dr'] show ?thesis by simp
next
  case (RespSendHeaders r)
  with assms send_headers_inv [of dr r ret dr'] show ?thesis by simp
qed (use assms in
    \<open>auto simp: headers_inv_def duda_response_headers_off_def duda_response_http_status_def duda_response_http_header_def
       duda_response_http_content_length_def duda_response_print_def print_raw_def\<close>)

lemma response_run_inv:
  "headers_inv dr \<Longrightarrow> list_all prepare_ok ops \<Longrightarrow> response_run set_status ops dr = Inr (rets, dr') \<Longrightarrow> headers_inv dr'"
proof (induction ops arbitrary: dr rets)
  case (Cons op ops)
  from Cons.prems(3) obtain ret dr1 rets1 where "response_step set_status op dr = Inr (ret, dr1)" "response_run set_status ops dr1 = Inr (rets1, dr')"
    by (auto simp: run_bind_eq_Inr)
  with Cons response_step_inv [of dr op set_status ret dr1] show ?case by simp
qed simp

section \<open>Properties\<close>





end
