(* ===== verification/Duda_Session.thy ===== *)
theory Duda_Session
  imports Duda_Cookie Duda_Bytes "HOL-Library.Char_ord" "HOL-Library.List_Lexorder"
begin

text \<open>
  \<open>lib/objects/duda_session.c\<close>: sessions kept as files of a store directory and named by a cookie of
  the client. The file system is the map of the directories it has, each a map of its entries; the
  random generator of the C library, the clock, the order in which a directory is read, what the
  system permits, and Monkey's routines are arguments.
\<close>

section \<open>The file system\<close>

datatype fsnode = Reg string | Dirent | Special

type_synonym listing = "string \<rightharpoonup> fsnode"
type_synonym fs = "string \<rightharpoonup> listing"

definition path_dir :: "string \<Rightarrow> string" where
  "path_dir p = rev (tl (dropWhile (\<lambda>c. c \<noteq> CHR ''/'') (rev p)))"

definition path_base :: "string \<Rightarrow> string" where
  "path_base p = rev (takeWhile (\<lambda>c. c \<noteq> CHR ''/'') (rev p))"

text \<open>\<open>mkdir\<close>, \<open>open\<close> with \<open>O_CREAT | O_WRONLY\<close>, \<open>write\<close> at the start of a file, and \<open>unlink\<close>.\<close>

definition sys_mkdir :: "(string \<Rightarrow> bool) \<Rightarrow> string \<Rightarrow> fs \<Rightarrow> fs option" where
  "sys_mkdir may p fs =
     (case fs (path_dir p) of None \<Rightarrow> None
      | Some ents \<Rightarrow>
          if may p \<and> path_base p \<notin> {[], ''.'', ''..''} \<and> ents (path_base p) = None
          then Some (fs(path_dir p \<mapsto> ents(path_base p \<mapsto> Dirent), p \<mapsto> Map.empty)) else None)"

definition sys_open_creat :: "(string \<Rightarrow> bool) \<Rightarrow> string \<Rightarrow> fs \<Rightarrow> fs option" where
  "sys_open_creat may p fs =
     (case fs (path_dir p) of None \<Rightarrow> None
      | Some ents \<Rightarrow>
          if \<not> may p \<or> path_base p \<in> {[], ''.'', ''..''} then None
          else (case ents (path_base p) of
                  None \<Rightarrow> Some (fs(path_dir p \<mapsto> ents(path_base p \<mapsto> Reg [])))
                | Some (Reg _) \<Rightarrow> Some fs
                | _ \<Rightarrow> None))"

definition sys_write :: "string \<Rightarrow> string \<Rightarrow> fs \<Rightarrow> fs" where
  "sys_write p data fs =
     (case fs (path_dir p) of None \<Rightarrow> fs
      | Some ents \<Rightarrow>
          (case ents (path_base p) of
             Some (Reg old) \<Rightarrow> fs(path_dir p \<mapsto> ents(path_base p \<mapsto> Reg (data @ drop (length data) old)))
           | _ \<Rightarrow> fs))"

definition sys_unlink :: "(string \<Rightarrow> bool) \<Rightarrow> string \<Rightarrow> fs \<Rightarrow> fs" where
  "sys_unlink may p fs =
     (case fs (path_dir p) of None \<Rightarrow> fs
      | Some ents \<Rightarrow>
          if may p \<and> ents (path_base p) \<notin> {None, Some Dirent} then fs(path_dir p \<mapsto> ents(path_base p := None)) else fs)"

text \<open>\<open>readdir\<close> gives the names of a directory with their types, in an order of its own.\<close>

datatype d_type = DT_REG | DT_DIR | DT_OTHER

primrec node_type :: "fsnode \<Rightarrow> d_type" where
  "node_type (Reg _) = DT_REG"
| "node_type Dirent = DT_DIR"
| "node_type Special = DT_OTHER"

type_synonym readdir = "listing \<Rightarrow> (string \<times> d_type) list"

definition readdir_ok :: "readdir \<Rightarrow> bool" where
  "readdir_ok readdir \<longleftrightarrow>
     (\<forall>ents. finite (dom ents) \<longrightarrow>
        (\<forall>n t. (n, t) \<in> set (readdir ents) \<longleftrightarrow> (n = ''.'' \<or> n = ''..'') \<and> t = DT_DIR \<or> map_option node_type (ents n) = Some t))"

section \<open>The routines\<close>

definition SESSION_STORE_PATH_DEV :: string where "SESSION_STORE_PATH_DEV = ''/dev/shm/duda_sessions''"
definition SESSION_STORE_PATH_RUN :: string where "SESSION_STORE_PATH_RUN = ''/run/shm/duda_sessions''"
definition SESSION_UUID_SIZE :: nat where "SESSION_UUID_SIZE = 128"
definition SESSION_KEY :: string where "SESSION_KEY = ''DUDA_SESSION''"

definition duda_session_create_store :: "(string \<Rightarrow> bool) \<Rightarrow> string option \<Rightarrow> fs \<Rightarrow> int \<times> fs" where
  "duda_session_create_store may path fs =
     (case path of None \<Rightarrow> (-1, fs)
      | Some p \<Rightarrow> (case sys_mkdir may p fs of None \<Rightarrow> (-1, fs) | Some fs' \<Rightarrow> (0, fs')))"

text \<open>
  \<open>info\<close> is Monkey's \<open>file_get_info\<close>, true for the result 0; \<open>build\<close> its \<open>str_build\<close> with the format
  \<open>%s/%s\<close>. The result is the returned value, \<open>session_store_path\<close> and the file system.
\<close>

definition duda_session_init :: "(fs \<Rightarrow> string option \<Rightarrow> bool) \<Rightarrow> (string option \<Rightarrow> string \<Rightarrow> string option)
    \<Rightarrow> (string \<Rightarrow> bool) \<Rightarrow> string \<Rightarrow> fs \<Rightarrow> int \<times> string option \<times> fs" where
  "duda_session_init info build may store_name fs =
     (let store = (if info fs (Some ''/dev/shm'') then Some SESSION_STORE_PATH_DEV
                   else if info fs (Some ''/run/shm'') then Some SESSION_STORE_PATH_RUN else None);
          (ret, fs) = (if \<not> info fs store then duda_session_create_store may store fs else (0, fs))
      in if ret \<noteq> 0 then (-1, store, fs)
         else
           (let path = build store store_name;
                (ret, fs) = (if \<not> info fs path then duda_session_create_store may path fs else (0, fs))
            in if ret \<noteq> 0 then (-1, store, fs) else (0, path, fs)))"

text \<open>
  \<open>_rand\<close>: the generator is seeded with the microseconds plus the entropy, so its first value is a
  function of that seed.
\<close>

definition rand_seeded :: "(32 word \<Rightarrow> nat) \<Rightarrow> int \<Rightarrow> 32 word \<Rightarrow> nat" where
  "rand_seeded rnd tv_usec entropy = rnd (word_of_int (tv_usec + sint entropy))"

text \<open>The conversion \<open>%x\<close>.\<close>

definition hex_digit :: "nat \<Rightarrow> char" where
  "hex_digit d = char_of (if d < 10 then 48 + d else 87 + d)"

fun hex_nat :: "nat \<Rightarrow> string" where
  "hex_nat n = (if n < 16 then [hex_digit n] else hex_nat (n div 16) @ [hex_digit (n mod 16)])"

declare hex_nat.simps [simp del]

text \<open>The two values of the clock and the entropy give the identifier.\<close>

definition session_uuid :: "(32 word \<Rightarrow> nat) \<Rightarrow> int \<times> int \<times> 32 word \<Rightarrow> string" where
  "session_uuid rnd = (\<lambda>(usec1, usec2, e). hex_nat (rand_seeded rnd usec1 e) @ ''-'' @ hex_nat (rand_seeded rnd usec2 e))"

definition session_path :: "string \<Rightarrow> string \<Rightarrow> string \<Rightarrow> int \<Rightarrow> string" where
  "session_path store name uuid expires = store @ ''/'' @ name @ ''.'' @ uuid @ ''.'' @ dec_int expires"

text \<open>
  \<open>mem\<close> says whether the identifier can be allocated; \<open>written\<close> is the result of \<open>write\<close>, \<open>None\<close> for -1.
\<close>

definition duda_session_create :: "'iov mk_cookie_api \<Rightarrow> bool \<Rightarrow> (32 word \<Rightarrow> nat) \<Rightarrow> int \<times> int \<times> 32 word \<Rightarrow> (string \<Rightarrow> bool) \<Rightarrow> nat option
    \<Rightarrow> string option \<Rightarrow> string \<Rightarrow> string \<Rightarrow> int \<Rightarrow> 'iov option \<times> fs \<Rightarrow> (int \<times> 'iov option \<times> fs) run" where
  "duda_session_create api mem rnd ent may written store name val expires = (\<lambda>(rows, fs).
     if \<not> mem then Inr (-1, rows, fs)
     else
       (let t = session_uuid rnd ent; uuid = snprintf SESSION_UUID_SIZE t; len = length t
        in run_bind (duda_cookie_set api ''DUDA_SESSION'' 12 uuid len expires rows) (\<lambda>(_, rows).
           case store of None \<Rightarrow> Inl NullDeref
           | Some st \<Rightarrow>
               (let session = cstr_text (snprintf SESSION_UUID_SIZE (session_path st name (cstr_text uuid) expires))
                in case sys_open_creat may session fs of None \<Rightarrow> Inr (-1, rows, fs)
                   | Some fs \<Rightarrow>
                       (case written of None \<Rightarrow> Inr (-1, rows, fs)
                        | Some n \<Rightarrow> Inr (0, rows, sys_write session (take n val) fs))))))"

text \<open>\<open>strncpy(dst, src, n)\<close>: the bytes it stores.\<close>

primrec strncpy_bytes :: "nat \<Rightarrow> string \<Rightarrow> string run" where
  "strncpy_bytes 0 src = Inr []"
| "strncpy_bytes (Suc n) src =
     (case src of [] \<Rightarrow> Inl OutOfBounds
      | c # cs \<Rightarrow> if c = NUL then Inr (replicate (Suc n) NUL) else run_bind (strncpy_bytes n cs) (\<lambda>r. Inr (c # r)))"

text \<open>
  The prefix of the file name, composed in the buffer of 128 bytes: the result is the buffer and
  \<open>buf_len\<close>.
\<close>

definition session_prefix :: "string \<Rightarrow> string \<Rightarrow> nat \<Rightarrow> (string \<times> nat) run" where
  "session_prefix name session_val len =
     (let t = name @ ''.''; ret = length t;
          buf = take SESSION_UUID_SIZE (snprintf SESSION_UUID_SIZE t @ replicate SESSION_UUID_SIZE NUL);
          buf_len = ret + len
      in run_bind (strncpy_bytes len session_val) (\<lambda>bs.
         run_bind (puts buf ret bs) (\<lambda>buf.
         run_bind (wr buf buf_len (CHR ''.'')) (\<lambda>buf.
         run_bind (wr buf (Suc buf_len) NUL) (\<lambda>buf. Inr (buf, Suc buf_len))))))"

text \<open>The loop over the directory: the first regular file whose name has the prefix.\<close>

primrec session_scan :: "string \<Rightarrow> nat \<Rightarrow> (string \<times> d_type) list \<Rightarrow> string option run" where
  "session_scan buf buf_len [] = Inr None"
| "session_scan buf buf_len (ent # ents) =
     (if take 1 (fst ent) = ''.'' \<and> fst ent \<noteq> ''..'' then session_scan buf buf_len ents
      else if snd ent \<noteq> DT_REG then session_scan buf buf_len ents
      else run_bind (strncmp_eq (cstr (fst ent)) buf buf_len) (\<lambda>eq.
             if eq then Inr (Some (fst ent)) else session_scan buf buf_len ents))"

definition session_find :: "'iov mk_cookie_api \<Rightarrow> readdir \<Rightarrow> string option \<Rightarrow> fs \<Rightarrow> cookie_header \<Rightarrow> string \<Rightarrow> (string \<times> string) option run" where
  "session_find api readdir store fs header name =
     run_bind (duda_cookie_get api header SESSION_KEY) (\<lambda>res.
       case res of None \<Rightarrow> Inr None
       | Some (session_val, len) \<Rightarrow>
           (case store of None \<Rightarrow> Inl NullDeref
            | Some st \<Rightarrow>
                (case fs st of None \<Rightarrow> Inr None
                 | Some ents \<Rightarrow>
                     run_bind (session_prefix name session_val len) (\<lambda>(buf, buf_len).
                     run_bind (session_scan buf buf_len (readdir ents)) (\<lambda>d.
                       Inr (map_option (\<lambda>d. (st, d)) d))))))"

text \<open>
  \<open>buffer\<close> says whether the caller could allocate the memory the path is written to. The result is
  the path, \<open>None\<close> for -1.
\<close>

definition duda_session_get_path :: "'iov mk_cookie_api \<Rightarrow> readdir \<Rightarrow> string option \<Rightarrow> fs \<Rightarrow> cookie_header \<Rightarrow> string \<Rightarrow> bool \<Rightarrow> string option run" where
  "duda_session_get_path api readdir store fs header name buffer =
     run_bind (session_find api readdir store fs header name) (\<lambda>res.
       case res of None \<Rightarrow> Inr None
       | Some (st, d) \<Rightarrow>
           if \<not> buffer then Inl NullDeref
           else Inr (Some (cstr_text (snprintf SESSION_UUID_SIZE (st @ ''/'' @ d)))))"

definition duda_session_destroy :: "'iov mk_cookie_api \<Rightarrow> readdir \<Rightarrow> (string \<Rightarrow> bool) \<Rightarrow> string option \<Rightarrow> cookie_header \<Rightarrow> string \<Rightarrow> bool
    \<Rightarrow> 'iov option \<times> fs \<Rightarrow> (int \<times> 'iov option \<times> fs) run" where
  "duda_session_destroy api readdir may store header name mem = (\<lambda>(rows, fs).
     run_bind (duda_session_get_path api readdir store fs header name mem) (\<lambda>path.
       (let (ret, fs) = (case path of None \<Rightarrow> (-1, fs) | Some p \<Rightarrow> (0, sys_unlink may p fs))
        in run_bind (duda_cookie_destroy api SESSION_KEY (length SESSION_KEY) rows) (\<lambda>(_, rows). Inr (ret, rows, fs)))))"

text \<open>\<open>to_buffer\<close> is Monkey's \<open>file_to_buffer\<close>.\<close>

definition duda_session_get :: "'iov mk_cookie_api \<Rightarrow> readdir \<Rightarrow> (fs \<Rightarrow> string \<Rightarrow> string option) \<Rightarrow> string option \<Rightarrow> fs \<Rightarrow> cookie_header
    \<Rightarrow> string \<Rightarrow> bool \<Rightarrow> string option run" where
  "duda_session_get api readdir to_buffer store fs header name mem =
     run_bind (duda_session_get_path api readdir store fs header name mem) (\<lambda>path.
       case path of None \<Rightarrow> Inr None | Some p \<Rightarrow> Inr (to_buffer fs p))"

definition duda_session_isset :: "'iov mk_cookie_api \<Rightarrow> readdir \<Rightarrow> string option \<Rightarrow> fs \<Rightarrow> cookie_header \<Rightarrow> string \<Rightarrow> int run" where
  "duda_session_isset api readdir store fs header name =
     run_bind (session_find api readdir store fs header name) (\<lambda>res. Inr (if res = None then -1 else 0))"

section \<open>Names and paths\<close>

lemma takeWhile_until: "c \<notin> set xs \<Longrightarrow> takeWhile (\<lambda>x. x \<noteq> c) (xs @ c # ys) = xs"
  by (induction xs) auto

lemma dropWhile_until: "c \<notin> set xs \<Longrightarrow> dropWhile (\<lambda>x. x \<noteq> c) (xs @ c # ys) = c # ys"
  by (induction xs) auto

lemma path_split_slash:
  "CHR ''/'' \<notin> set b \<Longrightarrow> path_dir (d @ ''/'' @ b) = d"
  "CHR ''/'' \<notin> set b \<Longrightarrow> path_base (d @ ''/'' @ b) = b"
  by (simp_all add: path_dir_def path_base_def takeWhile_until dropWhile_until)

definition hex_chars :: "char set" where
  "hex_chars = set ''-0123456789abcdef''"

lemma hex_chars_no: "NUL \<notin> hex_chars" "CHR ''/'' \<notin> hex_chars" "CHR '';'' \<notin> hex_chars"
  by (simp_all add: hex_chars_def)

lemma hex_chars_dash: "CHR ''-'' \<in> hex_chars"
  by (simp add: hex_chars_def)

lemma hex_digit_all: "\<forall>d \<in> set [0..<16]. hex_digit d \<in> hex_chars"
  by code_simp

lemma hex_digit_char: "d < 16 \<Longrightarrow> hex_digit d \<in> hex_chars"
  using hex_digit_all by simp

lemma hex_nat_chars: "set (hex_nat n) \<subseteq> hex_chars"
proof (induction n rule: hex_nat.induct)
  case (1 n)
  show ?case
  proof (cases "n < 16")
    case True
    then show ?thesis using hex_digit_char [of n] by (subst hex_nat.simps) simp
  next
    case False
    with 1 hex_digit_char [of "n mod 16"] show ?thesis by (subst hex_nat.simps) simp
  qed
qed

lemma dec_digit_char: "d < 10 \<Longrightarrow> char_of (48 + d :: nat) \<in> hex_chars"
  using hex_digit_char [of d] by (simp add: hex_digit_def)

lemma dec_nat_chars: "set (dec_nat n) \<subseteq> hex_chars"
proof (induction n rule: dec_nat.induct)
  case (1 n)
  show ?case
  proof (cases "n < 10")
    case True
    then show ?thesis using dec_digit_char [of n] by (subst dec_nat.simps) simp
  next
    case False
    with 1 dec_digit_char [of "n mod 10"] show ?thesis by (subst dec_nat.simps) simp
  qed
qed

lemma dec_int_chars: "set (dec_int i) \<subseteq> hex_chars"
  using dec_nat_chars by (simp add: dec_int_def hex_chars_dash)

lemma session_uuid_chars: "set (session_uuid rnd ent) \<subseteq> hex_chars"
  using hex_nat_chars by (cases ent) (simp add: session_uuid_def hex_chars_dash)

lemma session_uuid_no:
  "no_nul (session_uuid rnd ent)" "CHR ''/'' \<notin> set (session_uuid rnd ent)" "CHR '';'' \<notin> set (session_uuid rnd ent)"
  using session_uuid_chars [of rnd ent] hex_chars_no unfolding no_nul_def by auto

lemma dec_int_no: "no_nul (dec_int i)" "CHR ''/'' \<notin> set (dec_int i)"
  using dec_int_chars [of i] hex_chars_no unfolding no_nul_def by auto

text \<open>A text that fits is stored by \<open>snprintf\<close> unchanged.\<close>

lemma snprintf_fits: "no_nul t \<Longrightarrow> length t < n \<Longrightarrow> cstr_text (snprintf n t) = t"
  by (simp add: snprintf_def cstr_def cstr_text_cstr)

section \<open>The prefix\<close>

lemma strncpy_bytes_text: "no_nul v \<Longrightarrow> strncpy_bytes (length v) (v @ r) = Inr v"
  by (induction v) auto

lemma strncpy_bytes_length: "n \<le> length src \<Longrightarrow> \<exists>bs. strncpy_bytes n src = Inr bs \<and> length bs = n"
proof (induction n arbitrary: src)
  case (Suc n)
  then obtain c cs where "src = c # cs" "n \<le> length cs" by (cases src) auto
  with Suc.IH [of cs] show ?case by auto
qed simp

definition prefix_buf :: "string \<Rightarrow> string" where
  "prefix_buf name = take SESSION_UUID_SIZE (snprintf SESSION_UUID_SIZE (name @ ''.'') @ replicate SESSION_UUID_SIZE NUL)"

lemma prefix_buf_length [simp]: "length (prefix_buf name) = 128"
  by (simp add: prefix_buf_def SESSION_UUID_SIZE_def)

lemma session_prefix_ok:
  assumes "no_nul v" "length name + length v + 2 < 128"
  shows "\<exists>r. session_prefix name (v @ x) (length v) = Inr ((name @ ''.'' @ v @ ''.'') @ r, length name + length v + 2)"
proof -
  let ?b = "take (length name + 1) (prefix_buf name) @ v @ drop (length name + 1 + length v) (prefix_buf name)"
  have p: "puts (prefix_buf name) (length name + 1) v = Inr ?b" using assms(2) by (intro puts_ok) simp
  have t: "take (length name + 1) (prefix_buf name) = name @ ''.''"
    using assms(2) by (simp add: prefix_buf_def snprintf_def SESSION_UUID_SIZE_def cstr_def)
  let ?d = "drop (length name + 1 + length v) (prefix_buf name)"
  have "2 \<le> length ?d" using assms(2) by simp
  then obtain c c' z where d: "?d = c # c' # z" by (cases ?d; cases "tl ?d") auto
  have "session_prefix name (v @ x) (length v) = Inr ((name @ ''.'' @ v @ ''.'') @ NUL # z, length name + length v + 2)"
    using p t d assms unfolding session_prefix_def prefix_buf_def [symmetric] Let_def
    by (simp add: strncpy_bytes_text wr_def list_update_append)
  then show ?thesis by blast
qed

lemma session_prefix_fault:
  assumes "len \<le> length session_val" "128 \<le> length name + len + 2"
  shows "session_prefix name session_val len = Inl OutOfBounds"
proof -
  from strncpy_bytes_length [OF assms(1)] obtain bs where bs: "strncpy_bytes len session_val = Inr bs" "length bs = len" by blast
  show ?thesis
  proof (cases "len = 0 \<or> length name + 1 + len \<le> 128")
    case True
    then have "\<exists>buf. puts (prefix_buf name) (length name + 1) bs = Inr buf \<and> length buf = 128"
      using bs(2) puts_ok [of "length name + 1" bs "prefix_buf name"] by auto
    then show ?thesis using bs assms unfolding session_prefix_def prefix_buf_def [symmetric] Let_def by (auto simp: wr_def)
  next
    case False
    then have "puts (prefix_buf name) (length name + 1) bs = Inl OutOfBounds" using bs(2) by (intro puts_bad) auto
    then show ?thesis using bs unfolding session_prefix_def prefix_buf_def [symmetric] Let_def by simp
  qed
qed

section \<open>The directory\<close>

lemma strncmp_eq_cstr: "no_nul p \<Longrightarrow> strncmp_eq (cstr d) (p @ r) (length p) = Inr (take (length p) d = p)"
proof (induction p arbitrary: d)
  case (Cons c p)
  then show ?case by (cases d) (auto simp: cstr_def)
qed simp

definition session_file :: "string \<Rightarrow> string \<times> d_type \<Rightarrow> bool" where
  "session_file p = (\<lambda>(d, ty). \<not> (take 1 d = ''.'' \<and> d \<noteq> ''..'') \<and> ty = DT_REG \<and> take (length p) d = p)"

lemma session_scan_find:
  "no_nul p \<Longrightarrow> session_scan (p @ r) (length p) ents = Inr (map_option fst (List.find (session_file p) ents))"
  by (induction ents) (auto simp: session_file_def strncmp_eq_cstr)

lemma find_unique:
  assumes "x \<in> set xs" "P x" "\<And>y. y \<in> set xs \<Longrightarrow> P y \<Longrightarrow> y = x"
  shows "List.find P xs = Some x"
proof (cases "List.find P xs")
  case None
  with assms(1,2) show ?thesis by (auto simp: find_None_iff)
next
  case (Some y)
  then have "y \<in> set xs" "P y" by (auto simp: find_Some_iff)
  then show ?thesis using Some assms(3) by simp
qed

section \<open>Sessions\<close>

text \<open>What \<open>file_to_buffer\<close> returns for a regular file.\<close>

definition mk_file_to_buffer_ok :: "(fs \<Rightarrow> string \<Rightarrow> string option) \<Rightarrow> bool" where
  "mk_file_to_buffer_ok to_buffer \<longleftrightarrow>
     (\<forall>fs d b ents c. fs d = Some ents \<and> ents b = Some (Reg c) \<and> CHR ''/'' \<notin> set b \<longrightarrow> to_buffer fs (d @ ''/'' @ b) = Some c)"

text \<open>
  A file name of the store has no slash; a name the client's cookie can be looked up with fits the
  buffer and does not begin with a dot.
\<close>

abbreviation session_base :: "string \<Rightarrow> string \<Rightarrow> int \<Rightarrow> string" where
  "session_base name uuid expires \<equiv> name @ ''.'' @ uuid @ ''.'' @ dec_int expires"

definition session_name_ok :: "string \<Rightarrow> bool" where
  "session_name_ok name \<longleftrightarrow> no_nul name \<and> CHR ''/'' \<notin> set name \<and> name \<noteq> [] \<and> hd name \<noteq> CHR ''.''"

text \<open>The header carries the cookie \<open>DUDA_SESSION=uuid\<close>.\<close>

definition has_session_cookie :: "string \<Rightarrow> cookie_header \<Rightarrow> bool" where
  "has_session_cookie uuid h \<longleftrightarrow>
     (\<exists>pre post r. h = Some (pre @ SESSION_KEY @ ''='' @ uuid @ post @ r, length (pre @ SESSION_KEY @ ''='' @ uuid @ post)) \<and>
        (post = [] \<or> hd post = CHR '';'') \<and> occurs_first (pre @ SESSION_KEY @ ''='' @ uuid @ post @ r) SESSION_KEY (length pre))"

lemma cookie_of_session:
  assumes "mk_search_ok api" "has_session_cookie uuid h" "CHR '';'' \<notin> set uuid"
  shows "\<exists>r. duda_cookie_get api h SESSION_KEY = Inr (Some (uuid @ r, length uuid))"
proof -
  from assms(2) obtain pre post r where
    h: "h = Some (pre @ SESSION_KEY @ ''='' @ uuid @ post @ r, length (pre @ SESSION_KEY @ ''='' @ uuid @ post))" and
    p: "post = [] \<or> hd post = CHR '';''" and o1: "occurs_first (pre @ SESSION_KEY @ ''='' @ uuid @ post @ r) SESSION_KEY (length pre)"
    unfolding has_session_cookie_def by metis
  have "CHR ''='' \<notin> set SESSION_KEY" by (simp add: SESSION_KEY_def)
  from duda_cookie_get_value [OF assms(1) this assms(3) p o1] show ?thesis unfolding h by blast
qed

lemma session_find_eq:
  assumes "mk_search_ok api" "has_session_cookie uuid h" "CHR '';'' \<notin> set uuid" "no_nul name" "no_nul uuid"
    and "length name + length uuid + 2 < 128" "fs st = Some ents"
  shows "session_find api readdir (Some st) fs h name =
    Inr (map_option (\<lambda>d. (st, fst d)) (List.find (session_file (name @ ''.'' @ uuid @ ''.'')) (readdir ents)))"
proof -
  let ?p = "name @ ''.'' @ uuid @ ''.''"
  from cookie_of_session [OF assms(1-3)] obtain r where c: "duda_cookie_get api h SESSION_KEY = Inr (Some (uuid @ r, length uuid))" by blast
  from session_prefix_ok [OF assms(5,6)] obtain z where
    z: "session_prefix name (uuid @ r) (length uuid) = Inr (?p @ z, length name + length uuid + 2)" by metis
  have "no_nul ?p" using assms(4,5) by (auto simp: no_nul_def)
  from session_scan_find [OF this] have "session_scan (?p @ z) (length name + length uuid + 2) (readdir ents) =
    Inr (map_option fst (List.find (session_file ?p) (readdir ents)))" by (simp add: add.commute)
  with c z assms(7) show ?thesis by (simp add: session_find_def option.map_comp comp_def)
qed

text \<open>The only file of the store with the prefix of the session is found.\<close>

lemma session_find_file:
  assumes "mk_search_ok api" "readdir_ok readdir" "has_session_cookie uuid h" "CHR '';'' \<notin> set uuid" "session_name_ok name" "no_nul uuid"
    and "length name + length uuid + 2 < 128" "fs st = Some ents" "finite (dom ents)"
    and "ents (session_base name uuid e) = Some (Reg c)"
    and "\<And>n. ents n \<noteq> None \<Longrightarrow> take (length (name @ ''.'' @ uuid @ ''.'')) n = name @ ''.'' @ uuid @ ''.'' \<Longrightarrow> n = session_base name uuid e"
  shows "session_find api readdir (Some st) fs h name = Inr (Some (st, session_base name uuid e))"
proof -
  let ?p = "name @ ''.'' @ uuid @ ''.''" and ?b = "session_base name uuid e"
  have r: "(n, t) \<in> set (readdir ents) \<longleftrightarrow> (n = ''.'' \<or> n = ''..'') \<and> t = DT_DIR \<or> map_option node_type (ents n) = Some t" for n t
    using assms(2,9) by (simp add: readdir_ok_def)
  have "List.find (session_file ?p) (readdir ents) = Some (?b, DT_REG)"
  proof (rule find_unique)
    show "(?b, DT_REG) \<in> set (readdir ents)" unfolding r using assms(10) by simp
    obtain c0 n0 where "name = c0 # n0" "c0 \<noteq> CHR ''.''" using assms(5) by (cases name) (auto simp: session_name_ok_def)
    then show "session_file ?p (?b, DT_REG)" by (simp add: session_file_def)
  next
    fix y
    assume y: "y \<in> set (readdir ents)" "session_file ?p y"
    obtain n t where nt: "y = (n, t)" by (cases y)
    with y(2) have reg: "t = DT_REG" and pre: "take (length ?p) n = ?p" by (simp_all add: session_file_def)
    with y(1) nt r [of n t] have "ents n \<noteq> None" by auto
    from assms(11) [OF this pre] show "y = (?b, DT_REG)" using nt reg by simp
  qed
  moreover have "no_nul name" using assms(5) by (simp add: session_name_ok_def)
  ultimately show ?thesis
    using session_find_eq [where fs = fs and st = st and ents = ents, OF assms(1,3,4) _ assms(6-8)] by simp
qed

lemma session_base_no_slash:
  "session_name_ok name \<Longrightarrow> CHR ''/'' \<notin> set uuid \<Longrightarrow> CHR ''/'' \<notin> set (session_base name uuid e)"
  by (simp add: session_name_ok_def dec_int_no(2))

lemma session_base_not_special:
  assumes "session_name_ok name"
  shows "session_base name uuid e \<notin> {[], ''.'', ''..''}"
proof -
  obtain c n where "name = c # n" "c \<noteq> CHR ''.''" using assms by (cases name) (auto simp: session_name_ok_def)
  then show ?thesis by simp
qed

lemma session_path_fits:
  assumes "session_name_ok name" "no_nul st" "no_nul uuid" "length (session_path st name uuid e) < 128"
  shows "cstr_text (snprintf SESSION_UUID_SIZE (session_path st name uuid e)) = st @ ''/'' @ session_base name uuid e"
proof -
  have "no_nul (session_path st name uuid e)"
    using assms(1-3) dec_int_no(1) [of e] by (auto simp: session_path_def session_name_ok_def no_nul_def)
  from snprintf_fits [OF this assms(4)] show ?thesis by (simp add: SESSION_UUID_SIZE_def session_path_def)
qed

lemma session_uuid_fits:
  "length (session_path st name (session_uuid rnd ent) e) < 128 \<Longrightarrow>
     cstr_text (snprintf SESSION_UUID_SIZE (session_uuid rnd ent)) = session_uuid rnd ent"
  by (rule snprintf_fits [OF session_uuid_no(1)]) (simp add: session_path_def SESSION_UUID_SIZE_def)

lemma sys_create_file:
  assumes "fs d = Some ents" "CHR ''/'' \<notin> set b" "b \<notin> {[], ''.'', ''..''}" "ents b = None" "may (d @ ''/'' @ b)"
  shows "map_option (sys_write (d @ ''/'' @ b) data) (sys_open_creat may (d @ ''/'' @ b) fs) = Some (fs(d \<mapsto> ents(b \<mapsto> Reg data)))"
  using assms unfolding sys_open_creat_def path_split_slash [OF assms(2)]
  by (simp add: sys_write_def path_split_slash del: append_Cons append_Nil)

lemma duda_session_create_ok:
  fixes rnd ent
  defines "uuid \<equiv> session_uuid rnd ent"
  assumes "mk_iov_appends api txt" "session_name_ok name" "no_nul st" "length (session_path st name uuid e) < 128"
    and "fs st = Some ents" "ents (session_base name uuid e) = None" "may (st @ ''/'' @ session_base name uuid e)"
  shows "\<exists>v. duda_session_create api True rnd ent may (Some (length val)) (Some st) name val e (rows, fs) =
      Inr (0, Some v, fs(st \<mapsto> ents(session_base name uuid e \<mapsto> Reg val))) \<and>
    txt v = (case rows of None \<Rightarrow> [] | Some r \<Rightarrow> txt r) @ ''Set-Cookie: DUDA_SESSION='' @ uuid @ ''; path=/''"
proof -
  let ?b = "session_base name uuid e"
  have u: "cstr_text (snprintf SESSION_UUID_SIZE uuid) = uuid"
    using assms(5) session_uuid_fits [of st name rnd ent e] unfolding uuid_def by simp
  have p: "cstr_text (snprintf SESSION_UUID_SIZE (session_path st name uuid e)) = st @ ''/'' @ ?b"
    using session_path_fits [OF assms(3,4) _ assms(5)] session_uuid_no(1) unfolding uuid_def by blast
  have no: "CHR ''/'' \<notin> set ?b" using session_base_no_slash [OF assms(3)] session_uuid_no(2) unfolding uuid_def by blast
  from sys_create_file [of fs st ents ?b may val, OF assms(6) no session_base_not_special [OF assms(3)] assms(7,8)]
  obtain fs1 where o1: "sys_open_creat may (st @ ''/'' @ ?b) fs = Some fs1" and
    w1: "sys_write (st @ ''/'' @ ?b) val fs1 = fs(st \<mapsto> ents(?b \<mapsto> Reg val))" by blast
  have "take (length uuid) (snprintf SESSION_UUID_SIZE uuid) = uuid"
    using assms(5) by (simp add: snprintf_def SESSION_UUID_SIZE_def session_path_def cstr_def)
  then have c: "duda_cookie_set api ''DUDA_SESSION'' 12 (snprintf SESSION_UUID_SIZE uuid) (length uuid) e rows =
      duda_cookie_set api ''DUDA_SESSION'' (length ''DUDA_SESSION'') uuid (length uuid) e rows"
    by (simp add: duda_cookie_set_def)
  from duda_cookie_set_row [OF assms(2), of "''DUDA_SESSION''" uuid e rows] obtain v where
    v: "duda_cookie_set api ''DUDA_SESSION'' (length ''DUDA_SESSION'') uuid (length uuid) e rows = Inr (0, Some v)" and
    t: "txt v = (case rows of None \<Rightarrow> [] | Some r \<Rightarrow> txt r) @ ''Set-Cookie: '' @ ''DUDA_SESSION'' @ ''='' @ uuid @ ''; path=/''" by blast
  have "duda_session_create api True rnd ent may (Some (length val)) (Some st) name val e (rows, fs) =
      Inr (0, Some v, fs(st \<mapsto> ents(?b \<mapsto> Reg val)))"
    unfolding duda_session_create_def Let_def uuid_def [symmetric] u using p o1 w1 c [unfolded v] by simp
  with t show ?thesis by simp
qed

text \<open>
  What a request with the cookie of a session finds in a store where the session's file is the only
  one with its prefix.
\<close>

lemma duda_session_get_path_file:
  assumes "mk_search_ok api" "readdir_ok readdir" "has_session_cookie uuid h" "CHR '';'' \<notin> set uuid" "session_name_ok name" "no_nul uuid"
    and "no_nul st" "length (session_path st name uuid e) < 128" "fs st = Some ents" "finite (dom ents)"
    and "ents (session_base name uuid e) = Some (Reg c)"
    and "\<And>n. ents n \<noteq> None \<Longrightarrow> take (length (name @ ''.'' @ uuid @ ''.'')) n = name @ ''.'' @ uuid @ ''.'' \<Longrightarrow> n = session_base name uuid e"
  shows "duda_session_get_path api readdir (Some st) fs h name True = Inr (Some (st @ ''/'' @ session_base name uuid e))"
    and "duda_session_isset api readdir (Some st) fs h name = Inr 0"
proof -
  have "length name + length uuid + 2 < 128" using assms(8) by (simp add: session_path_def)
  from session_find_file [where fs = fs and st = st, OF assms(1-6) this assms(9-12)]
  have f: "session_find api readdir (Some st) fs h name = Inr (Some (st, session_base name uuid e))" by blast
  have "st @ ''/'' @ session_base name uuid e = session_path st name uuid e" by (simp add: session_path_def)
  then show "duda_session_get_path api readdir (Some st) fs h name True = Inr (Some (st @ ''/'' @ session_base name uuid e))"
    using f session_path_fits [OF assms(5,7,6,8)] unfolding duda_session_get_path_def by simp
  show "duda_session_isset api readdir (Some st) fs h name = Inr 0" using f by (simp add: duda_session_isset_def)
qed

lemma duda_session_no_file:
  assumes "mk_search_ok api" "readdir_ok readdir" "has_session_cookie uuid h" "CHR '';'' \<notin> set uuid" "no_nul name" "no_nul uuid"
    and "length name + length uuid + 2 < 128" "fs st = Some ents" "finite (dom ents)"
    and "\<And>n. ents n \<noteq> None \<Longrightarrow> take (length (name @ ''.'' @ uuid @ ''.'')) n \<noteq> name @ ''.'' @ uuid @ ''.''"
  shows "duda_session_isset api readdir (Some st) fs h name = Inr (-1)"
proof -
  let ?p = "name @ ''.'' @ uuid @ ''.''"
  have r: "(n, t) \<in> set (readdir ents) \<longleftrightarrow> (n = ''.'' \<or> n = ''..'') \<and> t = DT_DIR \<or> map_option node_type (ents n) = Some t" for n t
    using assms(2,9) by (simp add: readdir_ok_def)
  have "\<not> session_file ?p y" if "y \<in> set (readdir ents)" for y
  proof
    assume f: "session_file ?p y"
    obtain n t where nt: "y = (n, t)" by (cases y)
    with f have reg: "t = DT_REG" and pre: "take (length ?p) n = ?p" by (simp_all add: session_file_def)
    with that nt r [of n t] have "ents n \<noteq> None" by auto
    from assms(10) [OF this] pre show False by contradiction
  qed
  then have "List.find (session_file ?p) (readdir ents) = None" by (auto simp: find_None_iff)
  with session_find_eq [where fs = fs and st = st and ents = ents, OF assms(1,3-8)] show ?thesis
    by (simp add: duda_session_isset_def)
qed

lemma duda_session_destroy_file:
  assumes "mk_iov_appends api txt" "duda_session_get_path api readdir (Some st) fs h name True = Inr (Some (st @ ''/'' @ b))"
    and "fs st = Some ents" "ents b = Some (Reg c)" "CHR ''/'' \<notin> set b" "may (st @ ''/'' @ b)"
  shows "\<exists>r. duda_session_destroy api readdir may (Some st) h name True (rows, fs) = Inr (0, r, fs(st \<mapsto> ents(b := None)))"
proof -
  from duda_cookie_set_row [OF assms(1), of SESSION_KEY COOKIE_DELETED COOKIE_EXPIRE_TIME rows] obtain v where
    "duda_cookie_destroy api SESSION_KEY (length SESSION_KEY) rows = Inr (0, Some v)" unfolding duda_cookie_destroy_def by blast
  moreover have "sys_unlink may (st @ ''/'' @ b) fs = fs(st \<mapsto> ents(b := None))"
    unfolding sys_unlink_def path_split_slash [OF assms(5)] using assms(3,4,6) by simp
  ultimately show ?thesis unfolding duda_session_destroy_def using assms(2) by simp
qed

section \<open>The bound of the buffer\<close>

lemma session_prefix_total:
  assumes "len \<le> length session_val" "length name + len + 2 < 128"
  shows "\<exists>buf. session_prefix name session_val len = Inr (buf, length name + len + 2) \<and> length buf = 128"
proof -
  from strncpy_bytes_length [OF assms(1)] obtain bs where bs: "strncpy_bytes len session_val = Inr bs" "length bs = len" by blast
  let ?b = "take (length name + 1) (prefix_buf name) @ bs @ drop (length name + 1 + len) (prefix_buf name)"
  have "puts (prefix_buf name) (length name + 1) bs = Inr ?b" using puts_ok [of "length name + 1" bs "prefix_buf name"] bs(2) assms(2) by simp
  moreover have "length ?b = 128" using bs(2) assms(2) by simp
  ultimately show ?thesis using bs(1) assms(2) unfolding session_prefix_def prefix_buf_def [symmetric] Let_def by (simp add: wr_def)
qed

lemma strncmp_eq_total: "n \<le> length b \<Longrightarrow> \<exists>r. strncmp_eq (cstr d) b n = Inr r"
proof (induction n arbitrary: b d)
  case (Suc n)
  then obtain y b' where b: "b = y # b'" "n \<le> length b'" by (cases b) auto
  show ?case
  proof (cases d)
    case Nil
    with b show ?thesis by (auto simp: cstr_def)
  next
    case (Cons x d')
    with b Suc.IH [of b' d'] show ?thesis by (auto simp: cstr_def)
  qed
qed auto

lemma session_scan_total: "n \<le> length buf \<Longrightarrow> \<exists>r. session_scan buf n ents = Inr r"
proof (induction ents)
  case (Cons ent ents)
  from strncmp_eq_total [OF Cons.prems, of "fst ent"] obtain r where "strncmp_eq (cstr (fst ent)) buf n = Inr r" by blast
  with Cons show ?case by auto
qed simp

section \<open>Properties\<close>

text \<open>
  C9: a session lives from its creation to its destruction. In a store directory with no file of the
  prefix, \<open>duda_session_create\<close> returns 0 and sends the cookie; every request that brings the cookie
  back reads the stored value, finds the session set, and can destroy it, after which it is not set.
\<close>

theorem duda_session_lifecycle:
  fixes rnd ent
  assumes "mk_iov_appends api txt" "mk_search_ok api" "readdir_ok readdir" "mk_file_to_buffer_ok to_buffer"
    and "session_name_ok name" "no_nul st" "length (session_path st name (session_uuid rnd ent) e) < 128"
    and "fs st = Some ents" "finite (dom ents)"
    and "\<And>n. ents n \<noteq> None \<Longrightarrow> take (length (name @ ''.'' @ session_uuid rnd ent @ ''.'')) n \<noteq> name @ ''.'' @ session_uuid rnd ent @ ''.''"
    and "may (st @ ''/'' @ session_base name (session_uuid rnd ent) e)"
  shows "\<exists>v fs'. duda_session_create api True rnd ent may (Some (length val)) (Some st) name val e (rows, fs) = Inr (0, Some v, fs') \<and>
    txt v = (case rows of None \<Rightarrow> [] | Some r \<Rightarrow> txt r) @ ''Set-Cookie: DUDA_SESSION='' @ session_uuid rnd ent @ ''; path=/'' \<and>
    (\<forall>h. has_session_cookie (session_uuid rnd ent) h \<longrightarrow>
       duda_session_get api readdir to_buffer (Some st) fs' h name True = Inr (Some val) \<and>
       duda_session_isset api readdir (Some st) fs' h name = Inr 0 \<and>
       (\<exists>r fs''. duda_session_destroy api readdir may (Some st) h name True (rows', fs') = Inr (0, r, fs'') \<and>
          duda_session_isset api readdir (Some st) fs'' h name = Inr (-1)))"
proof -
  let ?u = "session_uuid rnd ent"
  let ?b = "session_base name ?u e" and ?p = "name @ ''.'' @ ?u @ ''.''"
  let ?ents = "ents(?b \<mapsto> Reg val)"
  let ?fs = "fs(st \<mapsto> ?ents)"
  note u = session_uuid_no [of rnd ent]
  have "take (length ?p) ?b = ?p" by simp
  then have none: "ents ?b = None" using assms(10) by blast
  from duda_session_create_ok [where fs = fs and st = st and ents = ents and name = name and rnd = rnd and ent = ent and e = e and may = may,
      OF assms(1,5,6,7,8) none assms(11), of val rows] obtain v where
    v: "duda_session_create api True rnd ent may (Some (length val)) (Some st) name val e (rows, fs) = Inr (0, Some v, ?fs)"
      "txt v = (case rows of None \<Rightarrow> [] | Some r \<Rightarrow> txt r) @ ''Set-Cookie: DUDA_SESSION='' @ ?u @ ''; path=/''" by blast
  have ff: "?fs st = Some ?ents" "finite (dom ?ents)" "?ents ?b = Some (Reg val)" using assms(9) by simp_all
  have uniq: "n = ?b" if "?ents n \<noteq> None" "take (length ?p) n = ?p" for n
    using that assms(10) [of n] by (cases "n = ?b") (auto simp del: append_Cons append_assoc)
  have slash: "CHR ''/'' \<notin> set ?b" by (rule session_base_no_slash [OF assms(5) u(2)])
  have "duda_session_get api readdir to_buffer (Some st) ?fs h name True = Inr (Some val) \<and>
      duda_session_isset api readdir (Some st) ?fs h name = Inr 0 \<and>
      (\<exists>r fs''. duda_session_destroy api readdir may (Some st) h name True (rows', ?fs) = Inr (0, r, fs'') \<and>
         duda_session_isset api readdir (Some st) fs'' h name = Inr (-1))" if h: "has_session_cookie ?u h" for h
  proof -
    note g = duda_session_get_path_file [where fs = ?fs and st = st and name = name and uuid = ?u and e = e and ents = ?ents,
        OF assms(2,3) h u(3) assms(5) u(1) assms(6,7) ff uniq]
    have buf: "to_buffer ?fs (st @ ''/'' @ ?b) = Some val"
      using assms(4) ff(1,3) slash unfolding mk_file_to_buffer_ok_def by blast
    have nn: "no_nul name" using assms(5) by (simp add: session_name_ok_def)
    have len: "length name + length ?u + 2 < 128" using assms(7) by (simp add: session_path_def)
    from duda_session_destroy_file [where fs = ?fs and st = st and b = ?b and may = may and rows = rows', OF assms(1) g(1) ff(1,3) slash assms(11)] obtain r where
      d: "duda_session_destroy api readdir may (Some st) h name True (rows', ?fs) = Inr (0, r, ?fs(st \<mapsto> ?ents(?b := None)))" by blast
    have e: "?ents(?b := None) = ents" using none by auto
    have "duda_session_isset api readdir (Some st) (?fs(st \<mapsto> ?ents(?b := None))) h name = Inr (-1)"
      unfolding e by (rule duda_session_no_file [where ents = ents and name = name and uuid = ?u, OF assms(2,3) h u(3) nn u(1) len _ assms(9,10)]) simp_all
    with d g buf show ?thesis by (auto simp: duda_session_get_def)
  qed
  with v show ?thesis by blast
qed

text \<open>Concrete instances of the arguments.\<close>

primrec find_sub :: "string \<Rightarrow> string \<Rightarrow> nat option" where
  "find_sub k [] = (if k = [] then Some 0 else None)"
| "find_sub k (c # t) = (if take (length k) (c # t) = k then Some 0 else map_option Suc (find_sub k t))"

definition ex_cookie_api :: "string mk_cookie_api" where
  "ex_cookie_api = \<lparr>ck_iov_create = Some [],
     ck_iov_add = (\<lambda>v b. case v of None \<Rightarrow> Inl NullDeref | Some t \<Rightarrow> Inr (Some (t @ b))),
     ck_time_to_gmt = (\<lambda>_. Inr 0), ck_str_search = (\<lambda>t k. find_sub k t), ck_str_search_n = (\<lambda>t k n. find_sub k (take (nat n) t))\<rparr>"

definition ex_readdir :: readdir where
  "ex_readdir ents = [(''.'', DT_DIR), (''..'', DT_DIR)] @ map (\<lambda>n. (n, node_type (the (ents n)))) (sorted_list_of_set (dom ents))"

definition ex_to_buffer :: "fs \<Rightarrow> string \<Rightarrow> string option" where
  "ex_to_buffer fs p =
     (case fs (path_dir p) of None \<Rightarrow> None
      | Some ents \<Rightarrow> (case ents (path_base p) of Some (Reg c) \<Rightarrow> Some c | _ \<Rightarrow> None))"

lemma find_sub_first: "occurs_first t k p \<Longrightarrow> find_sub k t = Some p"
proof (induction t arbitrary: p)
  case Nil
  then show ?case by (cases p) (auto simp: occurs_first_def)
next
  case (Cons c t)
  show ?case
  proof (cases p)
    case 0
    with Cons.prems show ?thesis by (simp add: occurs_first_def)
  next
    case (Suc q)
    have "take (length k) (drop 0 (c # t)) \<noteq> k" using Cons.prems Suc unfolding occurs_first_def by blast
    moreover have "take (length k) (drop i t) \<noteq> k" if "i < q" for i
      using Cons.prems Suc that unfolding occurs_first_def by (metis Suc_less_eq drop_Suc_Cons)
    then have "occurs_first t k q" using Cons.prems Suc by (simp add: occurs_first_def)
    ultimately show ?thesis using Cons.IH [of q] Suc by simp
  qed
qed

lemma find_sub_char: "c \<notin> set a \<Longrightarrow> find_sub [c] (a @ c # r) = Some (length a)"
  by (induction a) auto

lemma ex_cookie_api_ok: "mk_iov_appends ex_cookie_api (\<lambda>t. t)" "mk_search_ok ex_cookie_api"
proof -
  show "mk_iov_appends ex_cookie_api (\<lambda>t. t)" by (simp add: mk_iov_appends_def ex_cookie_api_def)
  have "find_sub [c] (take (nat n) (a @ c # r)) = Some (length a)" if "c \<notin> set a" "int (length a) < n" for a c r n
  proof -
    from that(2) obtain m where "nat n = length a + Suc m" by (metis less_imp_Suc_add nat_int of_nat_less_iff zless_nat_eq_int_zless add_Suc_right)
    with that(1) show ?thesis by (simp add: find_sub_char)
  qed
  then show "mk_search_ok ex_cookie_api" by (auto simp: mk_search_ok_def ex_cookie_api_def find_sub_first)
qed

lemma ex_readdir_ok: "readdir_ok ex_readdir"
  unfolding readdir_ok_def ex_readdir_def by (auto simp: image_iff)

lemma ex_to_buffer_ok: "mk_file_to_buffer_ok ex_to_buffer"
  unfolding mk_file_to_buffer_ok_def ex_to_buffer_def by (auto simp del: append_Cons append_Nil simp add: path_split_slash)

theorem duda_session_lifecycle_witness:
  "\<exists>v fs'. duda_session_create ex_cookie_api True (\<lambda>_. 7) (1, 2, 3) (\<lambda>_. True) (Some (length ''me'')) (Some ''/s'') ''user'' ''me'' 0
      (None, [''/s'' \<mapsto> Map.empty]) = Inr (0, Some v, fs') \<and>
    (\<forall>h. has_session_cookie (session_uuid (\<lambda>_. 7) (1, 2, 3)) h \<longrightarrow>
       duda_session_get ex_cookie_api ex_readdir ex_to_buffer (Some ''/s'') fs' h ''user'' True = Inr (Some ''me''))"
proof -
  have nm: "session_name_ok ''user''" and st: "no_nul ''/s''" by (simp_all add: session_name_ok_def)
  have len: "length (session_path ''/s'' ''user'' (session_uuid (\<lambda>_. 7) (1, 2, 3)) 0) < 128"
    by (simp add: session_path_def session_uuid_def rand_seeded_def hex_nat.simps dec_int_def dec_nat.simps)
  have dir: "[''/s'' \<mapsto> Map.empty] ''/s'' = Some Map.empty" and fin: "finite (dom Map.empty)" by simp_all
  from duda_session_lifecycle [where val = "''me''" and rows = None and rows' = None and may = "\<lambda>_. True" and fs = "[''/s'' \<mapsto> Map.empty]"
      and st = "''/s''" and ents = Map.empty, OF ex_cookie_api_ok ex_readdir_ok ex_to_buffer_ok nm st len dir fin _ TrueI]
  show ?thesis by simp blast
qed

text \<open>
  C15: the buffer the file name is composed in has 128 bytes and the cookie's length is not checked:
  once the store opens, the lookup of a session writes outside the buffer exactly when the name and
  the cookie the client sent have together 126 bytes or more.
\<close>

theorem duda_session_get_path_overflow:
  assumes "duda_cookie_get api h SESSION_KEY = Inr (Some (v, len))" "len \<le> length v" "fs st = Some ents"
  shows "duda_session_get_path api readdir (Some st) fs h name True = Inl OutOfBounds \<longleftrightarrow> 126 \<le> length name + len"
proof (cases "126 \<le> length name + len")
  case True
  then have "session_prefix name v len = Inl OutOfBounds" using assms(2) by (intro session_prefix_fault) simp_all
  with True assms(1,3) show ?thesis by (simp add: duda_session_get_path_def session_find_def)
next
  case False
  then have "length name + len + 2 < 128" by simp
  from session_prefix_total [OF assms(2) this] obtain buf where
    p: "session_prefix name v len = Inr (buf, length name + len + 2)" "length buf = 128" by blast
  from session_scan_total [of "length name + len + 2" buf "readdir ents"] False p(2) obtain r where
    "session_scan buf (length name + len + 2) (readdir ents) = Inr r" by auto
  with p False assms(1,3) show ?thesis by (cases r) (simp_all add: duda_session_get_path_def session_find_def)
qed

theorem duda_session_get_path_overflow_witness:
  "duda_session_get_path ex_cookie_api ex_readdir (Some ''/s'') [''/s'' \<mapsto> Map.empty]
      (Some (''DUDA_SESSION='' @ replicate 126 (CHR ''x''), 139)) ''user'' True = Inl OutOfBounds"
proof -
  have "occurs_first ([] @ SESSION_KEY @ ''='' @ replicate 126 (CHR ''x'') @ [] @ []) SESSION_KEY (length [])"
    by (simp add: occurs_first_def SESSION_KEY_def)
  from duda_cookie_get_value [OF ex_cookie_api_ok(2) _ _ _ this]
  have "duda_cookie_get ex_cookie_api (Some (''DUDA_SESSION='' @ replicate 126 (CHR ''x''), 139)) SESSION_KEY =
      Inr (Some (replicate 126 (CHR ''x''), 126))" by (simp add: SESSION_KEY_def)
  from duda_session_get_path_overflow [where st = "''/s''" and fs = "[''/s'' \<mapsto> Map.empty]" and ents = Map.empty, OF this]
  show ?thesis by simp
qed

text \<open>Both halves of an identifier are the same when the clock does not advance between the calls.\<close>

lemma session_uuid_same_usec: "\<exists>x. session_uuid rnd (usec, usec, e) = x @ ''-'' @ x"
  unfolding session_uuid_def by auto

text \<open>The store that \<open>duda_session_init\<close> leaves after a success is the one it built.\<close>

lemma duda_session_init_store:
  "duda_session_init info build may nm fs = (0, store, fs') \<Longrightarrow>
     store = build (if info fs (Some ''/dev/shm'') then Some SESSION_STORE_PATH_DEV
       else if info fs (Some ''/run/shm'') then Some SESSION_STORE_PATH_RUN else None) nm"
  by (auto simp: duda_session_init_def Let_def split: prod.splits if_splits)

end
