(* ===== verification/Duda_Sha1.thy ===== *)
theory Duda_Sha1
  imports Duda_Hash
begin

text \<open>
  \<open>packages/sha1/sha1.c\<close>, on 32-bit words. The rotations are those of the portable macros; the
  schedule lives in an array of 16 words that is overwritten in a circle. The reference is SHA-1
  of FIPS 180 with a schedule of 80 words.
\<close>

unbundle bit_operations_syntax

section \<open>Macros\<close>

definition SHA_ROT :: "u32 \<Rightarrow> nat \<Rightarrow> nat \<Rightarrow> u32" where "SHA_ROT x l r = push_bit l x OR drop_bit r x"
definition SHA_ROL :: "u32 \<Rightarrow> nat \<Rightarrow> u32" where "SHA_ROL x n = SHA_ROT x n (32 - n)"
definition SHA_ROR :: "u32 \<Rightarrow> nat \<Rightarrow> u32" where "SHA_ROR x n = SHA_ROT x (32 - n) n"

definition get_be32 :: "byte list \<Rightarrow> nat \<Rightarrow> u32" where
  "get_be32 p i = push_bit 24 (ucast (p ! i)) OR push_bit 16 (ucast (p ! (i + 1))) OR
     push_bit 8 (ucast (p ! (i + 2))) OR ucast (p ! (i + 3))"

text \<open>
  The array: entry \<open>t\<close> is written in round \<open>t\<close> before any later round reads it, so the array is the
  list of the entries written so far.
\<close>

definition W_at :: "u32 list \<Rightarrow> nat \<Rightarrow> u32" where
  "W_at arr x = arr ! (x mod 16)"

definition setW :: "nat \<Rightarrow> u32 \<Rightarrow> u32 list \<Rightarrow> u32 list" where
  "setW t x arr = (if t < 16 then arr @ [x] else arr[t mod 16 := x])"

definition SHA_SRC :: "byte list \<Rightarrow> nat \<Rightarrow> u32" where
  "SHA_SRC data t = get_be32 data (4 * t)"

definition SHA_MIX :: "u32 list \<Rightarrow> nat \<Rightarrow> u32" where
  "SHA_MIX arr t = SHA_ROL (W_at arr (t + 13) XOR W_at arr (t + 8) XOR W_at arr (t + 2) XOR W_at arr t) 1"

text \<open>The function and the constant of the five round macros.\<close>

definition sha1_fn :: "nat \<Rightarrow> u32 \<Rightarrow> u32 \<Rightarrow> u32 \<Rightarrow> u32" where
  "sha1_fn t B C D =
     (if t < 20 then ((C XOR D) AND B) XOR D
      else if t < 40 then B XOR C XOR D
      else if t < 60 then (B AND C) + (D AND (B XOR C))
      else B XOR C XOR D)"

definition sha1_constant :: "nat \<Rightarrow> u32" where
  "sha1_constant t = (if t < 20 then 0x5a827999 else if t < 40 then 0x6ed9eba1 else if t < 60 then 0x8f1bbcdc else 0xca62c1d6)"

text \<open>
  \<open>SHA_ROUND\<close> on the registers \<open>A\<close> to \<open>E\<close> (0 to 4); the first argument lists the registers that stand
  for the macro's arguments.
\<close>

definition SHA_ROUND :: "nat list \<Rightarrow> byte list \<Rightarrow> nat \<Rightarrow> u32 list \<times> u32 list \<Rightarrow> u32 list \<times> u32 list" where
  "SHA_ROUND r data t = (\<lambda>(reg, arr).
     let A = reg ! (r ! 0); B = reg ! (r ! 1); C = reg ! (r ! 2); D = reg ! (r ! 3); E = reg ! (r ! 4);
         TEMP = (if t < 16 then SHA_SRC data t else SHA_MIX arr t)
     in (reg[r ! 4 := E + (TEMP + SHA_ROL A 5 + sha1_fn t B C D + sha1_constant t), r ! 1 := SHA_ROR B 2], setW t TEMP arr))"

definition sha1_regs :: "nat list list" where
  "sha1_regs = [[0, 1, 2, 3, 4], [4, 0, 1, 2, 3], [3, 4, 0, 1, 2], [2, 3, 4, 0, 1], [1, 2, 3, 4, 0]]"

definition blk_SHA1_Block :: "u32 list \<Rightarrow> byte list \<Rightarrow> u32 list" where
  "blk_SHA1_Block H data =
     (let (reg, _) = fold (\<lambda>t. SHA_ROUND (sha1_regs ! (t mod 5)) data t) [0..<80] (H, [])
      in map2 (+) H reg)"

section \<open>The context\<close>

text \<open>The field \<open>W\<close>, an array of 16 words, is used as a buffer of 64 bytes.\<close>

record blk_SHA_CTX =
  s1_size :: "64 word"
  s1_H :: "u32 list"
  s1_W :: "byte list"

definition blk_SHA1_Init :: "byte list \<Rightarrow> blk_SHA_CTX" where
  "blk_SHA1_Init g = \<lparr>s1_size = 0, s1_H = [0x67452301, 0xefcdab89, 0x98badcfe, 0x10325476, 0xc3d2e1f0], s1_W = g\<rparr>"

definition sha1_process :: "blk_SHA_CTX \<Rightarrow> byte list \<Rightarrow> blk_SHA_CTX" where
  "sha1_process ctx data = ctx\<lparr>s1_H := blk_SHA1_Block (s1_H ctx) data\<rparr>"

text \<open>From the loop on.\<close>

definition sha1_update_blocks :: "blk_SHA_CTX \<Rightarrow> byte list \<Rightarrow> blk_SHA_CTX run" where
  "sha1_update_blocks ctx data = (case absorb_blocks sha1_process ctx data of (ctx1, rest) \<Rightarrow>
     if rest \<noteq> [] then run_bind (puts (s1_W ctx1) 0 rest) (\<lambda>W. Inr (ctx1\<lparr>s1_W := W\<rparr>)) else Inr ctx1)"

definition blk_SHA1_Update :: "blk_SHA_CTX \<Rightarrow> byte list \<Rightarrow> blk_SHA_CTX run" where
  "blk_SHA1_Update ctx data =
     (let lenW = unat (s1_size ctx AND 63);
          ctx1 = ctx\<lparr>s1_size := s1_size ctx + of_nat (length data)\<rparr>
      in if lenW \<noteq> 0 then
           (let left = (if length data < 64 - lenW then length data else 64 - lenW)
            in run_bind (puts (s1_W ctx1) lenW (take left data)) (\<lambda>W.
                 let ctx2 = ctx1\<lparr>s1_W := W\<rparr>
                 in if (lenW + left) mod 64 \<noteq> 0 then Inr ctx2
                    else sha1_update_blocks (sha1_process ctx2 W) (drop left data)))
         else sha1_update_blocks ctx1 data)"

text \<open>\<open>63 & (55 - i)\<close> on a signed \<open>int\<close> is the remainder modulo 64.\<close>

definition blk_SHA1_Final :: "blk_SHA_CTX \<Rightarrow> byte list run" where
  "blk_SHA1_Final ctx =
     (let padlen = be32 (drop_bit 29 (s1_size ctx)) @ be32 (push_bit 3 (s1_size ctx));
          i = int (unat (s1_size ctx AND 63));
          pad = 0x80 # replicate 63 0
      in run_bind (blk_SHA1_Update ctx (take (nat (1 + (55 - i) mod 64)) pad)) (\<lambda>ctx.
         run_bind (blk_SHA1_Update ctx padlen) (\<lambda>ctx. Inr (concat (map be32 (s1_H ctx))))))"

definition sha1_encode :: "byte list \<Rightarrow> byte list \<Rightarrow> byte list run" where
  "sha1_encode g data_in = run_bind (blk_SHA1_Update (blk_SHA1_Init g) data_in) (\<lambda>sha. blk_SHA1_Final sha)"

section \<open>Reference: SHA-1\<close>

definition Parity :: "u32 \<Rightarrow> u32 \<Rightarrow> u32 \<Rightarrow> u32" where "Parity x y z = x XOR y XOR z"

definition ref_f :: "nat \<Rightarrow> u32 \<Rightarrow> u32 \<Rightarrow> u32 \<Rightarrow> u32" where
  "ref_f t = (if t < 20 then Ch else if t < 40 then Parity else if t < 60 then Maj else Parity)"

fun ref1_round :: "nat \<Rightarrow> u32 \<Rightarrow> u32 list \<Rightarrow> u32 list" where
  "ref1_round t w [a, b, c, d, e] =
     [word_rotl 5 a + ref_f t b c d + e + sha1_constant t + w, a, word_rotl 30 b, c, d]"
| "ref1_round _ _ st = st"

definition ref1_extend :: "nat \<Rightarrow> u32 list \<Rightarrow> u32 list" where
  "ref1_extend t W = W @ [word_rotl 1 (W ! (t - 3) XOR W ! (t - 8) XOR W ! (t - 14) XOR W ! (t - 16))]"

definition ref1_schedule :: "byte list \<Rightarrow> u32 list" where
  "ref1_schedule data = fold ref1_extend [16..<80] (map (\<lambda>i. be_word data (4 * i)) [0..<16])"

definition ref1_compress :: "u32 list \<Rightarrow> byte list \<Rightarrow> u32 list" where
  "ref1_compress st data = map2 (+) st (fold (\<lambda>t. ref1_round t (ref1_schedule data ! t)) [0..<80] st)"

definition sha1_iv :: "u32 list" where
  "sha1_iv = [0x67452301, 0xefcdab89, 0x98badcfe, 0x10325476, 0xc3d2e1f0]"

definition sha1_ref :: "byte list \<Rightarrow> byte list" where
  "sha1_ref m = concat (map be32 (fst (absorb_blocks ref1_compress sha1_iv (md_pad m))))"

section \<open>Macros and reference\<close>

lemma SHA_ROL_rotl: "0 < n \<Longrightarrow> n < 32 \<Longrightarrow> SHA_ROL x n = word_rotl n x"
proof (rule bit_word_eqI)
  fix i
  assume n: "0 < n" "n < 32" and "i < LENGTH(32)"
  then have i: "i < 32" by simp
  have m: "(i + (32 - n)) mod 32 = (if i < n then 32 - n + i else i - n)"
  proof (cases "i < n")
    case False
    then have "i + (32 - n) = 32 + (i - n)" using n by simp
    moreover have "(32 + (i - n)) mod 32 = i - n" using i by simp
    ultimately show ?thesis using False by simp
  qed (use n i in simp)
  have "bit (word_rotl n x) i \<longleftrightarrow> bit x ((i + (32 - n)) mod 32)" using n i by (simp add: bit_word_rotl_iff)
  moreover have "bit (SHA_ROL x n) i \<longleftrightarrow> (n \<le> i \<and> bit x (i - n)) \<or> bit x (32 - n + i)"
    using n i by (auto simp: SHA_ROL_def SHA_ROT_def bit_or_iff bit_push_bit_iff bit_drop_bit_eq)
  moreover have "\<not> bit x (32 - n + i)" if "n \<le> i"
    by (rule impossible_bit) (use that n in simp)
  ultimately show "bit (SHA_ROL x n) i \<longleftrightarrow> bit (word_rotl n x) i" unfolding m by auto
qed

lemma SHA_ROR_rotl: "SHA_ROR x 2 = word_rotl 30 x"
  using SHA_ROL_rotl [of 30 x] by (simp add: SHA_ROR_def SHA_ROL_def)

lemma sha1_fn_ref: "sha1_fn t B C D = ref_f t B C D"
proof -
  have "((C XOR D) AND B) XOR D = Ch B C D" by (rule bit_word_eqI) (auto simp: Ch_def bit_simps)
  moreover have "(B AND C) + (D AND (B XOR C)) = (B AND C) OR (D AND (B XOR C))"
    by (rule disjunctive_add) (auto simp: bit_simps)
  moreover have "(B AND C) OR (D AND (B XOR C)) = Maj B C D" by (rule bit_word_eqI) (auto simp: Maj_def bit_simps)
  ultimately show ?thesis by (simp add: sha1_fn_def ref_f_def Parity_def)
qed

lemma SHA_SRC_be_word: "SHA_SRC data t = be_word data (4 * t)"
proof -
  have "unat (SHA_SRC data t) = unat (data ! (4 * t)) * 256 ^ 3 + unat (data ! (4 * t + 1)) * 256 ^ 2 + unat (data ! (4 * t + 2)) * 256 + unat (data ! (4 * t + 3))"
    unfolding SHA_SRC_def get_be32_def by (rule unat_shift_or) simp
  then have "(of_nat (unat (SHA_SRC data t)) :: u32) = be_word data (4 * t)" unfolding be_word_def by (rule arg_cong)
  then show ?thesis by simp
qed


section \<open>The schedule\<close>

lemma ref1_extend_prefix: "\<exists>ys. length ys = length ts \<and> fold ref1_extend ts W = W @ ys"
proof (induction ts arbitrary: W)
  case (Cons t ts)
  obtain ys where ys: "length ys = length ts" "fold ref1_extend ts (ref1_extend t W) = ref1_extend t W @ ys" using Cons by blast
  obtain w where "ref1_extend t W = W @ [w]" by (simp add: ref1_extend_def)
  with ys show ?case by simp
qed simp

lemma ref1_schedule_src: "t < 16 \<Longrightarrow> ref1_schedule data ! t = be_word data (4 * t)"
proof -
  assume t: "t < 16"
  obtain ys where "ref1_schedule data = map (\<lambda>i. be_word data (4 * i)) [0..<16] @ ys"
    unfolding ref1_schedule_def using ref1_extend_prefix by blast
  moreover have "map (\<lambda>i. be_word data (4 * i)) [0..<16] ! t = be_word data (4 * t)" "length (map (\<lambda>i. be_word data (4 * i)) [0..<16]) = 16"
    using t by (simp_all only: nth_map length_upt length_map nth_upt) simp
  ultimately show ?thesis using t by (simp only: nth_append if_True)
qed

lemma ref1_schedule_mix:
  assumes "16 \<le> t" "t < 80"
  shows "ref1_schedule data ! t = word_rotl 1 (ref1_schedule data ! (t - 3) XOR ref1_schedule data ! (t - 8) XOR
    ref1_schedule data ! (t - 14) XOR ref1_schedule data ! (t - 16))"
proof -
  define W where "W = fold ref1_extend [16..<t] (map (\<lambda>i. be_word data (4 * i)) [0..<16])"
  obtain zs where "length zs = length [16..<t]" "W = map (\<lambda>i. be_word data (4 * i)) [0..<16] @ zs"
    unfolding W_def using ref1_extend_prefix by blast
  then have len: "length W = t" using assms(1) by (simp only: length_append length_map length_upt)
  have upt: "[16..<80] = [16..<t] @ t # [Suc t..<80]"
    using upt_add_eq_append [of 16 t "80 - t"] assms upt_conv_Cons [of t 80] by simp
  obtain ys where full: "ref1_schedule data = ref1_extend t W @ ys"
    unfolding ref1_schedule_def upt fold_append comp_def fold.simps W_def [symmetric] using ref1_extend_prefix by blast
  define w where "w = word_rotl 1 (W ! (t - 3) XOR W ! (t - 8) XOR W ! (t - 14) XOR W ! (t - 16))"
  have full': "ref1_schedule data = W @ w # ys" unfolding full ref1_extend_def w_def by simp
  have nth: "ref1_schedule data ! j = W ! j" if "j < t" for j unfolding full' using that len by (simp add: nth_append)
  have "ref1_schedule data ! t = w" unfolding full' using len nth_append_length [of W w ys] by simp
  with assms nth show ?thesis by (simp add: w_def)
qed

section \<open>The compression function computes the reference\<close>

definition round1_rel :: "byte list \<Rightarrow> nat \<Rightarrow> u32 list \<times> u32 list \<Rightarrow> u32 list \<Rightarrow> bool" where
  "round1_rel data t ra s \<longleftrightarrow> (case ra of (reg, arr) \<Rightarrow>
     length reg = 5 \<and> length arr = min 16 t \<and>
     (\<forall>j < t. t \<le> j + 16 \<longrightarrow> arr ! (j mod 16) = ref1_schedule data ! j) \<and>
     s = map (\<lambda>i. reg ! i) (sha1_regs ! (t mod 5)))"

lemma sha1_regs_next:
  assumes "r = sha1_regs ! (t mod 5)"
  shows "\<exists>r0 r1 r2 r3 r4. r = [r0, r1, r2, r3, r4] \<and> distinct r \<and> set r = {0..<5} \<and> sha1_regs ! (Suc t mod 5) = [r4, r0, r1, r2, r3]"
proof -
  have "t mod 5 < 5" by simp
  then consider "t mod 5 = 0" | "t mod 5 = 1" | "t mod 5 = 2" | "t mod 5 = 3" | "t mod 5 = 4" by linarith
  then show ?thesis using assms by cases (auto simp: sha1_regs_def mod_Suc)
qed

lemma SHA_ROUND_input:
  assumes "length arr = min 16 t" "\<forall>j < t. t \<le> j + 16 \<longrightarrow> arr ! (j mod 16) = ref1_schedule data ! j" "t < 80"
  shows "(if t < 16 then SHA_SRC data t else SHA_MIX arr t) = ref1_schedule data ! t"
proof (cases "t < 16")
  case False
  have W: "W_at arr (t - k + 16) = ref1_schedule data ! (t - k)" if "0 < k" "k \<le> 16" for k
  proof -
    have "t - k < t" "t \<le> t - k + 16" using that False by simp_all
    with assms(2) show ?thesis by (simp add: W_at_def)
  qed
  have "t - 3 + 16 = t + 13" "t - 8 + 16 = t + 8" "t - 14 + 16 = t + 2" "t - 16 + 16 = t" using False by simp_all
  note eqs = this
  have "W_at arr (t + 13) = ref1_schedule data ! (t - 3)" "W_at arr (t + 8) = ref1_schedule data ! (t - 8)"
    "W_at arr (t + 2) = ref1_schedule data ! (t - 14)" "W_at arr t = ref1_schedule data ! (t - 16)"
    using W [of 3] W [of 8] W [of 14] W [of 16] unfolding eqs by simp_all
  note W' = this
  have "SHA_MIX arr t = SHA_ROL (ref1_schedule data ! (t - 3) XOR ref1_schedule data ! (t - 8) XOR ref1_schedule data ! (t - 14) XOR ref1_schedule data ! (t - 16)) 1"
    unfolding SHA_MIX_def W' ..
  with False assms(3) show ?thesis by (simp add: SHA_ROL_rotl ref1_schedule_mix)
qed (simp add: SHA_SRC_be_word ref1_schedule_src)

lemma setW_keeps:
  assumes "length arr = min 16 t" "\<forall>j < t. t \<le> j + 16 \<longrightarrow> arr ! (j mod 16) = S j"
  shows "length (setW t (S t) arr) = min 16 (Suc t)" "j < Suc t \<Longrightarrow> Suc t \<le> j + 16 \<Longrightarrow> setW t (S t) arr ! (j mod 16) = S j"
proof -
  show "length (setW t (S t) arr) = min 16 (Suc t)" using assms(1) by (simp add: setW_def)
  assume j: "j < Suc t" "Suc t \<le> j + 16"
  show "setW t (S t) arr ! (j mod 16) = S j"
  proof (cases "j = t")
    case True
    with assms(1) show ?thesis by (simp add: setW_def nth_append)
  next
    case False
    then have old: "arr ! (j mod 16) = S j" using j assms(2) by simp
    have "j mod 16 \<noteq> t mod 16"
    proof
      assume "j mod 16 = t mod 16"
      then have "16 dvd t - j" using j(1) mod_eq_dvd_iff_nat [of j t 16] by simp
      then show False using False j by (auto dest: dvd_imp_le)
    qed
    with old False j assms(1) show ?thesis by (auto simp: setW_def nth_append)
  qed
qed

lemma round1_step:
  assumes "round1_rel data t ra s" "t < 80"
  shows "round1_rel data (Suc t) (SHA_ROUND (sha1_regs ! (t mod 5)) data t ra) (ref1_round t (ref1_schedule data ! t) s)"
proof -
  obtain reg arr where ra: "ra = (reg, arr)" by fastforce
  define r where "r = sha1_regs ! (t mod 5)"
  obtain r0 r1 r2 r3 r4 where r: "r = [r0, r1, r2, r3, r4]" "distinct r" "set r = {0..<5}" "sha1_regs ! (Suc t mod 5) = [r4, r0, r1, r2, r3]"
    using sha1_regs_next [OF r_def] by blast
  have rel: "length reg = 5" "length arr = min 16 t" "\<forall>j < t. t \<le> j + 16 \<longrightarrow> arr ! (j mod 16) = ref1_schedule data ! j"
      "s = map (\<lambda>i. reg ! i) r"
    using assms(1) by (simp_all add: round1_rel_def ra r_def)
  define w where "w = ref1_schedule data ! t"
  have w: "(if t < 16 then SHA_SRC data t else SHA_MIX arr t) = w" unfolding w_def by (rule SHA_ROUND_input [OF rel(2,3) assms(2)])
  have "r1 < 5" "r4 < 5" "r0 \<noteq> r1" "r0 \<noteq> r4" "r1 \<noteq> r4" "r4 \<noteq> r1" "r2 \<noteq> r1" "r2 \<noteq> r4" "r3 \<noteq> r1" "r3 \<noteq> r4" using r(1-3) by auto
  then have "map (\<lambda>i. fst (SHA_ROUND r data t ra) ! i) [r4, r0, r1, r2, r3] = ref1_round t w s"
    using rel(1) unfolding ra rel(4) SHA_ROUND_def prod.case w Let_def r(1)
    by (simp add: SHA_ROL_rotl SHA_ROR_rotl sha1_fn_ref add.commute add.left_commute)
  moreover have "snd (SHA_ROUND r data t ra) = setW t w arr" "length (fst (SHA_ROUND r data t ra)) = 5"
    using rel(1) unfolding ra SHA_ROUND_def prod.case w Let_def by simp_all
  ultimately show ?thesis
    using setW_keeps [OF rel(2,3)] unfolding round1_rel_def r_def [symmetric] r(4) w_def by (auto simp: case_prod_beta)
qed


lemma sha1_rounds:
  assumes "length H = 5" "t \<le> 80"
  shows "round1_rel data t (fold (\<lambda>t. SHA_ROUND (sha1_regs ! (t mod 5)) data t) [0..<t] (H, []))
    (fold (\<lambda>t. ref1_round t (ref1_schedule data ! t)) [0..<t] H)"
  using assms(2)
proof (induction t)
  case 0
  obtain a b c d e where "H = [a, b, c, d, e]" using assms(1) by (auto simp: length_Suc_conv eval_nat_numeral)
  then show ?case by (simp add: round1_rel_def sha1_regs_def)
next
  case (Suc t)
  then show ?case using round1_step [of data t] by (simp del: upt_rec_numeral)
qed

lemma blk_SHA1_Block_ref:
  assumes "length H = 5"
  shows "blk_SHA1_Block H data = ref1_compress H data" "length (blk_SHA1_Block H data) = 5"
proof -
  let ?s = "fold (\<lambda>t. ref1_round t (ref1_schedule data ! t)) [0..<80] H"
  obtain reg arr where ra: "fold (\<lambda>t. SHA_ROUND (sha1_regs ! (t mod 5)) data t) [0..<80] (H, []) = (reg, arr)" by fastforce
  have "round1_rel data 80 (reg, arr) ?s" using sha1_rounds [OF assms, of 80 data] unfolding ra by simp
  moreover have "(80 :: nat) mod 5 = 0" by simp
  ultimately have reg: "length reg = 5" "?s = map (\<lambda>i. reg ! i) (sha1_regs ! 0)" by (simp_all only: round1_rel_def prod.case)
  obtain a b c d e where "reg = [a, b, c, d, e]" using reg(1) by (auto simp: length_Suc_conv eval_nat_numeral)
  then have s: "?s = reg" using reg(2) by (simp add: sha1_regs_def)
  have block: "blk_SHA1_Block H data = map2 (+) H reg" by (simp only: blk_SHA1_Block_def Let_def ra prod.case)
  then show "blk_SHA1_Block H data = ref1_compress H data" by (simp only: ref1_compress_def s)
  show "length (blk_SHA1_Block H data) = 5" unfolding block using assms reg(1) by simp
qed

section \<open>Updating a context\<close>

definition sha1_valid :: "blk_SHA_CTX \<Rightarrow> bool" where
  "sha1_valid c \<longleftrightarrow> length (s1_H c) = 5 \<and> length (s1_W c) = 64"

abbreviation sha1_total :: "blk_SHA_CTX \<Rightarrow> nat" where
  "sha1_total c \<equiv> unat (s1_size c)"

lemma sha1_left: "unat (s1_size c AND 63) = sha1_total c mod 64"
proof -
  have "s1_size c AND 63 = take_bit 6 (s1_size c)" by (simp add: take_bit_eq_mask mask_eq_exp_minus_1)
  then show ?thesis using unat_take [of 6 "s1_size c"] by simp
qed

lemma sha1_absorb:
  fixes d :: "byte list"
  assumes "length (s1_H c) = 5"
  defines "r \<equiv> absorb_blocks sha1_process c d"
  shows "absorb_blocks ref1_compress (s1_H c) d = (s1_H (fst r), snd r)" "length (s1_H (fst r)) = 5"
    "s1_W (fst r) = s1_W c" "s1_size (fst r) = s1_size c"
proof -
  let ?R = "\<lambda>x. length (s1_H x) = 5 \<and> s1_W x = s1_W c \<and> s1_size x = s1_size c"
  have step: "?R (sha1_process s b) \<and> s1_H (sha1_process s b) = ref1_compress (s1_H s) b" if "?R s" for s b
    using that blk_SHA1_Block_ref [of "s1_H s" b] by (simp add: sha1_process_def)
  have "absorb_blocks ref1_compress (s1_H c) d = (s1_H (fst r), snd r) \<and> ?R (fst r)"
    unfolding r_def by (rule absorb_simulates [where R = ?R]) (erule step, use assms(1) in simp)
  then show "absorb_blocks ref1_compress (s1_H c) d = (s1_H (fst r), snd r)" "length (s1_H (fst r)) = 5"
    "s1_W (fst r) = s1_W c" "s1_size (fst r) = s1_size c" by simp_all
qed

lemma sha1_update_blocks_ok:
  assumes "length (s1_H c) = 5" "length (s1_W c) = 64"
  shows "\<exists>c'. sha1_update_blocks c d = Inr c' \<and> sha1_valid c' \<and> s1_size c' = s1_size c \<and>
    (s1_H c', take (length d mod 64) (s1_W c')) = absorb_blocks ref1_compress (s1_H c) d"
proof -
  obtain c3 rest where r: "absorb_blocks sha1_process c d = (c3, rest)" by fastforce
  note ab = sha1_absorb [OF assms(1), of d, unfolded r fst_conv snd_conv]
  have rest: "length rest = length d mod 64" using absorb_rest_length [of sha1_process c d] r by simp
  then have "length rest < 64" by simp
  then have "\<exists>c'. sha1_update_blocks c d = Inr c' \<and> sha1_valid c' \<and> s1_size c' = s1_size c3 \<and> s1_H c' = s1_H c3 \<and>
      take (length rest) (s1_W c') = rest"
    using ab(2,3) assms(2) by (cases "rest = []") (simp_all add: sha1_update_blocks_def r puts_ok sha1_valid_def)
  then show ?thesis using ab(1,4) unfolding rest by auto
qed

lemma sha1_update_law:
  assumes "sha1_valid c" "sha1_total c + length d < 2 ^ 61"
  shows "\<exists>c'. blk_SHA1_Update c d = Inr c' \<and> sha1_valid c' \<and> sha1_total c' = sha1_total c + length d \<and>
    (s1_H c', take (sha1_total c' mod 64) (s1_W c')) = absorb_blocks ref1_compress (s1_H c) (take (sha1_total c mod 64) (s1_W c) @ d)"
proof -
  let ?l = "sha1_total c mod 64"
  let ?p = "take ?l (s1_W c)"
  have v: "length (s1_H c) = 5" "length (s1_W c) = 64" using assms(1) by (simp_all add: sha1_valid_def)
  define c1 where "c1 = c\<lparr>s1_size := s1_size c + of_nat (length d)\<rparr>"
  have "length d < 2 ^ 64" using assms(2) by simp
  then have "unat (of_nat (length d) :: 64 word) = length d" by (simp add: unsigned_of_nat take_bit_nat_eq_self)
  then have sz: "sha1_total c1 = sha1_total c + length d"
    using assms(2) by (simp add: c1_def unat_word_ariths)
  have c1: "s1_H c1 = s1_H c" "s1_W c1 = s1_W c" by (simp_all add: c1_def)
  have upd: "blk_SHA1_Update c d = (if ?l \<noteq> 0 then
      (let left = (if length d < 64 - ?l then length d else 64 - ?l)
       in run_bind (puts (s1_W c) ?l (take left d)) (\<lambda>W.
            if (?l + left) mod 64 \<noteq> 0 then Inr (c1\<lparr>s1_W := W\<rparr>)
            else sha1_update_blocks (sha1_process (c1\<lparr>s1_W := W\<rparr>) W) (drop left d)))
      else sha1_update_blocks c1 d)"
    unfolding blk_SHA1_Update_def sha1_left Let_def c1_def [symmetric] c1(2) ..
  have l: "?l < 64" by simp
  consider "?l = 0" | "?l \<noteq> 0" "length d < 64 - ?l" | "?l \<noteq> 0" "64 - ?l \<le> length d" by linarith
  then show ?thesis
  proof cases
    case 1
    then have "(sha1_total c + length d) mod 64 = length d mod 64" using mod_add_left_eq [of "sha1_total c" 64 "length d"] by simp
    with 1 sha1_update_blocks_ok [of c1 d] show ?thesis unfolding upd using c1 v sz by auto
  next
    case 2
    have small: "?l + length d < 64" using 2 l by linarith
    then have m: "(sha1_total c + length d) mod 64 = ?l + length d" "(?l + length d) mod 64 \<noteq> 0"
      using mod_add_left_eq [of "sha1_total c" 64 "length d"] 2(1) by simp_all
    have "puts (s1_W c) ?l d = Inr (?p @ d @ drop (?l + length d) (s1_W c))" using small v(2) by (simp add: puts_ok)
    then have "blk_SHA1_Update c d = Inr (c1\<lparr>s1_W := ?p @ d @ drop (?l + length d) (s1_W c)\<rparr>)"
      unfolding upd using 2 m(2) by (simp add: Let_def)
    moreover have "length (?p @ d) < 64" "length ?p = ?l" using small v(2) l by simp_all
    ultimately show ?thesis using c1 v sz m(1) small by (simp add: sha1_valid_def)
  next
    case 3
    let ?f = "64 - ?l"
    define W where "W = ?p @ take ?f d"
    have "length ?p = ?l" "length (take ?f d) = ?f" using v(2) 3(2) l by simp_all
    then have W: "length W = 64" "puts (s1_W c) ?l (take ?f d) = Inr W"
      using v(2) puts_ok [of ?l "take ?f d" "s1_W c"] l by (simp_all add: W_def)
    have u: "blk_SHA1_Update c d = sha1_update_blocks (sha1_process (c1\<lparr>s1_W := W\<rparr>) W) (drop ?f d)"
      unfolding upd using 3 W(2) l by (simp add: Let_def)
    have pd: "absorb_blocks ref1_compress (s1_H c) (?p @ d) = absorb_blocks ref1_compress (blk_SHA1_Block (s1_H c) W) (drop ?f d)"
      using absorb_block [OF W(1), of ref1_compress "s1_H c" "drop ?f d"] blk_SHA1_Block_ref [OF v(1)] by (simp add: W_def)
    have fill: "(sha1_total c + length d) mod 64 = (length d - ?f) mod 64" using 3(2) by (rule block_fill)
    show ?thesis
      using sha1_update_blocks_ok [of "sha1_process (c1\<lparr>s1_W := W\<rparr>) W" "drop ?f d"] W(1) blk_SHA1_Block_ref(2) [OF v(1)] c1 sz
      unfolding u pd by (auto simp: sha1_process_def fill)
  qed
qed


lemma sha1_padlen: "sha1_total c < 2 ^ 61 \<Longrightarrow> be32 (drop_bit 29 (s1_size c)) @ be32 (push_bit 3 (s1_size c)) = be64 (8 * sha1_total c)"
proof (rule be32_be64)
  assume small: "sha1_total c < 2 ^ 61"
  have "8 * sha1_total c div 2 ^ 32 = sha1_total c div 2 ^ 29" using div_mult_mult1 [of 8 "sha1_total c" "2 ^ 29"] by simp
  then show "unat (drop_bit 29 (s1_size c)) mod 2 ^ 32 = 8 * sha1_total c div 2 ^ 32 mod 2 ^ 32" by (simp only: unat_drop)
  show "unat (push_bit 3 (s1_size c)) mod 2 ^ 32 = 8 * sha1_total c mod 2 ^ 32"
    using small unat_push_word [of 3 "s1_size c"] by (simp add: mult.commute)
qed

lemma sha1_pad: "take (nat (1 + (55 - int (n mod 64)) mod 64)) (0x80 # replicate 63 0) = (0x80 :: byte) # replicate (pad_zeros n) 0"
proof -
  have r: "n mod 64 < 64" by simp
  have "nat (1 + (55 - int (n mod 64)) mod 64) = Suc (pad_zeros n)"
  proof (cases "n mod 64 < 56")
    case True
    then have "(55 - int (n mod 64)) mod 64 = 55 - int (n mod 64)" by simp
    with True show ?thesis by (simp add: pad_zeros_eq)
  next
    case False
    have "(55 - int (n mod 64)) mod 64 = (119 - int (n mod 64)) mod 64" using mod_add_self2 [of "55 - int (n mod 64)" 64] by simp
    also have "\<dots> = 119 - int (n mod 64)" using False r by simp
    finally show ?thesis using False r by (simp add: pad_zeros_eq)
  qed
  moreover have "pad_zeros n < 64" by (simp add: pad_zeros_def)
  ultimately show ?thesis by (simp add: min_def)
qed

interpretation s1: block_stream ref1_compress sha1_valid sha1_total s1_H s1_W blk_SHA1_Update blk_SHA1_Final "\<lambda>s. concat (map be32 s)"
proof unfold_locales
  show "\<exists>c'. blk_SHA1_Update c d = Inr c' \<and> sha1_valid c' \<and> sha1_total c' = sha1_total c + length d \<and>
      (s1_H c', take (sha1_total c' mod 64) (s1_W c')) = absorb_blocks ref1_compress (s1_H c) (take (sha1_total c mod 64) (s1_W c) @ d)"
    if "sha1_valid c" "length d < 2 ^ 32" "sha1_total c + length d < 2 ^ 61" for c d
    using that(1,3) by (rule sha1_update_law)
next
  show "blk_SHA1_Final c = run_bind (blk_SHA1_Update c (0x80 # replicate (pad_zeros (sha1_total c)) 0)) (\<lambda>c1.
      run_bind (blk_SHA1_Update c1 (be64 (8 * sha1_total c))) (\<lambda>c2. Inr (concat (map be32 (s1_H c2)))))"
    if "sha1_valid c" "sha1_total c < 2 ^ 61" for c
    unfolding blk_SHA1_Final_def Let_def sha1_left sha1_pad sha1_padlen [OF that(2)] ..
qed

lemma sha1_init_represents: "length g = 64 \<Longrightarrow> s1.represents (blk_SHA1_Init g) sha1_iv []"
  using s1.represents_start [of "blk_SHA1_Init g"] by (simp add: sha1_valid_def blk_SHA1_Init_def sha1_iv_def)

primrec sha1_updates :: "blk_SHA_CTX \<Rightarrow> byte list list \<Rightarrow> blk_SHA_CTX run" where
  "sha1_updates ctx [] = Inr ctx"
| "sha1_updates ctx (d # ds) = run_bind (blk_SHA1_Update ctx d) (\<lambda>ctx. sha1_updates ctx ds)"

lemma sha1_updates_eq: "sha1_updates = s1.updates"
proof (intro ext)
  show "sha1_updates ctx ds = s1.updates ctx ds" for ctx ds by (induction ds arbitrary: ctx) simp_all
qed

lemma sha1_digest_of:
  assumes "length g = 64" "list_all (\<lambda>d. length d < 2 ^ 32) ds" "length (concat ds) + 72 < 2 ^ 61"
  shows "run_bind (sha1_updates (blk_SHA1_Init g) ds) blk_SHA1_Final = Inr (sha1_ref (concat ds))"
proof -
  obtain c where c: "s1.updates (blk_SHA1_Init g) ds = Inr c" "s1.represents c sha1_iv (concat ds)"
    using s1.updates_represent [OF sha1_init_represents [OF assms(1)] assms(2)] assms(3) by auto
  show ?thesis unfolding sha1_updates_eq c(1) run_bind_Inr sha1_ref_def using s1.finish_digest [OF c(2) assms(3)] .
qed

section \<open>Properties\<close>

text \<open>
  C11. The package computes SHA-1: for a message in any number of pieces the optimised code, with
  its circular schedule of 16 words and its rotating registers, stays inside its buffers and
  yields the digest of FIPS 180 for the concatenation of the pieces. The method \<open>encode\<close> is the
  case of one piece.
\<close>

theorem sha1_digest:
  assumes "length g = 64" "list_all (\<lambda>d. length d < 2 ^ 32) ds" "length (concat ds) + 72 < 2 ^ 61"
  shows "run_bind (sha1_updates (blk_SHA1_Init g) ds) blk_SHA1_Final = Inr (sha1_ref (concat ds)) \<and>
    (length data < 2 ^ 31 \<longrightarrow> sha1_encode g data = Inr (sha1_ref data))"
  using sha1_digest_of [OF assms] sha1_digest_of [OF assms(1), of "[data]"]
  by (auto simp: sha1_encode_def run_bind_def split: sum.splits)

theorem sha1_digest_witness:
  "run_bind (sha1_updates (blk_SHA1_Init (replicate 64 7)) [[0x61], [], [0x62, 0x63]]) blk_SHA1_Final = Inr (sha1_ref [0x61, 0x62, 0x63]) \<and>
   sha1_encode (replicate 64 7) [0x61, 0x62, 0x63] = Inr (sha1_ref [0x61, 0x62, 0x63])"
  using sha1_digest [of "replicate 64 7" "[[0x61], [], [0x62, 0x63]]" "[0x61, 0x62, 0x63]"] by simp

end
