(* ===== verification/Duda_Sha256.thy ===== *)
theory Duda_Sha256
  imports Duda_Hash
begin

text \<open>
  \<open>packages/sha256/sha256.c\<close>. The header defines \<open>uint32\<close> as \<open>unsigned long int\<close>, which has 64 bits
  on the LP64 platforms Duda runs on, so the whole computation is modelled on 64-bit words, whose
  upper halves fill up with carries and shifted-out bits. The reference is SHA-256 of FIPS 180 on
  32-bit words; the two are related by dropping the upper halves.
\<close>

unbundle bit_operations_syntax

type_synonym u64 = "64 word"

section \<open>Macros\<close>

definition GET_UINT32 :: "byte list \<Rightarrow> nat \<Rightarrow> u64" where
  "GET_UINT32 b i = push_bit 24 (ucast (b ! i)) OR push_bit 16 (ucast (b ! (i + 1))) OR
     push_bit 8 (ucast (b ! (i + 2))) OR ucast (b ! (i + 3))"

definition SHR :: "u64 \<Rightarrow> nat \<Rightarrow> u64" where
  "SHR x n = drop_bit n (x AND 0xFFFFFFFF)"

definition ROTR :: "u64 \<Rightarrow> nat \<Rightarrow> u64" where
  "ROTR x n = SHR x n OR push_bit (32 - n) x"

definition S0 :: "u64 \<Rightarrow> u64" where "S0 x = ROTR x 7 XOR ROTR x 18 XOR SHR x 3"
definition S1 :: "u64 \<Rightarrow> u64" where "S1 x = ROTR x 17 XOR ROTR x 19 XOR SHR x 10"
definition S2 :: "u64 \<Rightarrow> u64" where "S2 x = ROTR x 2 XOR ROTR x 13 XOR ROTR x 22"
definition S3 :: "u64 \<Rightarrow> u64" where "S3 x = ROTR x 6 XOR ROTR x 11 XOR ROTR x 25"

definition F0 :: "u64 \<Rightarrow> u64 \<Rightarrow> u64 \<Rightarrow> u64" where "F0 x y z = (x AND y) OR (z AND (x OR y))"
definition F1 :: "u64 \<Rightarrow> u64 \<Rightarrow> u64 \<Rightarrow> u64" where "F1 x y z = z XOR (x AND (y XOR z))"

text \<open>\<open>R(t)\<close> writes the entry \<open>t\<close> of the schedule; the entries from \<open>t\<close> on have not been written yet.\<close>

definition sha256_R :: "u64 list \<Rightarrow> nat \<Rightarrow> u64 list" where
  "sha256_R W t = W @ [S1 (W ! (t - 2)) + W ! (t - 7) + S0 (W ! (t - 15)) + W ! (t - 16)]"

text \<open>
  \<open>P(a, b, c, d, e, f, g, h, x, K)\<close> on the registers \<open>A\<close> to \<open>H\<close> (0 to 7); the first argument lists the
  registers that stand for \<open>a\<close> to \<open>h\<close>.
\<close>

definition sha256_P :: "nat list \<Rightarrow> u64 \<Rightarrow> u64 \<Rightarrow> u64 list \<Rightarrow> u64 list" where
  "sha256_P r x K reg =
     (let a = reg ! (r ! 0); b = reg ! (r ! 1); c = reg ! (r ! 2); d = reg ! (r ! 3);
          e = reg ! (r ! 4); f = reg ! (r ! 5); g = reg ! (r ! 6); h = reg ! (r ! 7);
          temp1 = h + S3 e + F1 e f g + K + x;
          temp2 = S2 a + F0 a b c
      in reg[r ! 3 := d + temp1, r ! 7 := temp1 + temp2])"

section \<open>The compression function\<close>

definition sha256_K :: "u64 list" where
  "sha256_K = [
     0x428A2F98, 0x71374491, 0xB5C0FBCF, 0xE9B5DBA5, 0x3956C25B, 0x59F111F1, 0x923F82A4, 0xAB1C5ED5,
     0xD807AA98, 0x12835B01, 0x243185BE, 0x550C7DC3, 0x72BE5D74, 0x80DEB1FE, 0x9BDC06A7, 0xC19BF174,
     0xE49B69C1, 0xEFBE4786, 0x0FC19DC6, 0x240CA1CC, 0x2DE92C6F, 0x4A7484AA, 0x5CB0A9DC, 0x76F988DA,
     0x983E5152, 0xA831C66D, 0xB00327C8, 0xBF597FC7, 0xC6E00BF3, 0xD5A79147, 0x06CA6351, 0x14292967,
     0x27B70A85, 0x2E1B2138, 0x4D2C6DFC, 0x53380D13, 0x650A7354, 0x766A0ABB, 0x81C2C92E, 0x92722C85,
     0xA2BFE8A1, 0xA81A664B, 0xC24B8B70, 0xC76C51A3, 0xD192E819, 0xD6990624, 0xF40E3585, 0x106AA070,
     0x19A4C116, 0x1E376C08, 0x2748774C, 0x34B0BCB5, 0x391C0CB3, 0x4ED8AA4A, 0x5B9CCA4F, 0x682E6FF3,
     0x748F82EE, 0x78A5636F, 0x84C87814, 0x8CC70208, 0x90BEFFFA, 0xA4506CEB, 0xBEF9A3F7, 0xC67178F2]"

text \<open>The register arguments of the calls of \<open>P\<close>, which repeat every eight rounds.\<close>

definition sha256_regs :: "nat list list" where
  "sha256_regs = [[0, 1, 2, 3, 4, 5, 6, 7], [7, 0, 1, 2, 3, 4, 5, 6], [6, 7, 0, 1, 2, 3, 4, 5], [5, 6, 7, 0, 1, 2, 3, 4],
                  [4, 5, 6, 7, 0, 1, 2, 3], [3, 4, 5, 6, 7, 0, 1, 2], [2, 3, 4, 5, 6, 7, 0, 1], [1, 2, 3, 4, 5, 6, 7, 0]]"

definition sha256_round :: "nat \<Rightarrow> u64 list \<times> u64 list \<Rightarrow> u64 list \<times> u64 list" where
  "sha256_round t = (\<lambda>(reg, W).
     let W' = (if t < 16 then W else sha256_R W t)
     in (sha256_P (sha256_regs ! (t mod 8)) (W' ! t) (sha256_K ! t) reg, W'))"

definition sha256_block :: "u64 list \<Rightarrow> byte list \<Rightarrow> u64 list" where
  "sha256_block st data =
     (let W = map (\<lambda>i. GET_UINT32 data (4 * i)) [0..<16];
          (reg, _) = fold sha256_round [0..<64] (st, W)
      in map2 (+) st reg)"

section \<open>The context\<close>

record sha256_context =
  s2_total0 :: u64
  s2_total1 :: u64
  s2_state :: "u64 list"
  s2_buffer :: "byte list"

text \<open>\<open>g\<close> is what the uninitialised buffer holds.\<close>

definition sha256_starts :: "byte list \<Rightarrow> sha256_context" where
  "sha256_starts g = \<lparr>s2_total0 = 0, s2_total1 = 0,
     s2_state = [0x6A09E667, 0xBB67AE85, 0x3C6EF372, 0xA54FF53A, 0x510E527F, 0x9B05688C, 0x1F83D9AB, 0x5BE0CD19],
     s2_buffer = g\<rparr>"

definition sha256_process :: "sha256_context \<Rightarrow> byte list \<Rightarrow> sha256_context" where
  "sha256_process ctx data = ctx\<lparr>s2_state := sha256_block (s2_state ctx) data\<rparr>"

definition sha256_update :: "sha256_context \<Rightarrow> byte list \<Rightarrow> sha256_context run" where
  "sha256_update ctx inp =
     (if inp = [] then Inr ctx else
      let len = of_nat (length inp) :: u64;
          left = unat (s2_total0 ctx AND 0x3F);
          fill = 64 - left;
          t0 = (s2_total0 ctx + len) AND 0xFFFFFFFF;
          ctx1 = ctx\<lparr>s2_total0 := t0, s2_total1 := (if t0 < len then s2_total1 ctx + 1 else s2_total1 ctx)\<rparr>
      in run_bind
           (if left \<noteq> 0 \<and> fill \<le> length inp then
              run_bind (puts (s2_buffer ctx1) left (take fill inp)) (\<lambda>buf.
                Inr (sha256_process (ctx1\<lparr>s2_buffer := buf\<rparr>) buf, drop fill inp, 0))
            else Inr (ctx1, inp, left))
           (\<lambda>(ctx2, inp, left). case absorb_blocks sha256_process ctx2 inp of (ctx3, rest) \<Rightarrow>
              if rest \<noteq> [] then run_bind (puts (s2_buffer ctx3) left rest) (\<lambda>buf. Inr (ctx3\<lparr>s2_buffer := buf\<rparr>))
              else Inr ctx3))"

definition sha256_padding :: "byte list" where
  "sha256_padding = 0x80 # replicate 63 0"

definition sha256_finish :: "sha256_context \<Rightarrow> byte list run" where
  "sha256_finish ctx =
     (let high = drop_bit 29 (s2_total0 ctx) OR push_bit 3 (s2_total1 ctx);
          low = push_bit 3 (s2_total0 ctx);
          msglen = be32 high @ be32 low;
          last = unat (s2_total0 ctx AND 0x3F);
          padn = (if last < 56 then 56 - last else 120 - last)
      in run_bind (sha256_update ctx (take padn sha256_padding)) (\<lambda>ctx.
         run_bind (sha256_update ctx msglen) (\<lambda>ctx. Inr (concat (map be32 (s2_state ctx))))))"

text \<open>The method of the package.\<close>

definition sha256_encode :: "byte list \<Rightarrow> byte list \<Rightarrow> byte list run" where
  "sha256_encode g data_in =
     run_bind (sha256_update (sha256_starts g) data_in) (\<lambda>ctx. sha256_finish ctx)"

section \<open>Reference: SHA-256 on 32-bit words\<close>

definition Sigma0 :: "u32 \<Rightarrow> u32" where "Sigma0 x = word_rotr 2 x XOR word_rotr 13 x XOR word_rotr 22 x"
definition Sigma1 :: "u32 \<Rightarrow> u32" where "Sigma1 x = word_rotr 6 x XOR word_rotr 11 x XOR word_rotr 25 x"
definition sigma0 :: "u32 \<Rightarrow> u32" where "sigma0 x = word_rotr 7 x XOR word_rotr 18 x XOR drop_bit 3 x"
definition sigma1 :: "u32 \<Rightarrow> u32" where "sigma1 x = word_rotr 17 x XOR word_rotr 19 x XOR drop_bit 10 x"

fun ref_round :: "u32 \<Rightarrow> u32 \<Rightarrow> u32 list \<Rightarrow> u32 list" where
  "ref_round K w [a, b, c, d, e, f, g, h] =
     (let T1 = h + Sigma1 e + Ch e f g + K + w; T2 = Sigma0 a + Maj a b c
      in [T1 + T2, a, b, c, d + T1, e, f, g])"
| "ref_round _ _ st = st"

definition ref_extend :: "nat \<Rightarrow> u32 list \<Rightarrow> u32 list" where
  "ref_extend t W = W @ [sigma1 (W ! (t - 2)) + W ! (t - 7) + sigma0 (W ! (t - 15)) + W ! (t - 16)]"

definition ref_schedule :: "byte list \<Rightarrow> u32 list" where
  "ref_schedule data = fold ref_extend [16..<64] (map (\<lambda>i. be_word data (4 * i)) [0..<16])"

definition ref_compress :: "u32 list \<Rightarrow> byte list \<Rightarrow> u32 list" where
  "ref_compress st data =
     map2 (+) st (fold (\<lambda>t. ref_round (ucast (sha256_K ! t)) (ref_schedule data ! t)) [0..<64] st)"

definition sha256_iv :: "u32 list" where
  "sha256_iv = [0x6A09E667, 0xBB67AE85, 0x3C6EF372, 0xA54FF53A, 0x510E527F, 0x9B05688C, 0x1F83D9AB, 0x5BE0CD19]"

definition sha256_ref :: "byte list \<Rightarrow> byte list" where
  "sha256_ref m = concat (map be32 (fst (absorb_blocks ref_compress sha256_iv (md_pad m))))"

section \<open>Lower halves\<close>

abbreviation lo :: "u64 \<Rightarrow> u32" where "lo \<equiv> ucast"

lemma lo_add [simp]: "lo (x + y) = lo x + lo y"
proof -
  have "unat (lo (x + y)) = (unat x + unat y) mod 2 ^ 64 mod 2 ^ 32" by (simp add: unsigned_ucast_eq unat_word_ariths take_bit_eq_mod)
  also have "\<dots> = (unat x + unat y) mod 2 ^ 32" by (rule mod_mod_cancel) simp
  also have "\<dots> = unat (lo x + lo y)" by (simp add: unsigned_ucast_eq unat_word_ariths take_bit_eq_mod mod_add_eq)
  finally show ?thesis by (rule unsigned_word_eqI)
qed

lemma lo_bits [simp]: "lo (x AND y) = lo x AND lo y" "lo (x OR y) = lo x OR lo y" "lo (x XOR y) = lo x XOR lo y"
  by (simp_all add: bit_eq_iff bit_simps)

lemma mask32: "(x :: u64) AND 0xFFFFFFFF = take_bit 32 x"
  by (simp add: take_bit_eq_mask mask_eq_exp_minus_1)

lemma lo_SHR: "lo (SHR x n) = drop_bit n (lo x)"
  unfolding SHR_def mask32 by (rule bit_word_eqI) (auto simp: bit_simps)

lemma lo_ROTR: "0 < n \<Longrightarrow> n < 32 \<Longrightarrow> lo (ROTR x n) = word_rotr n (lo x)"
proof (rule bit_word_eqI)
  fix i
  assume n: "0 < n" "n < 32" and i: "i < LENGTH(32)"
  have m: "(i + n) mod 32 = (if i + n < 32 then i + n else i + n - 32)" using n i by (simp add: le_mod_geq)
  show "bit (lo (ROTR x n)) i \<longleftrightarrow> bit (word_rotr n (lo x)) i"
    using n i unfolding ROTR_def SHR_def mask32 by (auto simp: bit_simps m add.commute)
qed

lemma lo_functions:
  "lo (S0 x) = sigma0 (lo x)" "lo (S1 x) = sigma1 (lo x)" "lo (S2 x) = Sigma0 (lo x)" "lo (S3 x) = Sigma1 (lo x)"
  by (simp_all add: S0_def S1_def S2_def S3_def sigma0_def sigma1_def Sigma0_def Sigma1_def lo_SHR lo_ROTR)

lemma lo_F0: "lo (F0 x y z) = Maj (lo x) (lo y) (lo z)"
  by (rule bit_word_eqI) (auto simp: F0_def Maj_def bit_simps)

lemma lo_F1: "lo (F1 x y z) = Ch (lo x) (lo y) (lo z)"
  by (rule bit_word_eqI) (auto simp: F1_def Ch_def bit_simps)

lemma unat_GET_UINT32:
  "unat (GET_UINT32 b i) = unat (b ! i) * 256 ^ 3 + unat (b ! (i + 1)) * 256 ^ 2 + unat (b ! (i + 2)) * 256 + unat (b ! (i + 3))"
  unfolding GET_UINT32_def by (rule unat_shift_or) simp

lemma lo_GET_UINT32: "lo (GET_UINT32 b i) = be_word b i"
proof -
  have "lo x = of_nat (unat x)" for x by simp
  then show ?thesis unfolding be_word_def by (metis unat_GET_UINT32)
qed


section \<open>The compression function computes the reference\<close>

lemma ref_extend_prefix: "\<exists>ys. length ys = length ts \<and> fold ref_extend ts W = W @ ys"
proof (induction ts arbitrary: W)
  case (Cons t ts)
  obtain ys where ys: "length ys = length ts" "fold ref_extend ts (ref_extend t W) = ref_extend t W @ ys" using Cons by blast
  obtain w where "ref_extend t W = W @ [w]" by (simp add: ref_extend_def)
  with ys show ?case by simp
qed simp

lemma lo_sha256_R: "length W = t \<Longrightarrow> 16 \<le> t \<Longrightarrow> map lo (sha256_R W t) = ref_extend t (map lo W)"
  by (simp add: sha256_R_def ref_extend_def lo_functions)

lemma sha256_regs_next:
  assumes "r = sha256_regs ! (t mod 8)"
  shows "\<exists>r0 r1 r2 r3 r4 r5 r6 r7. r = [r0, r1, r2, r3, r4, r5, r6, r7] \<and> distinct r \<and> set r = {0..<8} \<and>
    sha256_regs ! (Suc t mod 8) = [r7, r0, r1, r2, r3, r4, r5, r6]"
proof -
  have "t mod 8 < 8" by simp
  then consider "t mod 8 = 0" | "t mod 8 = 1" | "t mod 8 = 2" | "t mod 8 = 3" | "t mod 8 = 4" | "t mod 8 = 5" | "t mod 8 = 6" | "t mod 8 = 7"
    by linarith
  then show ?thesis using assms by cases (auto simp: sha256_regs_def mod_Suc)
qed

lemma lo_sha256_P:
  assumes "r = [r0, r1, r2, r3, r4, r5, r6, r7]" "distinct r" "set r = {0..<8}" "length reg = 8"
  shows "map (\<lambda>i. lo (sha256_P r x K reg ! i)) [r7, r0, r1, r2, r3, r4, r5, r6] = ref_round (lo K) (lo x) (map (\<lambda>i. lo (reg ! i)) r)"
proof -
  have "r3 < 8" "r7 < 8" "r0 \<noteq> r3" "r1 \<noteq> r3" "r2 \<noteq> r3" "r4 \<noteq> r3" "r5 \<noteq> r3" "r6 \<noteq> r3" "r7 \<noteq> r3"
    "r0 \<noteq> r7" "r1 \<noteq> r7" "r2 \<noteq> r7" "r3 \<noteq> r7" "r4 \<noteq> r7" "r5 \<noteq> r7" "r6 \<noteq> r7"
    using assms(1-3) by auto
  then show ?thesis using assms(4) by (simp add: assms(1) sha256_P_def Let_def lo_functions lo_F0 lo_F1)
qed


text \<open>Up to round \<open>t\<close>: the schedule is a prefix of the reference schedule and the registers, read in the order of the round, are the reference state.\<close>

definition round_rel :: "byte list \<Rightarrow> nat \<Rightarrow> u64 list \<times> u64 list \<Rightarrow> u32 list \<Rightarrow> bool" where
  "round_rel data t rw s \<longleftrightarrow> (case rw of (reg, W) \<Rightarrow>
     length reg = 8 \<and> length W = max 16 t \<and>
     map lo W = fold ref_extend [16..<t] (map (\<lambda>i. be_word data (4 * i)) [0..<16]) \<and>
     s = map (\<lambda>i. lo (reg ! i)) (sha256_regs ! (t mod 8)))"

lemma sha256_P_length [simp]: "length (sha256_P r x K reg) = length reg"
  by (simp add: sha256_P_def Let_def)

lemma schedule_nth:
  assumes "length W = t" "t < 64" "16 \<le> t"
    "map lo W = fold ref_extend [16..<t] (map (\<lambda>i. be_word data (4 * i)) [0..<16])"
  shows "lo (sha256_R W t ! t) = ref_schedule data ! t"
    "map lo (sha256_R W t) = fold ref_extend [16..<Suc t] (map (\<lambda>i. be_word data (4 * i)) [0..<16])"
proof -
  let ?w = "map (\<lambda>i. be_word data (4 * i)) [0..<16]"
  have upt: "[16..<64] = [16..<Suc t] @ [Suc t..<64]"
    using upt_add_eq_append [of 16 "Suc t" "64 - Suc t"] assms(2,3) by simp
  show ext: "map lo (sha256_R W t) = fold ref_extend [16..<Suc t] ?w"
    using assms lo_sha256_R [of W t] by simp
  obtain ys where ys: "ref_schedule data = map lo (sha256_R W t) @ ys"
    unfolding ref_schedule_def upt fold_append comp_def ext [symmetric] using ref_extend_prefix by blast
  have "length (sha256_R W t) = Suc t" using assms(1) by (simp add: sha256_R_def)
  then show "lo (sha256_R W t ! t) = ref_schedule data ! t" unfolding ys by (simp add: nth_append)
qed

lemma round_step:
  assumes "round_rel data t rw s" "t < 64"
  shows "round_rel data (Suc t) (sha256_round t rw) (ref_round (ucast (sha256_K ! t)) (ref_schedule data ! t) s)"
proof -
  obtain reg W where rw: "rw = (reg, W)" by fastforce
  define r where "r = sha256_regs ! (t mod 8)"
  obtain r0 r1 r2 r3 r4 r5 r6 r7 where r: "r = [r0, r1, r2, r3, r4, r5, r6, r7]" "distinct r" "set r = {0..<8}"
      "sha256_regs ! (Suc t mod 8) = [r7, r0, r1, r2, r3, r4, r5, r6]"
    using sha256_regs_next [OF r_def] by blast
  have rel: "length reg = 8" "length W = max 16 t" "map lo W = fold ref_extend [16..<t] (map (\<lambda>i. be_word data (4 * i)) [0..<16])"
      "s = map (\<lambda>i. lo (reg ! i)) r"
    using assms(1) by (simp_all add: round_rel_def rw r_def)
  define W' where "W' = (if t < 16 then W else sha256_R W t)"
  have W': "lo (W' ! t) = ref_schedule data ! t \<and> length W' = max 16 (Suc t) \<and>
      map lo W' = fold ref_extend [16..<Suc t] (map (\<lambda>i. be_word data (4 * i)) [0..<16])"
  proof (cases "t < 16")
    case True
    then have w: "map lo W = map (\<lambda>i. be_word data (4 * i)) [0..<16]" and len: "length W = 16"
      using rel(2,3) by (simp_all only: upt_conv_Nil less_imp_le fold_simps max.absorb1)
    obtain ys where ys: "ref_schedule data = map lo W @ ys" unfolding ref_schedule_def w [symmetric] using ref_extend_prefix by blast
    have "lo (W ! t) = ref_schedule data ! t" unfolding ys using True len by (simp add: nth_append)
    with True len w show ?thesis unfolding W'_def by (simp only: upt_conv_Nil Suc_leI fold_simps if_True max.absorb1)
  next
    case False
    then have "length W = t" "16 \<le> t" using rel(2) by simp_all
    with schedule_nth [OF this(1) assms(2) this(2) rel(3)] False show ?thesis by (simp add: W'_def sha256_R_def)
  qed
  have "sha256_round t rw = (sha256_P r (W' ! t) (sha256_K ! t) reg, W')" by (simp add: sha256_round_def rw W'_def r_def Let_def)
  then show ?thesis
    using W' rel(1) lo_sha256_P [OF r(1-3) rel(1), of "W' ! t" "sha256_K ! t"] unfolding round_rel_def r(4) rel(4) by simp
qed


lemma sha256_rounds:
  assumes "length st = 8" "t \<le> 64"
  shows "round_rel data t (fold sha256_round [0..<t] (st, map (\<lambda>i. GET_UINT32 data (4 * i)) [0..<16]))
    (fold (\<lambda>t. ref_round (ucast (sha256_K ! t)) (ref_schedule data ! t)) [0..<t] (map lo st))"
  using assms(2)
proof (induction t)
  case 0
  have "map lo (map (\<lambda>i. GET_UINT32 data (4 * i)) [0..<16]) = map (\<lambda>i. be_word data (4 * i)) [0..<16]"
    unfolding map_map by (rule map_cong) (simp_all only: comp_apply lo_GET_UINT32)
  moreover have "map lo st = map (\<lambda>i. lo (st ! i)) (sha256_regs ! 0)"
  proof -
    have "map (\<lambda>i. lo (st ! i)) [0..<length st] = map lo st" by (rule nth_equalityI) simp_all
    moreover have "[0..<8] = [0, 1, 2, 3, 4, 5, 6, 7 :: nat]" by (simp add: upt_rec)
    ultimately show ?thesis using assms(1) by (simp add: sha256_regs_def)
  qed
  ultimately show ?case using assms(1) by (simp add: round_rel_def del: upt_rec_numeral)
next
  case (Suc t)
  then show ?case using round_step [of data t] by (simp del: upt_rec_numeral)
qed

lemma sha256_block_ref:
  assumes "length st = 8"
  shows "map lo (sha256_block st data) = ref_compress (map lo st) data \<and> length (sha256_block st data) = 8"
proof -
  let ?w = "map (\<lambda>i. GET_UINT32 data (4 * i)) [0..<16]"
  let ?s = "fold (\<lambda>t. ref_round (ucast (sha256_K ! t)) (ref_schedule data ! t)) [0..<64] (map lo st)"
  obtain reg W where rw: "fold sha256_round [0..<64] (st, ?w) = (reg, W)" by fastforce
  have "round_rel data 64 (reg, W) ?s" using sha256_rounds [OF assms, of 64 data] unfolding rw by simp
  moreover have "(64 :: nat) mod 8 = 0" by simp
  ultimately have reg: "length reg = 8" "?s = map (\<lambda>i. lo (reg ! i)) (sha256_regs ! 0)" by (simp_all only: round_rel_def prod.case)
  have "map (\<lambda>i. lo (reg ! i)) [0..<length reg] = map lo reg" by (rule nth_equalityI) simp_all
  moreover have "[0..<8] = [0, 1, 2, 3, 4, 5, 6, 7 :: nat]" by (simp add: upt_rec)
  ultimately have s: "?s = map lo reg" using reg by (simp add: sha256_regs_def)
  have block: "sha256_block st data = map2 (+) st reg" by (simp only: sha256_block_def Let_def rw prod.case)
  have "map lo (map2 (+) st reg) = map2 (+) (map lo st) (map lo reg)"
    by (rule nth_equalityI) (simp_all add: assms reg(1))
  then show ?thesis unfolding block ref_compress_def s using assms reg(1) by simp
qed

section \<open>Updating a context\<close>

definition sha256_valid :: "sha256_context \<Rightarrow> bool" where
  "sha256_valid c \<longleftrightarrow> length (s2_state c) = 8 \<and> length (s2_buffer c) = 64 \<and> unat (s2_total0 c) < 2 ^ 32"

definition sha256_total :: "sha256_context \<Rightarrow> nat" where
  "sha256_total c = unat (s2_total1 c) * 2 ^ 32 + unat (s2_total0 c)"

abbreviation sha256_abs :: "sha256_context \<Rightarrow> u32 list" where
  "sha256_abs c \<equiv> map lo (s2_state c)"

lemma sha256_left: "unat (s2_total0 c AND 0x3F) = sha256_total c mod 64"
proof -
  have "s2_total0 c AND 0x3F = take_bit 6 (s2_total0 c)" by (simp add: take_bit_eq_mask mask_eq_exp_minus_1)
  then have "unat (s2_total0 c AND 0x3F) = unat (s2_total0 c) mod 64" using unat_take [of 6 "s2_total0 c"] by simp
  moreover have "(unat (s2_total1 c) * 2 ^ 32 + unat (s2_total0 c)) mod 64 = unat (s2_total0 c) mod 64"
    using mod_mult_self3 [of "unat (s2_total1 c) * 2 ^ 26" 64 "unat (s2_total0 c)"] by (simp add: mult.assoc)
  ultimately show ?thesis by (simp only: sha256_total_def)
qed

text \<open>The two counters count bytes.\<close>

lemma sha256_count:
  fixes t0 t1 :: u64
  assumes "unat t0 < 2 ^ 32" "n < 2 ^ 32" "unat t1 * 2 ^ 32 + unat t0 + n < 2 ^ 61"
  defines "t0' \<equiv> (t0 + of_nat n) AND 0xFFFFFFFF"
  defines "t1' \<equiv> (if t0' < of_nat n then t1 + 1 else t1)"
  shows "unat t0' < 2 ^ 32" "unat t1' * 2 ^ 32 + unat t0' = unat t1 * 2 ^ 32 + unat t0 + n"
proof -
  have n: "unat (of_nat n :: u64) = n" using assms(2) by (simp add: unsigned_of_nat take_bit_nat_eq_self_iff)
  have "unat (t0 + of_nat n) = unat t0 + n" using assms(1,2) n by (simp add: unat_word_ariths)
  then have t0': "unat t0' = (unat t0 + n) mod 2 ^ 32" unfolding t0'_def mask32 unat_take by simp
  then show "unat t0' < 2 ^ 32" by simp
  have less: "t0' < of_nat n \<longleftrightarrow> unat t0' < n" by (simp only: word_less_nat_alt n)
  have "unat (t1 + 1) = unat t1 + 1" using assms(3) by (simp add: unat_word_ariths)
  then show "unat t1' * 2 ^ 32 + unat t0' = unat t1 * 2 ^ 32 + unat t0 + n"
  proof (cases "unat t0 + n < 2 ^ 32")
    case True
    then have "unat t0' = unat t0 + n" using t0' by simp
    then show ?thesis using less by (simp add: t1'_def)
  next
    case False
    then have "unat t0' = unat t0 + n - 2 ^ 32" using t0' assms(1,2) by (simp add: le_mod_geq)
    then show ?thesis using less False assms(1) \<open>unat (t1 + 1) = unat t1 + 1\<close> by (simp add: t1'_def)
  qed
qed


lemma sha256_absorb:
  fixes d :: "byte list"
  assumes "length (s2_state c) = 8"
  defines "r \<equiv> absorb_blocks sha256_process c d"
  shows "absorb_blocks ref_compress (sha256_abs c) d = (sha256_abs (fst r), snd r)" "length (s2_state (fst r)) = 8"
    "s2_buffer (fst r) = s2_buffer c" "s2_total0 (fst r) = s2_total0 c" "s2_total1 (fst r) = s2_total1 c"
proof -
  let ?R = "\<lambda>x. length (s2_state x) = 8 \<and> s2_buffer x = s2_buffer c \<and> s2_total0 x = s2_total0 c \<and> s2_total1 x = s2_total1 c"
  have step: "?R (sha256_process s b) \<and> sha256_abs (sha256_process s b) = ref_compress (sha256_abs s) b" if "?R s" for s b
    using that sha256_block_ref [of "s2_state s" b] by (simp add: sha256_process_def)
  have "absorb_blocks ref_compress (sha256_abs c) d = (sha256_abs (fst r), snd r) \<and> ?R (fst r)"
    unfolding r_def by (rule absorb_simulates [where R = ?R]) (use step assms(1) in simp_all)
  then show "absorb_blocks ref_compress (sha256_abs c) d = (sha256_abs (fst r), snd r)" "length (s2_state (fst r)) = 8"
    "s2_buffer (fst r) = s2_buffer c" "s2_total0 (fst r) = s2_total0 c" "s2_total1 (fst r) = s2_total1 c" by simp_all
qed

text \<open>The second half of an update: whole blocks are processed and the rest goes into the buffer.\<close>

definition sha256_tail :: "sha256_context \<Rightarrow> byte list \<Rightarrow> nat \<Rightarrow> sha256_context run" where
  "sha256_tail ctx inp left = (case absorb_blocks sha256_process ctx inp of (ctx3, rest) \<Rightarrow>
     if rest \<noteq> [] then run_bind (puts (s2_buffer ctx3) left rest) (\<lambda>buf. Inr (ctx3\<lparr>s2_buffer := buf\<rparr>)) else Inr ctx3)"

lemma sha256_tail_ok:
  assumes "length (s2_state c) = 8" "length (s2_buffer c) = 64" "left + length d < 64 \<or> left = 0"
  shows "\<exists>c'. sha256_tail c d left = Inr c' \<and> length (s2_state c') = 8 \<and> length (s2_buffer c') = 64 \<and>
    s2_total0 c' = s2_total0 c \<and> s2_total1 c' = s2_total1 c \<and>
    (sha256_abs c', take (left + length d mod 64) (s2_buffer c')) =
      absorb_blocks ref_compress (sha256_abs c) (take left (s2_buffer c) @ d)"
proof -
  obtain c3 rest where r: "absorb_blocks sha256_process c d = (c3, rest)" by fastforce
  note ab = sha256_absorb [OF assms(1), of d, unfolded r fst_conv snd_conv]
  have rest: "length rest = length d mod 64" using absorb_rest_length [of sha256_process c d] r by simp
  have room: "left + length rest \<le> 64" using assms(3) rest by (auto simp: less_imp_le)
  have "absorb_blocks ref_compress (sha256_abs c) (take left (s2_buffer c) @ d) = (sha256_abs c3, take left (s2_buffer c) @ rest)"
  proof (cases "left = 0")
    case False
    then have "left + length d < 64" "rest = d" using assms(3) r by auto
    moreover from this have "c3 = c" using r by simp
    ultimately show ?thesis using assms(2) by simp
  qed (use ab(1) in simp)
  moreover have "\<exists>c'. sha256_tail c d left = Inr c' \<and> sha256_abs c' = sha256_abs c3 \<and> length (s2_state c') = 8 \<and> length (s2_buffer c') = 64 \<and>
    s2_total0 c' = s2_total0 c3 \<and> s2_total1 c' = s2_total1 c3 \<and> take (left + length rest) (s2_buffer c') = take left (s2_buffer c) @ rest"
    using room ab(2-5) assms(2) by (cases "rest = []") (simp_all add: sha256_tail_def r puts_ok)
  ultimately show ?thesis using ab(4,5) unfolding rest by auto
qed

lemma sha256_update_law:
  assumes "sha256_valid c" "length d < 2 ^ 32" "sha256_total c + length d < 2 ^ 61"
  shows "\<exists>c'. sha256_update c d = Inr c' \<and> sha256_valid c' \<and> sha256_total c' = sha256_total c + length d \<and>
    (sha256_abs c', take (sha256_total c' mod 64) (s2_buffer c')) =
      absorb_blocks ref_compress (sha256_abs c) (take (sha256_total c mod 64) (s2_buffer c) @ d)"
proof (cases "d = []")
  case True
  have "length (take (sha256_total c mod 64) (s2_buffer c)) < 64" by (simp add: min_less_iff_disj)
  with True assms show ?thesis by (simp add: sha256_update_def)
next
  case False
  let ?left = "sha256_total c mod 64"
  let ?p = "take ?left (s2_buffer c)"
  have v: "length (s2_state c) = 8" "length (s2_buffer c) = 64" "unat (s2_total0 c) < 2 ^ 32" using assms(1) by (simp_all add: sha256_valid_def)
  define t0 where "t0 = (s2_total0 c + of_nat (length d)) AND 0xFFFFFFFF"
  define t1 where "t1 = (if t0 < of_nat (length d) then s2_total1 c + 1 else s2_total1 c)"
  have cnt: "unat t0 < 2 ^ 32" "unat t1 * 2 ^ 32 + unat t0 = sha256_total c + length d"
    using sha256_count [OF v(3) assms(2), of "s2_total1 c"] assms(3) unfolding t0_def t1_def sha256_total_def by simp_all
  define c1 where "c1 = c\<lparr>s2_total0 := t0, s2_total1 := t1\<rparr>"
  have c1: "length (s2_state c1) = 8" "length (s2_buffer c1) = 64" "sha256_abs c1 = sha256_abs c" "s2_buffer c1 = s2_buffer c"
    using v by (simp_all add: c1_def)
  have finish: ?thesis if "sha256_update c d = sha256_tail c2 d2 l2" "length (s2_state c2) = 8" "length (s2_buffer c2) = 64"
      "s2_total0 c2 = t0" "s2_total1 c2 = t1" "l2 + length d2 < 64 \<or> l2 = 0" "l2 + length d2 mod 64 = (sha256_total c + length d) mod 64"
      "absorb_blocks ref_compress (sha256_abs c2) (take l2 (s2_buffer c2) @ d2) = absorb_blocks ref_compress (sha256_abs c) (?p @ d)"
    for c2 d2 l2
    using sha256_tail_ok [OF that(2,3,6)] that cnt by (auto simp: sha256_valid_def sha256_total_def)
  have upd: "sha256_update c d = run_bind
      (if ?left \<noteq> 0 \<and> 64 - ?left \<le> length d then
         run_bind (puts (s2_buffer c1) ?left (take (64 - ?left) d)) (\<lambda>buf.
           Inr (sha256_process (c1\<lparr>s2_buffer := buf\<rparr>) buf, drop (64 - ?left) d, 0))
       else Inr (c1, d, ?left)) (\<lambda>(ctx2, inp, left). sha256_tail ctx2 inp left)"
    using False unfolding sha256_update_def sha256_left Let_def t0_def [symmetric] t1_def [symmetric] c1_def [symmetric] sha256_tail_def
    by (simp only: if_False)
  show ?thesis
  proof (cases "?left \<noteq> 0 \<and> 64 - ?left \<le> length d")
    case True
    let ?f = "64 - ?left"
    have left: "?left < 64" by simp
    define buf where "buf = ?p @ take ?f d"
    have buf: "length buf = 64" using True left v(2) by (simp add: buf_def)
    have "puts (s2_buffer c1) ?left (take ?f d) = Inr buf"
      using True left v(2) c1(4) puts_ok [of ?left "take ?f d" "s2_buffer c1"] by (simp add: buf_def)
    then have u: "sha256_update c d = sha256_tail (sha256_process (c1\<lparr>s2_buffer := buf\<rparr>) buf) (drop ?f d) 0"
      unfolding upd using True by simp
    have sums: "(sha256_total c + length d) mod 64 = (length d - ?f) mod 64"
      using True by (intro block_fill) simp
    have block: "map lo (sha256_block (s2_state c) buf) = ref_compress (sha256_abs c) buf" "length (sha256_block (s2_state c) buf) = 8"
      using sha256_block_ref [OF v(1)] by simp_all
    have pd: "?p @ d = buf @ drop ?f d" by (simp add: buf_def)
    show ?thesis
      by (rule finish [OF u]) (use block sums buf in \<open>simp_all add: sha256_process_def c1_def pd absorb_block\<close>)
  next
    case False
    have u: "sha256_update c d = sha256_tail c1 d ?left" unfolding upd if_not_P [OF False] by simp
    have small: "?left + length d < 64 \<or> ?left = 0" using False by auto
    then have "?left + length d mod 64 = (sha256_total c + length d) mod 64"
    proof
      assume "?left + length d < 64"
      then show ?thesis using mod_add_left_eq [of "sha256_total c" 64 "length d"] by simp
    next
      assume "?left = 0"
      then show ?thesis using mod_add_left_eq [of "sha256_total c" 64 "length d"] by simp
    qed
    with small show ?thesis by (intro finish [OF u]) (use c1 v in \<open>simp_all add: c1_def\<close>)
  qed
qed


lemma sha256_length_bytes:
  assumes "sha256_valid c" "sha256_total c < 2 ^ 61"
  shows "be32 (drop_bit 29 (s2_total0 c) OR push_bit 3 (s2_total1 c)) @ be32 (push_bit 3 (s2_total0 c)) = be64 (8 * sha256_total c)"
proof (rule be32_be64)
  define t0 t1 where t: "t0 = unat (s2_total0 c)" "t1 = unat (s2_total1 c)"
  have small: "t0 < 2 ^ 32" "t1 < 2 ^ 29" using assms by (simp_all add: t sha256_valid_def sha256_total_def)
  then have "t0 div 2 ^ 29 < 2 ^ 3" by (simp add: div_less_iff_less_mult)
  then have "unat (push_bit 3 (s2_total1 c) OR drop_bit 29 (s2_total0 c)) = t1 * 8 mod 2 ^ 64 + t0 div 2 ^ 29"
    using unat_push_or_word [of "drop_bit 29 (s2_total0 c)" 3 "s2_total1 c"] by (simp add: t unat_drop)
  moreover have "8 * sha256_total c div 2 ^ 32 = t1 * 8 + t0 div 2 ^ 29"
  proof -
    have "8 * sha256_total c = 8 * t0 + 2 ^ 32 * (t1 * 8)" by (simp add: sha256_total_def t)
    then have "8 * sha256_total c div 2 ^ 32 = t1 * 8 + 8 * t0 div 2 ^ 32" by (simp only: div_mult_self2) simp
    also have "8 * t0 div 2 ^ 32 = t0 div 2 ^ 29" using div_mult_mult1 [of 8 t0 "2 ^ 29"] by simp
    finally show ?thesis .
  qed
  ultimately show "unat (drop_bit 29 (s2_total0 c) OR push_bit 3 (s2_total1 c)) mod 2 ^ 32 = 8 * sha256_total c div 2 ^ 32 mod 2 ^ 32"
    using small by (simp add: or.commute)
  have "8 * sha256_total c = t0 * 8 + 2 ^ 32 * (t1 * 8)" by (simp add: sha256_total_def t)
  then have "8 * sha256_total c mod 2 ^ 32 = t0 * 8 mod 2 ^ 32" by (simp only: mod_mult_self2)
  then show "unat (push_bit 3 (s2_total0 c)) mod 2 ^ 32 = 8 * sha256_total c mod 2 ^ 32"
    using small unat_push_word [of 3 "s2_total0 c"] by (simp add: t)
qed

lemma sha256_padn:
  "take (if n mod 64 < 56 then 56 - n mod 64 else 120 - n mod 64) sha256_padding = 0x80 # replicate (pad_zeros n) 0"
proof -
  have "n mod 64 < 64" by simp
  then show ?thesis by (auto simp: sha256_padding_def pad_zeros_eq take_Cons' min_def)
qed

interpretation s256: block_stream ref_compress sha256_valid sha256_total sha256_abs s2_buffer sha256_update sha256_finish "\<lambda>s. concat (map be32 s)"
proof unfold_locales
  show "\<exists>c'. sha256_update c d = Inr c' \<and> sha256_valid c' \<and> sha256_total c' = sha256_total c + length d \<and>
      (sha256_abs c', take (sha256_total c' mod 64) (s2_buffer c')) =
      absorb_blocks ref_compress (sha256_abs c) (take (sha256_total c mod 64) (s2_buffer c) @ d)"
    if "sha256_valid c" "length d < 2 ^ 32" "sha256_total c + length d < 2 ^ 61" for c d
    using that by (rule sha256_update_law)
next
  have be: "be32 (lo x) = be32 x" for x
    by (simp add: be32_def) (auto intro!: bit_word_eqI simp: bit_simps)
  show "sha256_finish c = run_bind (sha256_update c (0x80 # replicate (pad_zeros (sha256_total c)) 0)) (\<lambda>c1.
      run_bind (sha256_update c1 (be64 (8 * sha256_total c))) (\<lambda>c2. Inr (concat (map be32 (sha256_abs c2)))))"
    if "sha256_valid c" "sha256_total c < 2 ^ 61" for c
    unfolding sha256_finish_def Let_def sha256_left sha256_padn sha256_length_bytes [OF that] by (simp add: comp_def be)
qed


lemma sha256_starts_valid:
  assumes "length g = 64"
  shows "s256.represents (sha256_starts g) sha256_iv []"
proof -
  have "sha256_abs (sha256_starts g) = sha256_iv" by (simp add: sha256_starts_def sha256_iv_def)
  moreover have "sha256_valid (sha256_starts g)" "sha256_total (sha256_starts g) = 0"
    using assms by (simp_all add: sha256_valid_def sha256_total_def sha256_starts_def)
  ultimately show ?thesis using s256.represents_start [of "sha256_starts g"] by simp
qed

text \<open>Several updates in a row.\<close>

primrec sha256_updates :: "sha256_context \<Rightarrow> byte list list \<Rightarrow> sha256_context run" where
  "sha256_updates ctx [] = Inr ctx"
| "sha256_updates ctx (d # ds) = run_bind (sha256_update ctx d) (\<lambda>ctx. sha256_updates ctx ds)"

lemma sha256_updates_eq: "sha256_updates = s256.updates"
proof (intro ext)
  show "sha256_updates ctx ds = s256.updates ctx ds" for ctx ds by (induction ds arbitrary: ctx) simp_all
qed

lemma sha256_digest_of:
  assumes "length g = 64" "list_all (\<lambda>d. length d < 2 ^ 32) ds" "length (concat ds) + 72 < 2 ^ 61"
  shows "run_bind (sha256_updates (sha256_starts g) ds) sha256_finish = Inr (sha256_ref (concat ds))"
proof -
  obtain c where c: "s256.updates (sha256_starts g) ds = Inr c" "s256.represents c sha256_iv (concat ds)"
    using s256.updates_represent [OF sha256_starts_valid [OF assms(1)] assms(2)] assms(3) by auto
  show ?thesis unfolding sha256_updates_eq c(1) run_bind_Inr sha256_ref_def using s256.finish_digest [OF c(2) assms(3)] .
qed

section \<open>Properties\<close>

text \<open>
  C10. The package computes SHA-256: for a message in any number of pieces, each shorter than
  \<open>2 ^ 32\<close> bytes, the computation on 64-bit words stays inside its buffers and yields the digest
  that FIPS 180 defines on 32-bit words for the concatenation of the pieces. The method \<open>encode\<close>
  is the case of one piece.
\<close>

theorem sha256_digest:
  assumes "length g = 64" "list_all (\<lambda>d. length d < 2 ^ 32) ds" "length (concat ds) + 72 < 2 ^ 61"
  shows "run_bind (sha256_updates (sha256_starts g) ds) sha256_finish = Inr (sha256_ref (concat ds)) \<and>
    (length data < 2 ^ 31 \<longrightarrow> sha256_encode g data = Inr (sha256_ref data))"
  using sha256_digest_of [OF assms] sha256_digest_of [OF assms(1), of "[data]"]
  by (auto simp: sha256_encode_def run_bind_def split: sum.splits)

theorem sha256_digest_witness:
  "run_bind (sha256_updates (sha256_starts (replicate 64 7)) [[0x61], [], [0x62, 0x63]]) sha256_finish = Inr (sha256_ref [0x61, 0x62, 0x63]) \<and>
   sha256_encode (replicate 64 7) [0x61, 0x62, 0x63] = Inr (sha256_ref [0x61, 0x62, 0x63])"
  using sha256_digest [of "replicate 64 7" "[[0x61], [], [0x62, 0x63]]" "[0x61, 0x62, 0x63]"] by simp

text \<open>
  The constants of the program are those of FIPS 180: the 64 round constants are the first 32
  bits of the fractional parts of the cube roots of the first 64 primes, and the initial state
  holds those of the square roots of the first eight.
\<close>

definition primes_upto_311 :: "int list" where
  "primes_upto_311 = filter (\<lambda>p. list_all (\<lambda>d. d < p \<longrightarrow> p mod d \<noteq> 0) [2..17]) [2..311]"

definition root_bits :: "nat \<Rightarrow> int \<Rightarrow> int \<Rightarrow> bool" where
  "root_bits r p k \<longleftrightarrow> list_ex (\<lambda>q. (q * 2 ^ 32 + k) ^ r \<le> p * (2 ^ 32) ^ r \<and> p * (2 ^ 32) ^ r < (q * 2 ^ 32 + k + 1) ^ r) [1..6]"

theorem sha256_constants:
  "list_all2 (root_bits 3) primes_upto_311 (map uint sha256_K) \<and>
   list_all2 (root_bits 2) (take 8 primes_upto_311) (map uint (s2_state (sha256_starts g))) \<and> length sha256_K = 64"
proof -
  have "list_all2 (root_bits 3) primes_upto_311 (map uint sha256_K) \<and>
   list_all2 (root_bits 2) (take 8 primes_upto_311) (map uint (s2_state (sha256_starts []))) \<and> length sha256_K = 64" by code_simp
  then show ?thesis by (simp add: sha256_starts_def)
qed

end
