(* ===== verification/Duda_Ws_Frame.thy ===== *)
theory Duda_Ws_Frame
  imports Duda_Bytes Duda_Registry
begin

text \<open>
  The websocket package, \<open>packages/websocket\<close>: the connections of a worker (\<open>request.c\<close>), the
  registration of callbacks (\<open>callbacks.c\<close>) and the framing of messages (\<open>websocket.c\<close>). A callback is
  named by a number, \<open>None\<close> is a null function pointer; an operation returns the list of what it does
  to the outside: calls of callbacks and bytes handed to the socket. Integers read by \<open>memcpy\<close> have
  the byte order of the machine, which is little endian here.
\<close>

unbundle bit_operations_syntax

section \<open>Connections\<close>

record ws_request =
  wr_socket :: int
  wr_channel :: int
  wr_dr :: nat
  wr_cb_on_open :: "nat option"
  wr_cb_on_message :: "nat option"
  wr_cb_on_error :: "nat option"
  wr_cb_on_close :: "nat option"
  wr_cb_on_timeout :: "nat option"
  wr_opcode :: byte
  wr_payload :: "byte list option"
  wr_payload_len :: "64 word"

text \<open>\<open>ok\<close> says whether \<open>mem_alloc\<close> returns memory, \<open>g\<close> is what its \<open>opcode\<close> then holds.\<close>

definition ws_request_create ::
    "bool \<Rightarrow> byte \<Rightarrow> int \<Rightarrow> int \<Rightarrow> nat \<Rightarrow> nat option \<Rightarrow> nat option \<Rightarrow> nat option \<Rightarrow> nat option \<Rightarrow> nat option \<Rightarrow> ws_request run" where
  "ws_request_create ok g socket_fd channel dr on_open on_message on_error on_close on_timeout =
     (if ok then Inr \<lparr>wr_socket = socket_fd, wr_channel = channel, wr_dr = dr, wr_cb_on_open = on_open,
        wr_cb_on_message = on_message, wr_cb_on_error = on_error, wr_cb_on_close = on_close,
        wr_cb_on_timeout = on_timeout, wr_opcode = g, wr_payload = None, wr_payload_len = 0\<rparr>
      else Inl NullDeref)"

definition ws_request_add :: "ws_request mk_list_adder \<Rightarrow> ws_request \<Rightarrow> ws_request list \<Rightarrow> ws_request list" where
  "ws_request_add add node wr_list = add node wr_list"

definition ws_request_get :: "int \<Rightarrow> ws_request list \<Rightarrow> ws_request option" where
  "ws_request_get socket_fd wr_list = (if wr_list = [] then None else first_node wr_socket socket_fd wr_list)"

definition ws_request_delete :: "int \<Rightarrow> ws_request list \<Rightarrow> int \<times> ws_request list" where
  "ws_request_delete socket wr_list =
     (if wr_list = [] then (-1, [])
      else if first_node wr_socket socket wr_list = None then (-1, wr_list)
      else (0, without_first wr_socket socket wr_list))"

text \<open>Writing through the pointer that \<open>ws_request_get\<close> returned.\<close>

primrec ws_request_store :: "int \<Rightarrow> (ws_request \<Rightarrow> ws_request) \<Rightarrow> ws_request list \<Rightarrow> ws_request list" where
  "ws_request_store fd f [] = []"
| "ws_request_store fd f (node # wr_list) =
     (if wr_socket node = fd then f node # wr_list else node # ws_request_store fd f wr_list)"

interpretation wsl: socket_list wr_socket "ws_request_add (\<lambda>x xs. xs @ [x])" ws_request_get ws_request_delete
  by unfold_locales (auto simp: ws_request_add_def ws_request_get_def ws_request_delete_def)

section \<open>Callbacks\<close>

record ws_callbacks_t =
  on_open :: "nat option"
  on_message :: "nat option"
  on_error :: "nat option"
  on_close :: "nat option"
  on_timeout :: "nat option"

definition ws_set_callback :: "int \<Rightarrow> nat option \<Rightarrow> ws_callbacks_t \<Rightarrow> int \<times> ws_callbacks_t" where
  "ws_set_callback ty callback cbs =
     (if ty = 0 then (0, cbs\<lparr>on_open := callback\<rparr>)
      else if ty = 1 then (0, cbs\<lparr>on_message := callback\<rparr>)
      else if ty = 2 then (0, cbs\<lparr>on_error := callback\<rparr>)
      else if ty = 3 then (0, cbs\<lparr>on_close := callback\<rparr>)
      else if ty = 4 then (0, cbs\<lparr>on_timeout := callback\<rparr>)
      else (-1, cbs))"

section \<open>Sending\<close>

definition WS_OPCODE_CONTINUE :: byte where "WS_OPCODE_CONTINUE = 0x00"
definition WS_OPCODE_TEXT :: byte where "WS_OPCODE_TEXT = 0x01"
definition WS_OPCODE_BINARY :: byte where "WS_OPCODE_BINARY = 0x02"
definition WS_OPCODE_CLOSE :: byte where "WS_OPCODE_CLOSE = 0x08"

lemmas ws_opcodes = WS_OPCODE_CONTINUE_def WS_OPCODE_TEXT_def WS_OPCODE_BINARY_def WS_OPCODE_CLOSE_def

text \<open>The bytes of a 64-bit integer in memory.\<close>

definition le64 :: "64 word \<Rightarrow> byte list" where
  "le64 x = map (\<lambda>i. ucast (drop_bit (8 * i) x)) [0..<8]"

definition of_le64 :: "byte list \<Rightarrow> 64 word" where
  "of_le64 bs = foldr (\<lambda>b acc. push_bit 8 acc OR ucast b) bs 0"

text \<open>\<open>memcpy(out + pos, src, n)\<close>; a null pointer has no bytes to read.\<close>

definition memcpy :: "byte list \<Rightarrow> nat \<Rightarrow> byte list option \<Rightarrow> nat \<Rightarrow> byte list run" where
  "memcpy out pos src n =
     (if n = 0 then Inr out
      else (case src of None \<Rightarrow> Inl NullDeref
        | Some bs \<Rightarrow> if length bs < n \<or> length out < pos + n then Inl OutOfBounds
            else Inr (take pos out @ take n bs @ drop (pos + n) out)))"

text \<open>
  The first two to ten bytes of the frame and the offset of the payload. The code starts from
  zeroed bytes, so \<open>|=\<close> is an assignment.
\<close>

definition ws_frame_header :: "32 word \<Rightarrow> 32 word \<Rightarrow> 32 word \<Rightarrow> 32 word \<Rightarrow> 32 word \<Rightarrow> 64 word \<Rightarrow> byte list \<times> nat" where
  "ws_frame_header fin rsv1 rsv2 rsv3 opcode payload_len =
     (let b0 = ucast (push_bit 7 fin OR push_bit 6 rsv1 OR push_bit 5 rsv2 OR push_bit 4 rsv3 OR opcode) :: byte;
          frame_mask = 0 :: 64 word
      in if payload_len < 126 then ([b0, ucast (push_bit 7 frame_mask OR payload_len)], 2)
         else if payload_len \<ge> 126 \<and> payload_len \<le> 0xFFFF then
           ([b0, ucast (push_bit 7 frame_mask OR 126), ucast (drop_bit 8 payload_len), ucast (payload_len AND 0x0F)], 4)
         else ([b0, ucast (push_bit 7 frame_mask OR 127)] @ le64 payload_len, 10))"

text \<open>\<open>n\<close> is the result of \<open>socket_send\<close>; the bytes given to it are returned as well.\<close>

definition ws_send_data ::
    "int \<Rightarrow> 32 word \<Rightarrow> 32 word \<Rightarrow> 32 word \<Rightarrow> 32 word \<Rightarrow> 32 word \<Rightarrow> 64 word \<Rightarrow> byte list option \<Rightarrow> (int \<times> byte list) run" where
  "ws_send_data n fin rsv1 rsv2 rsv3 opcode payload_len payload_data =
     (case ws_frame_header fin rsv1 rsv2 rsv3 opcode payload_len of (hdr, offset) \<Rightarrow>
        run_bind (puts (replicate 256 0) 0 hdr) (\<lambda>buf.
        run_bind (memcpy buf offset payload_data (unat payload_len)) (\<lambda>buf.
          Inr (if n \<le> 0 then -1 else n, take (offset + unat payload_len) buf))))"

definition ws_write :: "int \<Rightarrow> 32 word \<Rightarrow> byte list option \<Rightarrow> 64 word \<Rightarrow> (int \<times> byte list) run" where
  "ws_write n code data len = ws_send_data n 1 0 0 0 code len data"

section \<open>Receiving\<close>

datatype ws_action = OnOpen nat ws_request | OnMessage nat ws_request | OnError nat ws_request
  | OnClose nat ws_request | OnTimeout nat ws_request | SocketSend int "byte list"

text \<open>The unmasking loop; a null \<open>payload\<close> faults at the first write.\<close>

function ws_unmask :: "byte list \<Rightarrow> nat \<Rightarrow> byte list \<Rightarrow> nat \<Rightarrow> nat \<Rightarrow> byte list option \<Rightarrow> byte list option run" where
  "ws_unmask buf off key len i payload =
     (if i < len then
        run_bind (rd buf (off + i)) (\<lambda>b. run_bind (rd key (i mod 4)) (\<lambda>k.
          (case payload of None \<Rightarrow> Inl NullDeref
           | Some p \<Rightarrow> run_bind (wr p i (b XOR k)) (\<lambda>p. ws_unmask buf off key len (Suc i) (Some p)))))
      else Inr payload)"
  by pat_completeness auto
termination
  by (relation "measure (\<lambda>(buf, off, key, len, i, payload). len - i)") auto

declare ws_unmask.simps [simp del]

text \<open>The announced payload length and the offset behind it.\<close>

definition ws_frame_length :: "byte list \<Rightarrow> 64 word \<times> nat" where
  "ws_frame_length buf =
     (let payload_length = ucast (buf ! 1 AND 0x7f) :: 64 word
      in if payload_length = 126 then (ucast (buf ! 2) * 256 + ucast (buf ! 3), 4)
         else if payload_length = 127 then (of_le64 (take 8 (drop 2 buf)), 10)
         else (payload_length, 2))"

text \<open>The payload as the connection holds it, from the buffer, the mask bit and the length.\<close>

definition ws_frame_payload :: "byte list \<Rightarrow> bool \<Rightarrow> nat \<Rightarrow> 64 word \<Rightarrow> byte list option \<Rightarrow> byte list option run" where
  "ws_frame_payload buf frame_mask masking_key_offset payload_length payload =
     (if frame_mask then
        ws_unmask buf (masking_key_offset + 4) (take 4 (drop masking_key_offset buf)) (unat payload_length) 0 payload
      else if unat payload_length = 0 then Inr payload
      else (case payload of None \<Rightarrow> Inl NullDeref
        | Some p \<Rightarrow> run_bind (memcpy p 0 (Some (drop masking_key_offset buf)) (unat payload_length)) (\<lambda>p. Inr (Some p))))"

text \<open>The buffer after \<open>memset\<close> and \<open>socket_read\<close>.\<close>

definition ws_buf :: "byte list \<Rightarrow> byte list" where
  "ws_buf inp = take 256 inp @ replicate (256 - length inp) 0"

text \<open>
  \<open>inp\<close> are the bytes \<open>socket_read\<close> stored, at most 256, none when it returned zero or less; \<open>alloc\<close> is
  \<open>mem_alloc_z\<close>; \<open>n\<close> is the result of sending the closing frame. \<open>owned\<close> and \<open>closed\<close> are the return
  codes of Monkey.
\<close>

definition cb_ws_read ::
    "int \<Rightarrow> int \<Rightarrow> (nat \<Rightarrow> byte list option) \<Rightarrow> int \<Rightarrow> byte list \<Rightarrow> int \<Rightarrow> ws_request list \<Rightarrow>
     (int \<times> ws_request list \<times> ws_action list) run" where
  "cb_ws_read owned closed alloc n inp sockfd wr_list =
     (case ws_request_get sockfd wr_list of None \<Rightarrow> Inr (closed, wr_list, [])
      | Some node \<Rightarrow>
          if inp = [] then Inr (closed, wr_list, [])
          else
            (let buf = ws_buf inp;
                 frame_opcode = buf ! 0 AND 0x0f;
                 frame_mask = bit (buf ! 1) 7;
                 (payload_length, masking_key_offset) = ws_frame_length buf
             in run_bind (ws_frame_payload buf frame_mask masking_key_offset payload_length (alloc 256)) (\<lambda>payload.
                  (let node' = node\<lparr>wr_opcode := frame_opcode, wr_payload_len := payload_length, wr_payload := payload\<rparr>;
                       wr_list' = ws_request_store sockfd (\<lambda>_. node') wr_list
                   in if frame_opcode = WS_OPCODE_CONTINUE \<or> frame_opcode = WS_OPCODE_TEXT \<or> frame_opcode = WS_OPCODE_BINARY then
                        Inr (owned, wr_list', case wr_cb_on_message node of None \<Rightarrow> [] | Some f \<Rightarrow> [OnMessage f node'])
                      else if frame_opcode = WS_OPCODE_CLOSE then
                        run_bind (ws_send_data n 1 0 0 0 (ucast WS_OPCODE_CLOSE) 0 None) (\<lambda>(_, bytes).
                          Inr (closed, wr_list', (case wr_cb_on_close node of None \<Rightarrow> [] | Some f \<Rightarrow> [OnClose f node']) @ [SocketSend sockfd bytes]))
                      else Inr (owned, wr_list', [])))))"

definition cb_ws_error :: "int \<Rightarrow> int \<Rightarrow> int \<Rightarrow> ws_request list \<Rightarrow> int \<times> ws_action list" where
  "cb_ws_error owned closed sockfd wr_list =
     (case ws_request_get sockfd wr_list of None \<Rightarrow> (closed, [])
      | Some node \<Rightarrow> (owned, case wr_cb_on_error node of None \<Rightarrow> [] | Some f \<Rightarrow> [OnError f node]))"

definition cb_ws_close :: "int \<Rightarrow> int \<Rightarrow> ws_request list \<Rightarrow> int \<times> ws_request list \<times> ws_action list" where
  "cb_ws_close closed sockfd wr_list =
     (case ws_request_get sockfd wr_list of None \<Rightarrow> (closed, wr_list, [])
      | Some node \<Rightarrow> (closed, snd (ws_request_delete sockfd wr_list),
          case wr_cb_on_close node of None \<Rightarrow> [] | Some f \<Rightarrow> [OnClose f node]))"

definition cb_ws_timeout :: "int \<Rightarrow> int \<Rightarrow> int \<Rightarrow> ws_request list \<Rightarrow> int \<times> ws_action list" where
  "cb_ws_timeout owned closed sockfd wr_list =
     (case ws_request_get sockfd wr_list of None \<Rightarrow> (closed, [])
      | Some node \<Rightarrow> (owned, case wr_cb_on_timeout node of None \<Rightarrow> [] | Some f \<Rightarrow> [OnTimeout f node]))"

section \<open>Frames on the wire\<close>

text \<open>
  RFC 6455, 5.2, for payloads of less than \<open>2\<^sup>1\<^sup>6\<close> bytes: the frame of a server, which is not masked,
  and the frame of a client, masked with a key of four bytes.
\<close>

definition rfc_length :: "nat \<Rightarrow> nat \<Rightarrow> byte list" where
  "rfc_length m n = (if n < 126 then [of_nat (m + n)] else [of_nat (m + 126), of_nat (n div 256), of_nat (n mod 256)])"

definition rfc_server_frame :: "byte \<Rightarrow> byte list \<Rightarrow> byte list" where
  "rfc_server_frame b0 data = b0 # rfc_length 0 (length data) @ data"

definition rfc_mask :: "byte list \<Rightarrow> byte list \<Rightarrow> byte list" where
  "rfc_mask key data = map (\<lambda>i. data ! i XOR key ! (i mod 4)) [0..<length data]"

definition rfc_client_frame :: "byte \<Rightarrow> byte list \<Rightarrow> byte list \<Rightarrow> byte list" where
  "rfc_client_frame b0 key data = b0 # rfc_length 128 (length data) @ key @ rfc_mask key data"

lemma ws_send_data_eq:
  assumes "ws_frame_header fin rsv1 rsv2 rsv3 opcode len = (hdr, off)" "length hdr = off" "off \<le> 10"
  shows "ws_send_data n fin rsv1 rsv2 rsv3 opcode len (Some data) =
    (if off + unat len \<le> 256 \<and> unat len \<le> length data then Inr (if n \<le> 0 then -1 else n, hdr @ take (unat len) data) else Inl OutOfBounds)"
proof -
  have p: "puts (replicate 256 0) 0 hdr = Inr (hdr @ replicate (256 - off) 0)"
    using puts_ok [of 0 hdr "replicate 256 0"] assms(2,3) by simp
  show ?thesis using assms by (auto simp: ws_send_data_def p memcpy_def)
qed

lemma ws_header_cases:
  assumes "n < 2 ^ 64"
  shows "n < 126 \<Longrightarrow> ws_frame_header 1 0 0 0 op (of_nat n) = ([ucast (128 OR op), of_nat n], 2)"
    "126 \<le> n \<Longrightarrow> n \<le> 0xFFFF \<Longrightarrow> ws_frame_header 1 0 0 0 op (of_nat n) = ([ucast (128 OR op), 126, of_nat (n div 256), of_nat (n mod 16)], 4)"
    "0xFFFF < n \<Longrightarrow> \<exists>hdr. ws_frame_header 1 0 0 0 op (of_nat n) = (hdr, 10) \<and> length hdr = 10"
proof -
  have u: "unat (of_nat n :: 64 word) = n" using assms by (simp add: unsigned_of_nat take_bit_nat_eq_self_iff)
  have lt: "(of_nat n :: 64 word) < 126 \<longleftrightarrow> n < 126" "126 \<le> (of_nat n :: 64 word) \<longleftrightarrow> 126 \<le> n" "(of_nat n :: 64 word) \<le> 0xFFFF \<longleftrightarrow> n \<le> 0xFFFF"
    unfolding word_less_nat_alt word_le_nat_alt u by simp_all
  have b0: "push_bit 7 1 OR push_bit 6 0 OR push_bit 5 0 OR push_bit 4 0 OR op = 128 OR (op :: 32 word)" by simp
  show "n < 126 \<Longrightarrow> ws_frame_header 1 0 0 0 op (of_nat n) = ([ucast (128 OR op), of_nat n], 2)"
    unfolding ws_frame_header_def b0 Let_def lt
    by (auto intro!: byte_eqI simp: unsigned_ucast_eq u unsigned_of_nat take_bit_nat_eq_self_iff)
  show "126 \<le> n \<Longrightarrow> n \<le> 0xFFFF \<Longrightarrow> ws_frame_header 1 0 0 0 op (of_nat n) = ([ucast (128 OR op), 126, of_nat (n div 256), of_nat (n mod 16)], 4)"
  proof -
    assume n: "126 \<le> n" "n \<le> 0xFFFF"
    have "unat (ucast (drop_bit 8 (of_nat n :: 64 word)) :: byte) = n div 256"
      using n by (simp add: unsigned_ucast_eq unat_drop u take_bit_nat_eq_self_iff div_less_iff_less_mult)
    then have hi: "(ucast (drop_bit 8 (of_nat n :: 64 word)) :: byte) = of_nat (n div 256)"
      using n by (intro byte_eqI) (simp add: div_less_iff_less_mult)
    have "(of_nat n AND 0x0F :: 64 word) = take_bit 4 (of_nat n)" by (simp add: take_bit_eq_mask mask_eq_exp_minus_1)
    then have "unat (of_nat n AND 0x0F :: 64 word) = n mod 16" by (simp only: unat_take u) simp
    then have lo: "(ucast (of_nat n AND 0x0F :: 64 word) :: byte) = of_nat (n mod 16)"
      by (intro byte_eqI) (simp add: unsigned_ucast_eq take_bit_nat_eq_self_iff unsigned_of_nat)
    show ?thesis unfolding ws_frame_header_def b0 Let_def lt hi lo using n by simp
  qed
  show "0xFFFF < n \<Longrightarrow> \<exists>hdr. ws_frame_header 1 0 0 0 op (of_nat n) = (hdr, 10) \<and> length hdr = 10"
    unfolding ws_frame_header_def b0 Let_def lt by (simp add: le64_def)
qed

section \<open>Reading a frame\<close>

lemma ws_unmask_step:
  "i < len \<Longrightarrow> length key = 4 \<Longrightarrow> ws_unmask buf off key len i (Some p) =
     (if off + i < length buf \<and> i < length p then ws_unmask buf off key len (Suc i) (Some (p[i := buf ! (off + i) XOR key ! (i mod 4)]))
      else Inl OutOfBounds)"
  by (subst ws_unmask.simps) (auto simp: rd_def wr_def)

lemma ws_unmask_end: "ws_unmask buf off key len len payload = Inr payload"
  by (subst ws_unmask.simps) simp

lemma ws_unmask_ok:
  assumes "i \<le> len" "length key = 4" "off + len \<le> length buf" "len \<le> length p"
  shows "ws_unmask buf off key len i (Some p) =
    Inr (Some (take i p @ map (\<lambda>j. buf ! (off + j) XOR key ! (j mod 4)) [i..<len] @ drop len p))"
  using assms
proof (induction "len - i" arbitrary: i p)
  case 0
  then show ?case using ws_unmask_end [of buf off key len] by simp
next
  case (Suc d)
  let ?p = "p[i := buf ! (off + i) XOR key ! (i mod 4)]"
  from Suc have i: "i < len" by simp
  have "ws_unmask buf off key len (Suc i) (Some ?p) =
    Inr (Some (take (Suc i) ?p @ map (\<lambda>j. buf ! (off + j) XOR key ! (j mod 4)) [Suc i..<len] @ drop len ?p))"
    using Suc i by (intro Suc.hyps(1)) simp_all
  with i Suc.prems show ?case
    by (simp add: ws_unmask_step take_Suc_conv_app_nth upt_conv_Cons)
qed

lemma ws_unmask_bad:
  assumes "i < len" "length key = 4" "length buf < off + len \<or> length p < len"
  shows "ws_unmask buf off key len i (Some p) = Inl OutOfBounds"
  using assms
proof (induction "len - i" arbitrary: i p)
  case (Suc d)
  show ?case
  proof (cases "off + i < length buf \<and> i < length p")
    case True
    with Suc have "Suc i < len" by auto
    then have "ws_unmask buf off key len (Suc i) (Some (p[i := buf ! (off + i) XOR key ! (i mod 4)])) = Inl OutOfBounds"
      using Suc by (intro Suc.hyps(1)) auto
    with True show ?thesis using ws_unmask_step [OF Suc.prems(1,2)] by simp
  qed (use ws_unmask_step [OF Suc.prems(1,2)] in auto)
qed simp

lemma ws_buf_length [simp]: "length (ws_buf inp) = 256"
  by (simp add: ws_buf_def)

text \<open>What the payload needs of the buffer.\<close>

definition ws_frame_end :: "byte list \<Rightarrow> nat" where
  "ws_frame_end buf = snd (ws_frame_length buf) + (if bit (buf ! 1) 7 then 4 else 0) + unat (fst (ws_frame_length buf))"

lemma ws_frame_offset: "snd (ws_frame_length buf) \<in> {2, 4, 10}"
  by (simp add: ws_frame_length_def Let_def)

lemma ws_frame_payload_iff:
  assumes "length buf = 256" "length z = 256"
  shows "(\<exists>p. ws_frame_payload buf (bit (buf ! 1) 7) (snd (ws_frame_length buf)) (fst (ws_frame_length buf)) (Some z) = Inr (Some p)) \<longleftrightarrow>
    ws_frame_end buf \<le> 256"
    and "256 < ws_frame_end buf \<Longrightarrow>
      ws_frame_payload buf (bit (buf ! 1) 7) (snd (ws_frame_length buf)) (fst (ws_frame_length buf)) (Some z) = Inl OutOfBounds"
proof -
  let ?off = "snd (ws_frame_length buf)" and ?len = "unat (fst (ws_frame_length buf))"
  let ?key = "take 4 (drop ?off buf)"
  have off: "?off \<le> 10" using ws_frame_offset [of buf] by auto
  then have key: "length ?key = 4" using assms by simp
  have bad: "256 < ws_frame_end buf \<Longrightarrow> 0 < ?len" using off by (simp add: ws_frame_end_def split: if_splits)
  have ok: "ws_unmask buf (?off + 4) ?key ?len 0 (Some z) = Inr (Some (map (\<lambda>j. buf ! (?off + 4 + j) XOR ?key ! (j mod 4)) [0..<?len] @ drop ?len z))"
    if "?off + 4 + ?len \<le> 256"
    using ws_unmask_ok [of 0 ?len ?key "?off + 4" buf z] that key assms by simp
  show b: "256 < ws_frame_end buf \<Longrightarrow>
      ws_frame_payload buf (bit (buf ! 1) 7) ?off (fst (ws_frame_length buf)) (Some z) = Inl OutOfBounds"
    using bad ws_unmask_bad [of 0 ?len ?key buf "?off + 4" z] key assms
    by (auto simp: ws_frame_payload_def ws_frame_end_def memcpy_def split: if_splits)
  show "(\<exists>p. ws_frame_payload buf (bit (buf ! 1) 7) ?off (fst (ws_frame_length buf)) (Some z) = Inr (Some p)) \<longleftrightarrow> ws_frame_end buf \<le> 256"
  proof (cases "ws_frame_end buf \<le> 256")
    case True
    with ok assms show ?thesis by (auto simp: ws_frame_payload_def ws_frame_end_def memcpy_def split: if_splits)
  qed (use b in auto)
qed

lemma rfc_length_length: "length (rfc_length m n) = (if n < 126 then 1 else 3)"
  by (simp add: rfc_length_def)

lemma rfc_mask_length [simp]: "length (rfc_mask key data) = length data"
  by (simp add: rfc_mask_def)

lemma byte_bit7: "bit (x :: byte) 7 \<longleftrightarrow> 128 \<le> unat x"
proof -
  have "bit x 7 \<longleftrightarrow> odd (unat x div 128)" using bit_unsigned_iff [of x 7, where ?'a = nat] by (simp add: bit_iff_odd)
  moreover have "unat x div 128 < 2" by (simp add: div_less_iff_less_mult)
  moreover have "128 \<le> unat x \<longleftrightarrow> unat x div 128 \<noteq> 0" by (simp add: div_eq_0_iff not_less)
  ultimately show ?thesis by (auto simp: less_2_cases_iff)
qed

lemma byte_low7: "unat ((x :: byte) AND 0x7f) = unat x mod 128"
proof -
  have "(x AND 0x7f) = take_bit 7 x" by (simp add: take_bit_eq_mask mask_eq_exp_minus_1)
  then show ?thesis using unat_take [of 7 x] by simp
qed

text \<open>The header of a client frame as the code reads it.\<close>

lemma client_frame_header:
  assumes "length data \<le> 0xFFFF" "length key = 4" "length (rfc_client_frame b0 key data) \<le> 256"
  defines "buf \<equiv> ws_buf (rfc_client_frame b0 key data)"
  shows "buf ! 0 = b0" "bit (buf ! 1) 7"
    "ws_frame_length buf = (of_nat (length data), if length data < 126 then 2 else 4)"
    "drop (snd (ws_frame_length buf)) buf = key @ rfc_mask key data @ replicate (256 - length (rfc_client_frame b0 key data)) 0"
proof -
  let ?n = "length data"
  have buf: "buf = rfc_client_frame b0 key data @ replicate (256 - length (rfc_client_frame b0 key data)) 0"
    using assms(3) by (simp add: buf_def ws_buf_def)
  have n: "?n < 256" using assms(3) by (simp add: rfc_client_frame_def)
  then have u: "unat (of_nat ?n :: 64 word) = ?n" by (simp add: unsigned_of_nat take_bit_nat_eq_self_iff)
  have uc: "(ucast (of_nat ?n :: byte) :: 64 word) = of_nat ?n"
    using n unfolding word_unat_eq_iff unsigned_ucast_eq byte_of_nat [OF n] u by (simp add: take_bit_nat_eq_self_iff)
  show "buf ! 0 = b0" by (simp add: buf rfc_client_frame_def)
  have b1: "buf ! 1 = of_nat (128 + min ?n 126)"
    by (auto simp: buf rfc_client_frame_def rfc_length_def min_def)
  have u1: "unat (buf ! 1) = 128 + min ?n 126" unfolding b1 by (rule byte_of_nat) simp
  then show "bit (buf ! 1) 7" unfolding byte_bit7 by simp
  have len7: "(ucast (buf ! 1 AND 0x7f) :: 64 word) = of_nat (min ?n 126)"
  proof -
    have "(128 + min ?n 126) mod 128 = min ?n 126" by (simp add: mod_add_self1)
    then show ?thesis unfolding word_unat_eq_iff unsigned_ucast_eq byte_low7 u1 unsigned_of_nat by simp
  qed
  show len: "ws_frame_length buf = (of_nat ?n, if ?n < 126 then 2 else 4)"
  proof (cases "?n < 126")
    case True
    then have "(of_nat ?n :: 64 word) \<noteq> 126" "(of_nat ?n :: 64 word) \<noteq> 127"
      unfolding word_unat_eq_iff u by simp_all
    with True show ?thesis unfolding ws_frame_length_def len7 Let_def by (simp add: min_def)
  next
    case False
    have "buf ! 2 = of_nat (?n div 256)" "buf ! 3 = of_nat (?n mod 256)"
      using False by (simp_all add: buf rfc_client_frame_def rfc_length_def)
    then have "ucast (buf ! 2) * 256 + ucast (buf ! 3) = (of_nat ?n :: 64 word)"
      using n uc by simp
    with False show ?thesis unfolding ws_frame_length_def len7 Let_def by (simp add: min_def)
  qed
  show "drop (snd (ws_frame_length buf)) buf = key @ rfc_mask key data @ replicate (256 - length (rfc_client_frame b0 key data)) 0"
    unfolding len by (simp add: buf rfc_client_frame_def rfc_length_def)
qed

lemma client_frame_payload:
  assumes "length data \<le> 0xFFFF" "length key = 4" "length (rfc_client_frame b0 key data) \<le> 256" "length z = 256"
  defines "buf \<equiv> ws_buf (rfc_client_frame b0 key data)"
  shows "ws_frame_payload buf (bit (buf ! 1) 7) (snd (ws_frame_length buf)) (fst (ws_frame_length buf)) (Some z) =
    Inr (Some (data @ drop (length data) z))"
proof -
  let ?off = "snd (ws_frame_length buf)"
  note h = client_frame_header [OF assms(1-3), folded buf_def]
  have n: "length data < 256" using assms(3) by (simp add: rfc_client_frame_def)
  then have u: "unat (of_nat (length data) :: 64 word) = length data" by (simp add: unsigned_of_nat take_bit_nat_eq_self_iff)
  have off: "?off + 4 + length data \<le> 256" using assms(2,3) h(3) by (auto simp: rfc_client_frame_def rfc_length_def)
  have nth: "buf ! (?off + 4 + j) = data ! j XOR key ! (j mod 4)" if "j < length data" for j
  proof -
    have "buf ! (?off + 4 + j) = drop ?off buf ! (4 + j)" using off by (simp add: buf_def add.assoc)
    also have "\<dots> = rfc_mask key data ! j" using that assms(2) by (simp add: h(4) nth_append)
    finally show ?thesis using that by (simp add: rfc_mask_def)
  qed
  have key: "take 4 (drop ?off buf) = key" using assms(2) by (simp add: h(4))
  have "map (\<lambda>j. buf ! (?off + 4 + j) XOR key ! (j mod 4)) [0..<length data] = data"
    by (rule nth_equalityI) (simp_all add: nth xor.assoc)
  then have e: "ws_unmask buf (?off + 4) key (length data) 0 (Some z) = Inr (Some (data @ drop (length data) z))"
    using ws_unmask_ok [of 0 "length data" key "?off + 4" buf z] assms(2,4) off by (simp add: buf_def)
  have len: "unat (fst (ws_frame_length buf)) = length data" by (simp add: h(3) u)
  show ?thesis unfolding ws_frame_payload_def key len using h(2) e by simp
qed

lemma ws_get_eq: "ws_request_get fd l = first_node wr_socket fd l"
  by (simp add: ws_request_get_def)

section \<open>Properties\<close>



lemma first_node_store:
  "first_node wr_socket fd l = Some node \<Longrightarrow> wr_socket node' = fd \<Longrightarrow>
     first_node wr_socket k (ws_request_store fd (\<lambda>_. node') l) = (if k = fd then Some node' else first_node wr_socket k l)"
  by (induction l) (auto split: if_splits)

text \<open>
  C13. Receiving a message: a masked client frame of RFC 6455 with a data opcode that fits the
  buffer of 256 bytes is delivered to the message callback with exactly the payload of the client
  and its length; the event is owned, the connection keeps the message and the other connections
  are unchanged.
\<close>

theorem cb_ws_read_delivers:
  assumes "ws_request_get fd l = Some node" "wr_cb_on_message node = Some f"
    and "b0 AND 0x0f = WS_OPCODE_CONTINUE \<or> b0 AND 0x0f = WS_OPCODE_TEXT \<or> b0 AND 0x0f = WS_OPCODE_BINARY"
    and "length key = 4" "length (rfc_client_frame b0 key data) \<le> 256" "alloc 256 = Some z" "length z = 256"
  shows "\<exists>node' l'. cb_ws_read owned closed alloc n (rfc_client_frame b0 key data) fd l = Inr (owned, l', [OnMessage f node']) \<and>
    wr_payload node' = Some (data @ drop (length data) z) \<and> wr_payload_len node' = of_nat (length data) \<and>
    (\<forall>k. ws_request_get k l' = (if k = fd then Some node' else ws_request_get k l))"
proof -
  let ?buf = "ws_buf (rfc_client_frame b0 key data)"
  let ?node = "node\<lparr>wr_opcode := b0 AND 0x0f, wr_payload_len := of_nat (length data), wr_payload := Some (data @ drop (length data) z)\<rparr>"
  have len: "length data \<le> 0xFFFF" using assms(5) by (simp add: rfc_client_frame_def)
  note h = client_frame_header [OF len assms(4,5)] client_frame_payload [OF len assms(4,5,7)]
  have ne: "rfc_client_frame b0 key data \<noteq> []" by (simp add: rfc_client_frame_def)
  have "cb_ws_read owned closed alloc n (rfc_client_frame b0 key data) fd l =
      Inr (owned, ws_request_store fd (\<lambda>_. ?node) l, [OnMessage f ?node])"
    using assms(1,2,3,6) ne h(5) unfolding cb_ws_read_def Let_def h(1) by (simp add: h(3) case_prod_beta)
  moreover have "wr_socket ?node = fd" using assms(1) first_node_key [of wr_socket fd l node] by (simp add: ws_get_eq)
  then have "\<forall>k. ws_request_get k (ws_request_store fd (\<lambda>_. ?node) l) = (if k = fd then Some ?node else ws_request_get k l)"
    using assms(1) first_node_store [of fd l node ?node] by (simp add: ws_get_eq)
  ultimately show ?thesis by (intro exI [of _ ?node] exI [of _ "ws_request_store fd (\<lambda>_. ?node) l"]) simp
qed

definition example_connection :: "int \<Rightarrow> ws_request" where
  "example_connection fd = \<lparr>wr_socket = fd, wr_channel = 1, wr_dr = 0, wr_cb_on_open = None, wr_cb_on_message = Some 7,
     wr_cb_on_error = None, wr_cb_on_close = None, wr_cb_on_timeout = None, wr_opcode = 0, wr_payload = None, wr_payload_len = 0\<rparr>"

theorem cb_ws_read_delivers_witness:
  "\<exists>node' l'. cb_ws_read 1 2 (\<lambda>n. Some (replicate n 0)) 0 (rfc_client_frame 0x81 [1, 2, 3, 4] [0x68, 0x69]) 9 [example_connection 9] =
      Inr (1, l', [OnMessage 7 node']) \<and> wr_payload_len node' = 2"
  using cb_ws_read_delivers [of 9 "[example_connection 9]" "example_connection 9" 7 "0x81" "[1, 2, 3, 4]" "[0x68, 0x69]" "\<lambda>n. Some (replicate n 0)" "replicate 256 0" 1 2 0]
  by (auto simp: ws_request_get_def example_connection_def ws_opcodes rfc_client_frame_def rfc_length_def)

text \<open>
  C14. When reading a frame goes wrong: for every input, the handler of a registered connection
  leaves its buffers exactly when the header, the masking key and the announced payload do not fit
  256 bytes together. How many bytes arrived does not matter, so four bytes suffice to make it
  read and write out of bounds.
\<close>

theorem cb_ws_read_fault_iff:
  assumes "ws_request_get fd l = Some node" "inp \<noteq> []" "alloc 256 = Some z" "length z = 256"
  shows "(\<exists>e. cb_ws_read owned closed alloc n inp fd l = Inl e) \<longleftrightarrow> 256 < ws_frame_end (ws_buf inp)"
proof -
  let ?buf = "ws_buf inp"
  have close: "ws_send_data n 1 0 0 0 (ucast WS_OPCODE_CLOSE) 0 None = Inr (if n \<le> 0 then -1 else n, [0x88, 0])"
    using puts_ok [of 0 "[0x88, 0 :: byte]" "replicate 256 0"]
    by (simp add: ws_send_data_def ws_frame_header_def memcpy_def ws_opcodes del: puts.simps)
  note p = ws_frame_payload_iff [OF ws_buf_length assms(4), of inp]
  show ?thesis
  proof (cases "256 < ws_frame_end ?buf")
    case True
    with p(2) assms(1-3) show ?thesis by (simp add: cb_ws_read_def Let_def case_prod_beta)
  next
    case False
    then obtain q where "ws_frame_payload ?buf (bit (?buf ! 1) 7) (snd (ws_frame_length ?buf)) (fst (ws_frame_length ?buf)) (Some z) = Inr (Some q)"
      using p(1) by auto
    with False assms(1-3) close show ?thesis by (simp add: cb_ws_read_def Let_def case_prod_beta)
  qed
qed

theorem cb_ws_read_fault_iff_witness:
  "\<exists>e. cb_ws_read 1 2 (\<lambda>n. Some (replicate n 0)) 0 [0x81, 0xFE, 1, 0] 9 [example_connection 9] = Inl e"
proof -
  have "256 < ws_frame_end (ws_buf [0x81, 0xFE, 1, 0])"
    by (simp add: ws_frame_end_def ws_frame_length_def ws_buf_def)
  then show ?thesis
    using cb_ws_read_fault_iff [of 9 "[example_connection 9]" "example_connection 9" "[0x81, 0xFE, 1, 0]" "\<lambda>n. Some (replicate n 0)" "replicate 256 0" 1 2 0]
    by (simp add: ws_request_get_def example_connection_def)
qed

end
