(* ===== verification/Duda_Ws_Broadcast.thy ===== *)
theory Duda_Ws_Broadcast
  imports Duda_Ws_Frame
begin

text \<open>
  \<open>packages/websocket/broadcast.c\<close> and \<open>cb_request_list_init\<close> of \<open>request.c\<close>: a message goes through one
  pipe per worker to a broadcast thread, which sends it to the connections of the worker. A frame
  (1048 bytes) is smaller than what a pipe writes at once, so a pipe holds whole frames.
\<close>

unbundle bit_operations_syntax

definition BROADCAST_BUFFER :: nat where "BROADCAST_BUFFER = 1024"

record ws_broadcast_frame =
  bf_source :: int
  bf_len :: "64 word"
  bf_type :: int
  bf_channel :: int
  bf_data :: "byte list"

text \<open>A worker's pipe, with the frames in it, oldest first.\<close>

record ws_broadcast_t =
  bt_wid :: nat
  bt_pipe :: "ws_broadcast_frame list"

record ws_broadcast_worker_args =
  bw_channel :: nat
  bw_conn_list :: "ws_request list"

section \<open>Setting up\<close>

text \<open>\<open>mem\<close> and \<open>pipes\<close> say for which workers the allocation and \<open>pipe\<close> succeed.\<close>

function broadcaster_loop :: "(nat \<Rightarrow> bool) \<Rightarrow> (nat \<Rightarrow> bool) \<Rightarrow> ws_broadcast_t mk_list_adder \<Rightarrow> nat \<Rightarrow> nat \<Rightarrow> ws_broadcast_t list \<Rightarrow> ws_broadcast_t list run" where
  "broadcaster_loop mem pipes add workers i channels =
     (if i < workers then
        if \<not> mem i then Inl NullDeref
        else if \<not> pipes i then Inl Exited
        else broadcaster_loop mem pipes add workers (Suc i) (add \<lparr>bt_wid = i, bt_pipe = []\<rparr> channels)
      else Inr channels)"
  by pat_completeness auto
termination
  by (relation "measure (\<lambda>(mem, pipes, add, workers, i, channels). workers - i)") auto

declare broadcaster_loop.simps [simp del]

text \<open>The state of the package: the broadcast flag, the counter and the channels.\<close>

record ws_broadcast_state =
  wb_is_broadcast :: bool
  wb_count :: nat
  wb_channels :: "ws_broadcast_t list"

definition ws_broadcaster ::
    "(nat \<Rightarrow> bool) \<Rightarrow> (nat \<Rightarrow> bool) \<Rightarrow> ws_broadcast_t mk_list_adder \<Rightarrow> nat \<Rightarrow> ws_broadcast_state \<Rightarrow> (int \<times> ws_broadcast_state) run" where
  "ws_broadcaster mem pipes add workers s =
     run_bind (broadcaster_loop mem pipes add workers 0 []) (\<lambda>channels.
       Inr (0, s\<lparr>wb_is_broadcast := True, wb_count := 0, wb_channels := channels\<rparr>))"

text \<open>
  The start of a worker thread: its empty list of connections and, when broadcasting is on, the
  argument of the broadcast thread that is spawned.
\<close>

definition cb_request_list_init ::
    "bool \<Rightarrow> bool \<Rightarrow> ws_broadcast_state \<Rightarrow> (ws_request list \<times> ws_broadcast_worker_args option \<times> ws_broadcast_state) run" where
  "cb_request_list_init mem_list mem_bw s =
     (if \<not> mem_list then Inl NullDeref
      else if wb_is_broadcast s then
        if \<not> mem_bw then Inl NullDeref
        else Inr ([], Some \<lparr>bw_channel = wb_count s, bw_conn_list = []\<rparr>, s\<lparr>wb_count := wb_count s + 1\<rparr>)
      else Inr ([], None, s))"

section \<open>Sending\<close>

text \<open>\<open>room\<close> says for which workers the write succeeds; a failed one is only reported.\<close>

primrec broadcast_loop :: "(nat \<Rightarrow> bool) \<Rightarrow> ws_broadcast_frame \<Rightarrow> ws_broadcast_t list \<Rightarrow> ws_broadcast_t list" where
  "broadcast_loop room br [] = []"
| "broadcast_loop room br (entry # channels) =
     (if room (bt_wid entry) then entry\<lparr>bt_pipe := bt_pipe entry @ [br]\<rparr> else entry) # broadcast_loop room br channels"

definition ws_broadcast ::
    "(nat \<Rightarrow> bool) \<Rightarrow> ws_request option \<Rightarrow> byte list option \<Rightarrow> 64 word \<Rightarrow> int \<Rightarrow> int \<Rightarrow> ws_broadcast_t list \<Rightarrow> (int \<times> ws_broadcast_t list) run" where
  "ws_broadcast room node data len msg_type channel channels =
     run_bind (memcpy (replicate BROADCAST_BUFFER 0) 0 data (unat len)) (\<lambda>buf.
       Inr (0, broadcast_loop room
         \<lparr>bf_source = (case node of Some w \<Rightarrow> wr_socket w | None \<Rightarrow> 0), bf_len = len, bf_type = msg_type, bf_channel = channel, bf_data = buf\<rparr>
         channels))"

definition ws_broadcast_all :: "(nat \<Rightarrow> bool) \<Rightarrow> byte list option \<Rightarrow> 64 word \<Rightarrow> int \<Rightarrow> int \<Rightarrow> ws_broadcast_t list \<Rightarrow> (int \<times> ws_broadcast_t list) run" where
  "ws_broadcast_all room data len msg_type channel channels = ws_broadcast room None data len msg_type channel channels"

section \<open>The broadcast thread\<close>

text \<open>The loop over the connections for one frame; \<open>n\<close> gives the result of sending to a socket.\<close>

primrec broadcast_deliver :: "(int \<Rightarrow> int) \<Rightarrow> ws_broadcast_frame \<Rightarrow> ws_request list \<Rightarrow> ws_action list run" where
  "broadcast_deliver n brf [] = Inr []"
| "broadcast_deliver n brf (node # conn_list) =
     (if bf_channel brf \<ge> 0 \<and> wr_channel node \<noteq> bf_channel brf then broadcast_deliver n brf conn_list
      else if bf_source brf = wr_socket node then broadcast_deliver n brf conn_list
      else run_bind (ws_write (n (wr_socket node)) (word_of_int (bf_type brf)) (Some (bf_data brf)) (bf_len brf)) (\<lambda>(_, bs).
        run_bind (broadcast_deliver n brf conn_list) (\<lambda>acts. Inr (SocketSend (wr_socket node) bs # acts))))"

text \<open>
  The thread, for as many read events as the list says; every one takes the next frame of the pipe
  (an empty pipe gives no event). The thread has no channel when there are fewer pipes than its
  number.
\<close>

primrec broadcast_events ::
    "(int \<Rightarrow> int) \<Rightarrow> ws_request list list \<Rightarrow> ws_broadcast_frame list \<Rightarrow> (ws_action list \<times> ws_broadcast_frame list) run" where
  "broadcast_events n [] frames = Inr ([], frames)"
| "broadcast_events n (conns # later) frames =
     (case frames of [] \<Rightarrow> broadcast_events n later []
      | brf # rest \<Rightarrow>
          run_bind (broadcast_deliver n brf conns) (\<lambda>acts.
          run_bind (broadcast_events n later rest) (\<lambda>(acts', frames'). Inr (acts @ acts', frames'))))"

definition ws_broadcast_worker ::
    "(int \<Rightarrow> int) \<Rightarrow> nat \<Rightarrow> ws_request list list \<Rightarrow> ws_broadcast_t list \<Rightarrow> (ws_action list \<times> ws_broadcast_frame list) run" where
  "ws_broadcast_worker n channel conns channels =
     (if channel < length channels then broadcast_events n conns (bt_pipe (channels ! channel)) else Inl NullDeref)"

section \<open>Delivery\<close>

lemma broadcaster_loop_ok:
  assumes "mk_list_appends add" "\<forall>i < workers. mem i \<and> pipes i" "i \<le> workers"
  shows "broadcaster_loop mem pipes add workers i channels = Inr (channels @ map (\<lambda>i. \<lparr>bt_wid = i, bt_pipe = []\<rparr>) [i..<workers])"
  using assms(3)
proof (induction "workers - i" arbitrary: i channels)
  case 0
  then show ?case by (subst broadcaster_loop.simps) simp
next
  case (Suc d)
  then have i: "i < workers" by simp
  with Suc assms(2) show ?case
    by (subst broadcaster_loop.simps) (simp add: mk_list_appendsD [OF assms(1)] upt_conv_Cons)
qed

lemma broadcast_loop_all: "\<forall>e \<in> set channels. room (bt_wid e) \<Longrightarrow> broadcast_loop room br channels = map (\<lambda>e. e\<lparr>bt_pipe := bt_pipe e @ [br]\<rparr>) channels"
  by (induction channels) simp_all

text \<open>The connections a frame is meant for.\<close>

definition recipients :: "int \<Rightarrow> int \<Rightarrow> ws_request list \<Rightarrow> ws_request list" where
  "recipients channel source = filter (\<lambda>c. (channel < 0 \<or> wr_channel c = channel) \<and> wr_socket c \<noteq> source)"

lemma broadcast_deliver_all:
  assumes "\<And>r. \<exists>ret. ws_write r (word_of_int (bf_type brf)) (Some (bf_data brf)) (bf_len brf) = Inr (ret, bs)"
  shows "broadcast_deliver n brf conns = Inr (map (\<lambda>c. SocketSend (wr_socket c) bs) (recipients (bf_channel brf) (bf_source brf) conns))"
proof (induction conns)
  case (Cons c conns)
  obtain ret where "ws_write (n (wr_socket c)) (word_of_int (bf_type brf)) (Some (bf_data brf)) (bf_len brf) = Inr (ret, bs)"
    using assms by blast
  with Cons show ?case by (auto simp: recipients_def)
qed (simp add: recipients_def)

text \<open>A short message in the frame buffer is sent as the frame of the message.\<close>

lemma ws_write_short:
  assumes "length data < 126"
  shows "ws_write r code (Some (data @ rest)) (of_nat (length data)) = Inr (if r \<le> 0 then -1 else r, rfc_server_frame (ucast (128 OR code)) data)"
proof -
  have n: "length data < 2 ^ 64" using assms by simp
  then have u: "unat (of_nat (length data) :: 64 word) = length data" by (simp add: unsigned_of_nat take_bit_nat_eq_self_iff)
  from ws_send_data_eq [OF ws_header_cases(1) [OF n assms], where n = r and data = "data @ rest"] assms show ?thesis
    by (simp add: ws_write_def u rfc_server_frame_def rfc_length_def)
qed

section \<open>Properties\<close>

text \<open>
  C22. Broadcasting: a message of less than 126 bytes is put once into the pipe of every worker,
  behind what is there, and when a worker's broadcast thread takes it, it sends the frame of RFC
  6455 with the message once to every connection of the worker on the channel (on every channel
  when the number is negative), except to the connection the message comes from, and to no other.
\<close>

theorem ws_broadcast_delivers:
  assumes "length data < 126" "\<forall>e \<in> set channels. room (bt_wid e)"
  shows "\<exists>br. ws_broadcast room node (Some data) (of_nat (length data)) msg_type channel channels =
      Inr (0, map (\<lambda>e. e\<lparr>bt_pipe := bt_pipe e @ [br]\<rparr>) channels) \<and>
    broadcast_deliver n br conns =
      Inr (map (\<lambda>c. SocketSend (wr_socket c) (rfc_server_frame (ucast (128 OR (word_of_int msg_type :: 32 word))) data))
        (recipients channel (case node of Some w \<Rightarrow> wr_socket w | None \<Rightarrow> 0) conns))"
proof -
  let ?rest = "replicate (BROADCAST_BUFFER - length data) 0"
  let ?br = "\<lparr>bf_source = (case node of Some w \<Rightarrow> wr_socket w | None \<Rightarrow> 0), bf_len = of_nat (length data), bf_type = msg_type,
    bf_channel = channel, bf_data = data @ ?rest\<rparr>"
  have u: "unat (of_nat (length data) :: 64 word) = length data"
    using assms(1) by (simp add: unsigned_of_nat take_bit_nat_eq_self_iff)
  have "memcpy (replicate BROADCAST_BUFFER 0) 0 (Some data) (length data) = Inr (data @ ?rest)"
    using assms(1) by (auto simp: memcpy_def BROADCAST_BUFFER_def)
  then have "ws_broadcast room node (Some data) (of_nat (length data)) msg_type channel channels =
      Inr (0, map (\<lambda>e. e\<lparr>bt_pipe := bt_pipe e @ [?br]\<rparr>) channels)"
    using broadcast_loop_all [OF assms(2)] by (simp add: ws_broadcast_def u)
  moreover have "broadcast_deliver n ?br conns =
      Inr (map (\<lambda>c. SocketSend (wr_socket c) (rfc_server_frame (ucast (128 OR (word_of_int msg_type :: 32 word))) data))
        (recipients channel (case node of Some w \<Rightarrow> wr_socket w | None \<Rightarrow> 0) conns))"
    using broadcast_deliver_all [of ?br] ws_write_short [OF assms(1), where rest = ?rest and code = "word_of_int msg_type"] by simp
  ultimately show ?thesis by blast
qed

theorem ws_broadcast_delivers_witness:
  "\<exists>br. ws_broadcast (\<lambda>_. True) (Some (example_connection 5)) (Some [0x68]) 1 1 (-1) [\<lparr>bt_wid = 0, bt_pipe = []\<rparr>] =
      Inr (0, [\<lparr>bt_wid = 0, bt_pipe = [br]\<rparr>]) \<and>
    broadcast_deliver (\<lambda>_. 3) br [example_connection 4, example_connection 5, example_connection 6] =
      Inr [SocketSend 4 (rfc_server_frame 0x81 [0x68]), SocketSend 6 (rfc_server_frame 0x81 [0x68])]"
  using ws_broadcast_delivers [of "[0x68]" "[\<lparr>bt_wid = 0, bt_pipe = []\<rparr>]" "\<lambda>_. True" "Some (example_connection 5)" 1 "-1" "\<lambda>_. 3"
      "[example_connection 4, example_connection 5, example_connection 6]"]
  by (simp add: recipients_def example_connection_def)

end
