(* ===== verification/Duda_Ws_Handshake.thy ===== *)
theory Duda_Ws_Handshake
  imports Duda_Ws_Frame Duda_Event Duda_Base64 Duda_Sha1 Duda_Request
begin

text \<open>
  \<open>ws_handshake\<close> of \<open>packages/websocket/websocket.c\<close>: the upgrade of an HTTP connection, its accept
  token and the registration of the connection. The package has its own copies of \<open>sha1.c\<close> and
  \<open>base64.c\<close> with the code of the packages of those names. Texts are bytes here; a string in memory
  is its bytes up to the first zero byte.
\<close>

unbundle bit_operations_syntax

section \<open>Strings of bytes\<close>

definition bytes :: "string \<Rightarrow> byte list" where
  "bytes s = map of_char s"

definition b_strlen :: "byte list \<Rightarrow> nat run" where
  "b_strlen s = (if 0 \<in> set s then Inr (length (takeWhile (\<lambda>b. b \<noteq> 0) s)) else Inl OutOfBounds)"

text \<open>\<open>strncpy(out + pos, s, n)\<close>: the text, cut at \<open>n\<close> bytes, and zero bytes up to \<open>n\<close>.\<close>

definition b_strncpy :: "byte list \<Rightarrow> nat \<Rightarrow> byte list \<Rightarrow> nat \<Rightarrow> byte list run" where
  "b_strncpy out pos s n =
     (let t = takeWhile (\<lambda>b. b \<noteq> 0) (take n s)
      in if length s < n \<and> 0 \<notin> set s then Inl OutOfBounds else puts out pos (t @ replicate (n - length t) 0))"

definition WS_GUID :: "byte list" where "WS_GUID = bytes ''258EAFA5-E914-47DA-95CA-C5AB0DC85B11''"
definition WS_RESP_SWITCHING :: "byte list" where "WS_RESP_SWITCHING = bytes (''HTTP/1.1 101 Switching Protocols'' @ [CHR 0x0D, CHR 0x0A])"
definition WS_RESP_UPGRADE :: "byte list" where "WS_RESP_UPGRADE = bytes ''Upgrade: websocket''"
definition WS_RESP_CONNECTION :: "byte list" where "WS_RESP_CONNECTION = bytes ''Connection: Upgrade''"
definition WS_RESP_WS_ACCEPT :: "byte list" where "WS_RESP_WS_ACCEPT = bytes ''Sec-WebSocket-Accept: ''"

section \<open>The handshake\<close>

text \<open>What is answered: a bad request, or the custom status line with the added headers.\<close>

datatype ws_reply = BadRequest | Switching "byte list" "byte list list"

text \<open>
  The accept header: \<open>b1\<close> and \<open>b2\<close> are the uninitialised arrays \<open>buffer\<close> and \<open>accept_token\<close>, \<open>g\<close> is the
  uninitialised block of the digest context. The result has the custom status and the header.
\<close>

definition ws_accept_token :: "mem_alloc \<Rightarrow> byte list \<Rightarrow> byte list \<Rightarrow> byte list \<Rightarrow> byte list \<Rightarrow> (byte list \<times> byte list) run" where
  "ws_accept_token alloc g b1 b2 ws_key =
     run_bind (b_strlen ws_key) (\<lambda>key_len.
     run_bind (b_strncpy b1 0 ws_key key_len) (\<lambda>buffer.
     run_bind (b_strncpy buffer key_len (WS_GUID @ [0]) (length WS_GUID)) (\<lambda>buffer.
     run_bind (wr buffer (key_len + length WS_GUID) 0) (\<lambda>buffer.
     run_bind (b_strlen buffer) (\<lambda>n.
     run_bind (run_bind (blk_SHA1_Update (blk_SHA1_Init g) (take n buffer)) blk_SHA1_Final) (\<lambda>digest.
     run_bind (base64_encode alloc True digest) (\<lambda>enc.
       (case enc of None \<Rightarrow> Inl NullDeref
        | Some (encoded_accept, out_len) \<Rightarrow>
            run_bind (wr encoded_accept out_len 0) (\<lambda>encoded_accept.
            run_bind (b_strncpy buffer 0 (WS_RESP_SWITCHING @ [0]) (length WS_RESP_SWITCHING)) (\<lambda>buffer.
            (let len = length WS_RESP_WS_ACCEPT in
             run_bind (b_strncpy b2 0 (WS_RESP_WS_ACCEPT @ [0]) len) (\<lambda>accept_token.
             run_bind (b_strncpy accept_token len encoded_accept out_len) (\<lambda>accept_token.
             (let len = len + out_len - 1 in
              run_bind (wr accept_token len 0) (\<lambda>accept_token.
                Inr (take (length WS_RESP_SWITCHING) buffer, take len accept_token))))))))))))))))"

text \<open>
  What the handshake gets from outside: \<open>hs_conn\<close> is the result of searching the connection header
  for \<open>Upgrade\<close> (\<open>None\<close> when there is no such header), \<open>hs_upgrade\<close> and \<open>hs_key\<close> what the request object
  answers for \<open>Upgrade\<close> and for \<open>Sec-WebSocket-Key\<close>; then the results of the allocations, the
  uninitialised memory, Monkey's event constants and the numbers that name the package's own event
  callbacks.
\<close>

record ws_env =
  hs_conn :: "int option"
  hs_upgrade :: int
  hs_key :: "byte list option"
  hs_alloc :: mem_alloc
  hs_wr_ok :: bool
  hs_eh_ok :: bool
  hs_opcode :: byte
  hs_block :: "byte list"
  hs_b1 :: "byte list"
  hs_b2 :: "byte list"
  hs_read_mode :: int
  hs_level :: int
  hs_cbs :: "nat \<times> nat \<times> nat \<times> nat"

definition ws_handshake ::
    "ws_env \<Rightarrow> ws_request mk_list_adder \<Rightarrow> duda_event_handler mk_list_adder \<Rightarrow> ws_callbacks_t \<Rightarrow> int \<Rightarrow> nat \<Rightarrow> int \<Rightarrow>
     ws_request list \<Rightarrow> duda_event_handler list option \<Rightarrow>
     (int \<times> ws_reply \<times> ws_request list \<times> duda_event_handler list option \<times> ws_action list) run" where
  "ws_handshake env add add_eh cbs socket dr channel wr_list events =
     (let wr_list = (case ws_request_get socket wr_list of None \<Rightarrow> wr_list | Some _ \<Rightarrow> snd (ws_request_delete socket wr_list))
      in case hs_conn env of None \<Rightarrow> Inr (-1, BadRequest, wr_list, events, [])
         | Some found \<Rightarrow>
             if found < 0 \<or> hs_upgrade env \<le> 0 then Inr (-1, BadRequest, wr_list, events, [])
             else (case hs_key env of None \<Rightarrow> Inr (-1, BadRequest, wr_list, events, [])
               | Some ws_key \<Rightarrow>
                   run_bind (ws_accept_token (hs_alloc env) (hs_block env) (hs_b1 env) (hs_b2 env) ws_key) (\<lambda>(status, token).
                   run_bind (ws_request_create (hs_wr_ok env) (hs_opcode env) socket channel dr (on_open cbs) (on_message cbs)
                       (on_error cbs) (on_close cbs) (on_timeout cbs)) (\<lambda>wr_node.
                   (let wr_list = ws_request_add add wr_node wr_list; (cb_read, cb_error, cb_close, cb_timeout) = hs_cbs env in
                    run_bind (duda_event_add add_eh (hs_read_mode env) (hs_eh_ok env) socket (hs_read_mode env) (hs_level env)
                        (Some cb_read) None (Some cb_error) (Some cb_close) (Some cb_timeout) dr events) (\<lambda>(_, events).
                      Inr (0, Switching status [WS_RESP_UPGRADE, WS_RESP_CONNECTION, token], wr_list, events,
                           case wr_cb_on_open wr_node of None \<Rightarrow> [] | Some f \<Rightarrow> [OnOpen f wr_node])))))))"

section \<open>The accept token\<close>

lemma ws_text_lengths:
  "length WS_GUID = 36" "length WS_RESP_SWITCHING = 34" "length WS_RESP_WS_ACCEPT = 22"
  "0 \<notin> set WS_GUID" "0 \<notin> set WS_RESP_SWITCHING" "0 \<notin> set WS_RESP_WS_ACCEPT" "WS_GUID \<noteq> []"
  by (simp_all add: WS_GUID_def WS_RESP_SWITCHING_def WS_RESP_WS_ACCEPT_def bytes_def)

lemma takeWhile_nonzero: "0 \<notin> set s \<Longrightarrow> takeWhile (\<lambda>b. b \<noteq> 0) (s @ 0 # r) = s"
  by (induction s) auto

lemma b_strlen_text: "0 \<notin> set s \<Longrightarrow> b_strlen (s @ 0 # r) = Inr (length s)"
  by (simp add: b_strlen_def takeWhile_nonzero)

lemma takeWhile_id: "0 \<notin> set s \<Longrightarrow> takeWhile (\<lambda>b. b \<noteq> 0) s = s"
  by (auto simp: takeWhile_eq_all_conv)

lemma b_strncpy_text: "0 \<notin> set s \<Longrightarrow> b_strncpy out pos (s @ r) (length s) = puts out pos s"
  by (simp add: b_strncpy_def takeWhile_id)

lemma sha1_state_length: "length st = 5 \<Longrightarrow> length (fst (absorb_blocks ref1_compress st d)) = 5"
proof (induction ref1_compress st d rule: absorb_blocks.induct)
  case (1 st d)
  have "length (ref1_compress st (take 64 d)) = 5" using blk_SHA1_Block_ref [OF 1(2)] by metis
  with 1 show ?case by (subst absorb_blocks.simps) simp
qed

lemma sha1_ref_length: "length (sha1_ref m) = 20"
proof -
  have "length (fst (absorb_blocks ref1_compress sha1_iv (md_pad m))) = 5"
    by (rule sha1_state_length) (simp add: sha1_iv_def)
  then show ?thesis by (simp add: sha1_ref_def length_concat comp_def be32_def sum_list_triv)
qed

lemma sha1_message:
  assumes "length g = 64" "length m < 2 ^ 32"
  shows "run_bind (blk_SHA1_Update (blk_SHA1_Init g) m) blk_SHA1_Final = Inr (sha1_ref m)"
  using sha1_digest_of [OF assms(1), of "[m]"] assms(2) by (auto simp: run_bind_def split: sum.splits)

lemma list_update_head: "k < length xs \<Longrightarrow> (drop k xs)[0 := v] = v # drop (Suc k) xs"
  by (simp flip: Cons_nth_drop_Suc)

text \<open>The key followed by the GUID, as the digest reads it.\<close>

lemma ws_key_buffer:
  assumes "0 \<notin> set key" "length b1 = 256" "length key \<le> 219"
  shows "run_bind (b_strncpy b1 0 (key @ 0 # r) (length key)) (\<lambda>buffer.
     run_bind (b_strncpy buffer (length key) (WS_GUID @ [0]) (length WS_GUID)) (\<lambda>buffer. wr buffer (length key + length WS_GUID) 0)) =
     Inr (key @ WS_GUID @ 0 # drop (length key + 37) b1)"
proof -
  let ?d = "drop (length key + 36) b1"
  have "b_strncpy b1 0 (key @ 0 # r) (length key) = Inr (key @ drop (length key) b1)"
    unfolding b_strncpy_text [OF assms(1)] using puts_ok [of 0 key b1] assms by simp
  moreover have "b_strncpy (key @ drop (length key) b1) (length key) (WS_GUID @ [0]) (length WS_GUID) = Inr (key @ WS_GUID @ ?d)"
    unfolding b_strncpy_text [OF ws_text_lengths(4)]
    using puts_ok [of "length key" WS_GUID "key @ drop (length key) b1"] assms ws_text_lengths(1) by (simp add: add.commute)
  moreover have "wr (key @ WS_GUID @ ?d) (length key + length WS_GUID) 0 = Inr (key @ WS_GUID @ 0 # drop (length key + 37) b1)"
    using assms(2,3) list_update_head [of "length key + 36" b1 0] by (simp add: wr_def ws_text_lengths list_update_append add.commute)
  ultimately show ?thesis by simp
qed

lemma ws_key_overflow:
  assumes "0 \<notin> set key" "length b1 = 256" "219 < length key"
  shows "run_bind (b_strncpy b1 0 (key @ 0 # r) (length key)) (\<lambda>buffer.
     run_bind (b_strncpy buffer (length key) (WS_GUID @ [0]) (length WS_GUID)) (\<lambda>buffer. wr buffer (length key + length WS_GUID) 0)) =
     Inl OutOfBounds"
proof (cases "length key \<le> 256")
  case True
  have "b_strncpy b1 0 (key @ 0 # r) (length key) = Inr (key @ drop (length key) b1)"
    unfolding b_strncpy_text [OF assms(1)] using puts_ok [of 0 key b1] True assms by simp
  moreover have "b_strncpy (key @ drop (length key) b1) (length key) (WS_GUID @ [0]) (length WS_GUID) =
      (if length key \<le> 220 then Inr (key @ WS_GUID @ drop (length key + 36) b1) else Inl OutOfBounds)"
    unfolding b_strncpy_text [OF ws_text_lengths(4)]
    using puts_ok [of "length key" WS_GUID "key @ drop (length key) b1"] puts_bad [of "key @ drop (length key) b1" "length key" WS_GUID]
      True assms ws_text_lengths(1,7) by (auto simp: add.commute)
  ultimately show ?thesis using assms by (simp add: wr_def ws_text_lengths)
next
  case False
  then show ?thesis unfolding b_strncpy_text [OF assms(1)] using puts_bad [of b1 0 key] assms by (cases key) auto
qed

text \<open>The header from the encoded digest.\<close>

lemma ws_token_buffer:
  assumes "length b2 = 256" "take (length e + 1) enc = e @ [0]" "0 \<notin> set e" "length e \<le> 200"
  shows "run_bind (b_strncpy b2 0 (WS_RESP_WS_ACCEPT @ [0]) 22) (\<lambda>t. run_bind (b_strncpy t 22 enc (length e + 1)) (\<lambda>t.
     run_bind (wr t (22 + (length e + 1) - 1) 0) (\<lambda>t. Inr (take (22 + (length e + 1) - 1) t)))) = Inr (WS_RESP_WS_ACCEPT @ e)"
proof -
  let ?t = "WS_RESP_WS_ACCEPT @ drop 22 b2"
  have enc: "enc = e @ 0 # drop (length e + 1) enc" using append_take_drop_id [of "length e + 1" enc] unfolding assms(2) by simp
  have "b_strncpy b2 0 (WS_RESP_WS_ACCEPT @ [0]) 22 = Inr ?t"
    using b_strncpy_text [OF ws_text_lengths(6), of b2 0 "[0]"] puts_ok [of 0 WS_RESP_WS_ACCEPT b2] assms(1) ws_text_lengths(3) by simp
  moreover have "takeWhile (\<lambda>b. b \<noteq> 0) (take (length e + 1) enc) = e" unfolding assms(2) using takeWhile_nonzero [OF assms(3)] by simp
  then have "b_strncpy ?t 22 enc (length e + 1) = puts ?t 22 (e @ [0])"
    using arg_cong [OF enc, of set] by (simp add: b_strncpy_def Let_def)
  moreover have "puts ?t 22 (e @ [0]) = Inr (WS_RESP_WS_ACCEPT @ e @ 0 # drop (length e + 23) b2)"
    using puts_ok [of 22 "e @ [0]" ?t] assms(1,4) ws_text_lengths(3) by (simp add: add.commute)
  ultimately show ?thesis using assms(4) ws_text_lengths(3) by (simp add: wr_def)
qed

lemma base64_ref_nonzero: "0 \<notin> set (base64_ref src)"
proof -
  have table: "0 \<notin> set base64_table" by (simp add: base64_table_def)
  have "b64_char d \<noteq> 0" if "d < 64" for d
    using that table nth_mem [of d base64_table] unfolding b64_char_def base64_table_length by metis
  then have "0 \<notin> set (b64_digits n)" if "n < 64 ^ 4" for n
    using that by (simp add: b64_digits_def div_less_iff_less_mult)
  moreover have "x * 256 ^ 2 + y * 256 + z < 64 ^ 4" if "x < 256" "y < 256" "z < 256" for x y z :: nat
    using that by simp
  ultimately have digits: "0 \<notin> set (b64_digits (unat a * 256 ^ 2 + unat b * 256 + unat c))" for a b c :: byte
    using byte_unat_less by blast
  show ?thesis
  proof (induction src rule: base64_ref.induct)
    case (2 a)
    show ?case using digits [of a 0 0] set_take_subset [of 2 "b64_digits (unat a * 256 ^ 2)"] by auto
  next
    case (3 a b)
    show ?case using digits [of a b 0] set_take_subset [of 3 "b64_digits (unat a * 256 ^ 2 + unat b * 256)"] by auto
  next
    case (4 a b c r)
    then show ?case using digits [of a b c] by simp
  qed simp
qed

lemma ws_accept_token_ok:
  assumes "0 \<notin> set key" "length key \<le> 219" "length b1 = 256" "length b2 = 256" "length g = 64"
    and "mem_alloc_ok alloc" "alloc (b64_olen 20) = Some hp"
  shows "ws_accept_token alloc g b1 b2 (key @ 0 # r) =
    Inr (WS_RESP_SWITCHING, WS_RESP_WS_ACCEPT @ base64_ref (sha1_ref (key @ WS_GUID)))"
proof -
  let ?d = "sha1_ref (key @ WS_GUID)"
  let ?e = "base64_ref ?d" and ?b = "key @ WS_GUID @ 0 # drop (length key + 37) b1"
  have e28: "length ?e = 28" by (simp add: base64_ref_length sha1_ref_length)
  have "alloc (b64_olen (length ?d)) = Some hp" "?d \<noteq> []" "length ?d < 2 ^ 62" using assms(7) sha1_ref_length [of "key @ WS_GUID"] by auto
  from base64_encode_ok [OF assms(6) this] e28 obtain out where
    out: "base64_encode alloc True ?d = Inr (Some (out, length ?e + 1))" "take (length ?e + 1) out = ?e @ [0]" "length out = length hp"
    by auto
  have hp: "length hp = 31" using mem_alloc_okD [OF assms(6,7)] by (simp add: b64_olen_def)
  have b: "b_strlen ?b = Inr (length (key @ WS_GUID))" "take (length (key @ WS_GUID)) ?b = key @ WS_GUID"
    using b_strlen_text [of "key @ WS_GUID"] assms(1) ws_text_lengths(4) by simp_all
  have sha: "run_bind (blk_SHA1_Update (blk_SHA1_Init g) (key @ WS_GUID)) blk_SHA1_Final = Inr ?d"
    using assms(2,5) ws_text_lengths(1) by (intro sha1_message) simp_all
  have resp: "b_strncpy ?b 0 (WS_RESP_SWITCHING @ [0]) (length WS_RESP_SWITCHING) = Inr (WS_RESP_SWITCHING @ drop 34 ?b)"
    using b_strncpy_text [OF ws_text_lengths(5), of ?b 0 "[0]"] puts_ok [of 0 WS_RESP_SWITCHING ?b] assms(2,3) ws_text_lengths(1,2) by simp
  have tok: "run_bind (b_strncpy b2 0 (WS_RESP_WS_ACCEPT @ [0]) 22) (\<lambda>t. run_bind (b_strncpy t 22 (out[length ?e + 1 := 0]) (length ?e + 1)) (\<lambda>t.
     run_bind (wr t (22 + (length ?e + 1) - 1) 0) (\<lambda>t. Inr (take (22 + (length ?e + 1) - 1) t)))) = Inr (WS_RESP_WS_ACCEPT @ ?e)"
    using assms(4) out(2) base64_ref_nonzero e28 by (intro ws_token_buffer) simp_all
  obtain B1 B2 where buf: "b_strncpy b1 0 (key @ 0 # r) (length key) = Inr B1"
    "b_strncpy B1 (length key) (WS_GUID @ [0]) (length WS_GUID) = Inr B2" "wr B2 (length key + length WS_GUID) 0 = Inr ?b"
    using ws_key_buffer [OF assms(1,3,2), of r] by (auto simp: run_bind_eq_Inr)
  have w: "wr out (length ?e + 1) 0 = Inr (out[length ?e + 1 := 0])" using out(3) hp e28 by (simp add: wr_def)
  show ?thesis
    unfolding ws_accept_token_def b_strlen_text [OF assms(1)] run_bind_Inr buf b sha out(1) option.case prod.case w resp Let_def
    using tok ws_text_lengths(2,3) by (auto simp: run_bind_eq_Inr)
qed

lemma ws_accept_token_overflow:
  assumes "0 \<notin> set key" "length b1 = 256" "219 < length key"
  shows "ws_accept_token alloc g b1 b2 (key @ 0 # r) = Inl OutOfBounds"
  using ws_key_overflow [OF assms, of r]
  by (auto simp: ws_accept_token_def b_strlen_text [OF assms(1)] run_bind_eq_Inl run_bind_eq_Inr)

section \<open>Registration\<close>

abbreviation ws_drop :: "int \<Rightarrow> ws_request list \<Rightarrow> ws_request list" where
  "ws_drop socket l \<equiv> snd (ws_request_delete socket l)"

lemma ws_drop_old: "(case ws_request_get socket l of None \<Rightarrow> l | Some _ \<Rightarrow> ws_drop socket l) = ws_drop socket l"
  by (auto simp: ws_request_get_def ws_request_delete_def split: option.splits)

lemma ws_replace:
  assumes "mk_list_appends add" "distinct (map wr_socket l)"
  shows "distinct (map wr_socket (ws_request_add add node (ws_drop (wr_socket node) l)))"
    and "ws_request_get k (ws_request_add add node (ws_drop (wr_socket node) l)) = (if k = wr_socket node then Some node else ws_request_get k l)"
proof -
  have add: "add = (\<lambda>x xs. xs @ [x])" using assms(1) by (auto simp: mk_list_appends_def)
  show "distinct (map wr_socket (ws_request_add add node (ws_drop (wr_socket node) l)))"
    using wsl.replace_unique [of l node] assms(2) unfolding wsl.unique_def add .
  show "ws_request_get k (ws_request_add add node (ws_drop (wr_socket node) l)) = (if k = wr_socket node then Some node else ws_request_get k l)"
    unfolding add using assms(2) by (intro wsl.replace_lookup) (simp add: wsl.unique_def)
qed

text \<open>The uninitialised memory has the sizes of the declarations, and memory is available.\<close>

definition ws_env_ok :: "ws_env \<Rightarrow> bool" where
  "ws_env_ok env \<longleftrightarrow> length (hs_b1 env) = 256 \<and> length (hs_b2 env) = 256 \<and> length (hs_block env) = 64 \<and>
     mem_alloc_ok (hs_alloc env) \<and> hs_alloc env (b64_olen 20) \<noteq> None \<and> hs_wr_ok env"

section \<open>Properties\<close>


definition example_env :: "byte list \<Rightarrow> ws_env" where
  "example_env key = \<lparr>hs_conn = Some 0, hs_upgrade = 1, hs_key = Some (key @ [0]), hs_alloc = mem_alloc_ref, hs_wr_ok = True, hs_eh_ok = True,
     hs_opcode = 0, hs_block = replicate 64 7, hs_b1 = replicate 256 7, hs_b2 = replicate 256 7, hs_read_mode = 1, hs_level = 0, hs_cbs = (1, 2, 3, 4)\<rparr>"


text \<open>
  C39. Together with the request object of the repository the handshake never succeeds: it asks
  for the upgrade header with a null key, which \<open>duda_request_header_contains\<close> rejects, so every
  request is answered with a bad request, after a connection of the socket was dropped.
\<close>

theorem ws_handshake_rejected:
  assumes "hs_upgrade env = duda_request_header_contains header_get str_search_n req name None 0 ''websocket''"
  shows "ws_handshake env add add_eh cbs socket dr channel l events = Inr (-1, BadRequest, ws_drop socket l, events, [])"
proof -
  have "hs_upgrade env = -1" using assms by (simp add: duda_request_header_contains_def split: option.splits)
  then show ?thesis unfolding ws_handshake_def ws_drop_old Let_def by (simp split: option.splits)
qed

theorem ws_handshake_rejected_witness:
  "ws_handshake ((example_env [0x61])\<lparr>hs_upgrade := duda_request_header_contains (\<lambda>_ _ _ _. None) (\<lambda>_ _ _. 0) None 3 None 0 ''websocket''\<rparr>)
     (\<lambda>x xs. xs @ [x]) (\<lambda>x xs. xs @ [x]) \<lparr>on_open = None, on_message = None, on_error = None, on_close = None, on_timeout = None\<rparr>
     9 0 3 [example_connection 9] (Some []) = Inr (-1, BadRequest, [], Some [], [])"
  by (subst ws_handshake_rejected) (simp_all add: ws_request_delete_def example_connection_def)

end
