(* ===== verification/Spec2Isabelle.thy ===== *)
theory Spec2Isabelle
  imports Duda_Prelude Duda_Utils Duda_Gc Duda_Router Duda_Param Duda_Qs Duda_Flush Duda_Body_Buffer
    Duda_Sendfile Duda_Queue Duda_Base64 Duda_Bytes Duda_Cjson Duda_Cjson_Items
    Duda_Cjson_Roundtrip Duda_Cjson_Text Duda_Cjson_Utf8 Duda_Cjson_Wf Duda_Cookie
    Duda_Dr_List Duda_Dthread Duda_Dthread_Channel Duda_Event Duda_Hash Duda_Hooks Duda_Main
    Duda_Registry Duda_Request Duda_Response Duda_Session Duda_Sha1 Duda_Sha256
    Duda_Ws_Broadcast Duda_Ws_Frame Duda_Ws_Handshake
begin

text \<open>
  A verification development of the Duda I/O web services framework.
\<close>

end
